(* ===== verification/Uldb_Prelude.thy ===== *)
theory Uldb_Prelude
  imports Main "HOL-Library.Word" "HOL-Library.List_Lexorder" "HOL-Library.Multiset"
begin

text \<open>
  The shared vocabulary of the development: machine integers and byte strings, the parts of
  the Rust standard library the sources use (big-endian conversion, ordered maps, slices
  searched by bisection), and the interfaces (locales) through which one component relies on
  another. A \<^verbatim>\<open>Vec<u8>\<close> or \<^verbatim>\<open>&[u8]\<close> is a list of 8-bit words compared
  lexicographically, as Rust compares slices. A \<^verbatim>\<open>BTreeMap\<close> is an association list
  with strictly increasing keys, so that its iteration order is the list order. A
  \<^verbatim>\<open>usize\<close> that counts bytes or entries held in memory is a natural number; fixed-width
  integers that reach a file, a hash or a wire format are words of that width.
\<close>

unbundle bit_operations_syntax

section \<open>Types\<close>

type_synonym u8 = "8 word"
type_synonym u16 = "16 word"
type_synonym u32 = "32 word"
type_synonym u64 = "64 word"
type_synonym bytes = "u8 list"
type_synonym str = bytes \<comment> \<open>a Rust string: its UTF-8 bytes\<close>

named_theorems be_simps \<open>big-endian conversions and their lengths\<close>
named_theorems bt_simps \<open>ordered association lists\<close>

text \<open>The bytes of an ASCII literal.\<close>

definition ascii :: "string \<Rightarrow> bytes" where
  "ascii s = map of_char s"

text \<open>
  \<^verbatim>\<open>std::str::from_utf8\<close>: whether the bytes are well-formed UTF-8 (no overlong forms, no
  surrogates, nothing above U+10FFFF).
\<close>

definition utf8_cont :: "u8 \<Rightarrow> bool" where
  "utf8_cont b = (0x80 \<le> b \<and> b \<le> 0xBF)"

fun utf8_valid :: "bytes \<Rightarrow> bool" where
  "utf8_valid [] = True"
| "utf8_valid (a # bs) =
     (if a < 0x80 then utf8_valid bs
      else if 0xC2 \<le> a \<and> a \<le> 0xDF
      then (case bs of b # r \<Rightarrow> utf8_cont b \<and> utf8_valid r | _ \<Rightarrow> False)
      else if 0xE0 \<le> a \<and> a \<le> 0xEF
      then (case bs of
              b # c # r \<Rightarrow> utf8_cont b \<and> (a = 0xE0 \<longrightarrow> 0xA0 \<le> b) \<and> (a = 0xED \<longrightarrow> b \<le> 0x9F) \<and>
                utf8_cont c \<and> utf8_valid r
            | _ \<Rightarrow> False)
      else if 0xF0 \<le> a \<and> a \<le> 0xF4
      then (case bs of
              b # c # d # r \<Rightarrow> utf8_cont b \<and> (a = 0xF0 \<longrightarrow> 0x90 \<le> b) \<and> (a = 0xF4 \<longrightarrow> b \<le> 0x8F) \<and>
                utf8_cont c \<and> utf8_cont d \<and> utf8_valid r
            | _ \<Rightarrow> False)
      else False)"

section \<open>Big-endian integers\<close>

text \<open>
  \<open>to_be n w\<close> is \<^verbatim>\<open>w.to_be_bytes()\<close> for an integer of \<open>n\<close> bytes, and
  \<open>from_be\<close> is \<^verbatim>\<open>from_be_bytes\<close>, at every width.
\<close>

primrec to_be :: "nat \<Rightarrow> 'a::len word \<Rightarrow> bytes" where
  "to_be 0 w = []"
| "to_be (Suc n) w = ucast (drop_bit (8 * n) w) # to_be n w"

definition be_step :: "u8 \<Rightarrow> 'a::len word \<Rightarrow> 'a word" where
  "be_step b acc = push_bit 8 acc OR ucast b"

definition from_be :: "bytes \<Rightarrow> 'a::len word" where
  "from_be bs = fold be_step bs 0"

lemma length_to_be [be_simps, simp]: "length (to_be n w) = n"
  by (induction n) auto

lemma to_be_2 [be_simps]: "to_be 2 w = [ucast (drop_bit 8 w), ucast w]"
  by (simp add: numeral_2_eq_2)

lemma to_be_4 [be_simps]:
  "to_be 4 w = [ucast (drop_bit 24 w), ucast (drop_bit 16 w), ucast (drop_bit 8 w), ucast w]"
  by (simp add: numeral_eq_Suc)

lemma be_step_drop_bit:
  "be_step (ucast (drop_bit m w)) (drop_bit (8 + m) w) = drop_bit m (w::'a::len word)"
proof (rule bit_word_eqI)
  fix n assume n: "n < LENGTH('a)"
  show "bit (be_step (ucast (drop_bit m w)) (drop_bit (8 + m) w)) n = bit (drop_bit m w) n"
  proof (cases "n < 8")
    case True
    then show ?thesis using n by (auto simp: be_step_def bit_simps)
  next
    case False
    then have "8 + m + (n - 8) = m + n" by simp
    with False show ?thesis using n by (auto simp: be_step_def bit_simps)
  qed
qed

lemma fold_be_step_to_be: "fold be_step (to_be n w) (drop_bit (8 * n) w) = (w::'a::len word)"
  by (induction n) (auto simp: be_step_drop_bit algebra_simps)

lemma from_be_to_be [be_simps, simp]:
  assumes "8 * n = LENGTH('a)"
  shows "from_be (to_be n w) = (w::'a::len word)"
proof -
  have "drop_bit (8 * n) w = 0"
    unfolding assms by (simp add: drop_bit_eq_zero_iff_not_bit_last bit_simps)
  then show ?thesis
    using fold_be_step_to_be [of n w] by (simp add: from_be_def)
qed

lemma from_be_u16 [simp]: "from_be (to_be 2 w) = (w::u16)"
  and from_be_u32 [simp]: "from_be (to_be 4 v) = (v::u32)"
  and from_be_u64 [simp]: "from_be (to_be 8 x) = (x::u64)"
  by simp_all

section \<open>Ordered maps\<close>

text \<open>
  \<^verbatim>\<open>std::collections::BTreeMap\<close>: lookup, insertion, removal, ordered iteration (the list
  itself) and the half-open range \<^verbatim>\<open>[start, end)\<close>. Rust's \<^verbatim>\<open>range\<close> panics
  when \<open>start > end\<close>; callers that can pass such bounds model the panic themselves.
\<close>

definition bt_get :: "('k \<times> 'v) list \<Rightarrow> 'k \<Rightarrow> 'v option" where
  "bt_get m k = map_of m k"

fun bt_insert :: "'k::linorder \<Rightarrow> 'v \<Rightarrow> ('k \<times> 'v) list \<Rightarrow> ('k \<times> 'v) list" where
  "bt_insert k v [] = [(k, v)]"
| "bt_insert k v ((k', v') # m) =
     (if k < k' then (k, v) # (k', v') # m
      else if k = k' then (k, v) # m
      else (k', v') # bt_insert k v m)"

definition bt_remove :: "'k \<Rightarrow> ('k \<times> 'v) list \<Rightarrow> ('k \<times> 'v) list" where
  "bt_remove k m = filter (\<lambda>(k', _). k' \<noteq> k) m"

definition bt_range :: "('k::linorder \<times> 'v) list \<Rightarrow> 'k \<Rightarrow> 'k \<Rightarrow> ('k \<times> 'v) list" where
  "bt_range m s e = filter (\<lambda>(k, _). s \<le> k \<and> k < e) m"

definition bt_ok :: "('k::linorder \<times> 'v) list \<Rightarrow> bool" where
  "bt_ok m = sorted_wrt (<) (map fst m)"

lemma bt_ok_Nil [simp]: "bt_ok []"
  by (simp add: bt_ok_def)

lemma bt_ok_Cons: "bt_ok ((k, v) # m) \<longleftrightarrow> (\<forall>k' \<in> fst ` set m. k < k') \<and> bt_ok m"
  by (auto simp: bt_ok_def)

lemma bt_ok_distinct: "bt_ok m \<Longrightarrow> distinct (map fst m)"
  by (auto simp: bt_ok_def strict_sorted_iff)

lemma bt_get_Nil [simp]: "bt_get [] k = None"
  by (simp add: bt_get_def)

lemma bt_get_insert [bt_simps, simp]:
  "bt_get (bt_insert k v m) k' = (if k' = k then Some v else bt_get m k')"
  by (induction k v m rule: bt_insert.induct) (auto simp: bt_get_def)

lemma bt_get_remove [bt_simps, simp]:
  "bt_get (bt_remove k m) k' = (if k' = k then None else bt_get m k')"
  by (induction m) (auto simp: bt_get_def bt_remove_def)

lemma bt_get_range [bt_simps, simp]:
  "bt_get (bt_range m s e) k = (if s \<le> k \<and> k < e then bt_get m k else None)"
  by (induction m) (auto simp: bt_get_def bt_range_def)

lemma set_bt_insert: "fst ` set (bt_insert k v m) = insert k (fst ` set m)"
  by (induction k v m rule: bt_insert.induct) auto

lemma bt_ok_insert [bt_simps, simp]: "bt_ok m \<Longrightarrow> bt_ok (bt_insert k v m)"
proof (induction k v m rule: bt_insert.induct)
  case (1 k v)
  then show ?case by (simp add: bt_ok_def)
next
  case (2 k v k' v' m)
  then show ?case by (auto simp: bt_ok_Cons set_bt_insert)
qed

lemma bt_ok_filter: "bt_ok m \<Longrightarrow> bt_ok (filter P m)"
  by (induction m) (auto simp: bt_ok_Cons)

lemma bt_ok_remove [bt_simps, simp]: "bt_ok m \<Longrightarrow> bt_ok (bt_remove k m)"
  unfolding bt_remove_def by (rule bt_ok_filter)

lemma bt_ok_range [bt_simps, simp]: "bt_ok m \<Longrightarrow> bt_ok (bt_range m s e)"
  unfolding bt_range_def by (rule bt_ok_filter)

lemma bt_get_Some_iff: "bt_ok m \<Longrightarrow> bt_get m k = Some v \<longleftrightarrow> (k, v) \<in> set m"
  by (simp add: bt_get_def bt_ok_distinct)

lemma bt_get_None_iff: "bt_get m k = None \<longleftrightarrow> k \<notin> fst ` set m"
  by (auto simp: bt_get_def map_of_eq_None_iff)

text \<open>Two ordered maps with the same lookups are the same list.\<close>

lemma bt_entries: "bt_ok m \<Longrightarrow> m = map (\<lambda>k. (k, the (bt_get m k))) (map fst m)"
  by (auto simp: bt_get_Some_iff intro!: nth_equalityI)
    (metis bt_get_Some_iff nth_mem option.sel prod.collapse)

lemma bt_ok_ext:
  assumes "bt_ok m" "bt_ok m'" "bt_get m = bt_get m'"
  shows "m = m'"
proof -
  have "set (map fst m) = set (map fst m')"
    using assms(3) by (auto simp: fun_eq_iff) (metis bt_get_None_iff image_eqI fst_conv)+
  then have "map fst m = map fst m'"
    using assms(1,2) strict_sorted_equal unfolding bt_ok_def by blast
  then show ?thesis
    using bt_entries [OF assms(1)] bt_entries [OF assms(2)] assms(3) by simp
qed

section \<open>Hash maps\<close>

text \<open>
  \<^verbatim>\<open>std::collections::HashMap\<close>: an association list with distinct keys whose order
  stands for the unspecified iteration order. Insertion replaces the entry of the key, and
  assignment through \<^verbatim>\<open>get_mut\<close> overwrites it in place.
\<close>

definition hm_insert :: "'k \<Rightarrow> 'v \<Rightarrow> ('k \<times> 'v) list \<Rightarrow> ('k \<times> 'v) list" where
  "hm_insert k v m = (k, v) # bt_remove k m"

definition hm_set :: "'k \<Rightarrow> 'v \<Rightarrow> ('k \<times> 'v) list \<Rightarrow> ('k \<times> 'v) list" where
  "hm_set k v m = map (\<lambda>(k', v'). if k' = k then (k, v) else (k', v')) m"

lemma map_of_bt_remove [simp]: "map_of (bt_remove k m) = (map_of m)(k := None)"
  by (induction m) (auto simp: bt_remove_def fun_eq_iff)

lemma map_of_hm_insert [simp]: "map_of (hm_insert k v m) = (map_of m)(k \<mapsto> v)"
  by (simp add: hm_insert_def)

lemma map_of_hm_set: "map_of (hm_set k v m) = (if k \<in> fst ` set m then (map_of m)(k \<mapsto> v) else map_of m)"
  by (induction m) (auto simp: hm_set_def fun_eq_iff)

lemma bt_remove_keys [simp]: "fst ` set (bt_remove k m) = fst ` set m - {k}"
  by (force simp: bt_remove_def)

lemma distinct_bt_remove [simp]: "distinct (map fst m) \<Longrightarrow> distinct (map fst (bt_remove k m))"
  by (simp add: bt_remove_def distinct_map_filter)

lemma distinct_hm_insert [simp]: "distinct (map fst m) \<Longrightarrow> distinct (map fst (hm_insert k v m))"
  by (simp add: hm_insert_def)

lemma set_hm_set: "set (hm_set k v m) \<subseteq> insert (k, v) (set m)"
  by (auto simp: hm_set_def split: if_splits)

lemma map_fst_hm_set [simp]: "map fst (hm_set k v m) = map fst m"
  by (induction m) (auto simp: hm_set_def)

lemma bt_remove_absent: "k \<notin> fst ` set m \<Longrightarrow> bt_remove k m = m"
  by (auto simp: bt_remove_def filter_id_conv rev_image_eqI)

lemma map_of_map_snd: "map_of (map (\<lambda>(k, e). (k, f e)) es) k = map_option f (map_of es k)"
  by (induction es) auto

lemma sorted_wrt_map_filter: "sorted_wrt P (map f xs) \<Longrightarrow> sorted_wrt P (map f (filter Q xs))"
  by (simp add: sorted_wrt_map sorted_wrt_filter)

text \<open>Sorting a list whose keys are distinct gives the one strictly increasing arrangement.\<close>

lemma sort_key_unique:
  assumes "mset ys = mset xs" "sorted_wrt (<) (map f ys)"
  shows "sort_key f xs = (ys :: 'a list)"
proof -
  have "map f (sort_key f xs) = sort (map f xs)"
    by (intro properties_for_sort [symmetric]) simp_all
  also have "\<dots> = sort (map f ys)"
    using assms(1) by (metis mset_map properties_for_sort sorted_sort mset_sort)
  also have "\<dots> = map f ys"
    using assms(2) by (simp add: sorted_sort_id strict_sorted_imp_sorted)
  finally have eq: "map f (sort_key f xs) = map f ys" .
  have "inj_on f (set ys)"
    using assms(2) by (metis distinct_map strict_sorted_iff)
  moreover have "set (sort_key f xs) = set ys"
    using assms(1) by (metis mset_eq_setD set_sort)
  ultimately show ?thesis
    using map_inj_on [OF eq] by simp
qed

section \<open>Bisection\<close>

text \<open>
  \<^verbatim>\<open>slice::binary_search_by\<close>: \<open>Found i\<close> is \<^verbatim>\<open>Ok(i)\<close>, the index of a
  matching element; \<open>Missing i\<close> is \<^verbatim>\<open>Err(i)\<close>, the index at which the key could be
  inserted. On a slice with strictly increasing keys the result is unique, so the probe order
  of the implementation does not matter.
\<close>

datatype bsearch = Found nat | Missing nat

function bsearch_loop :: "('a \<Rightarrow> 'k::linorder) \<Rightarrow> 'a list \<Rightarrow> 'k \<Rightarrow> nat \<Rightarrow> nat \<Rightarrow> bsearch" where
  "bsearch_loop key xs k lo hi =
     (if lo < hi then
        (let mid = lo + (hi - lo) div 2; x = key (xs ! mid)
         in if x = k then Found mid
            else if x < k then bsearch_loop key xs k (Suc mid) hi
            else bsearch_loop key xs k lo mid)
      else Missing lo)"
  by pat_completeness auto
termination
  by (relation "measure (\<lambda>(key, xs, k, lo, hi). hi - lo)") auto

declare bsearch_loop.simps [simp del]

definition binary_search_by :: "('a \<Rightarrow> 'k::linorder) \<Rightarrow> 'a list \<Rightarrow> 'k \<Rightarrow> bsearch" where
  "binary_search_by key xs k = bsearch_loop key xs k 0 (length xs)"

lemma bsearch_loop_spec:
  assumes "sorted_wrt (<) (map key xs)" "lo \<le> hi" "hi \<le> length xs"
    and "\<forall>j < lo. key (xs ! j) < k"
    and "\<forall>j. hi \<le> j \<longrightarrow> j < length xs \<longrightarrow> k < key (xs ! j)"
  shows "case bsearch_loop key xs k lo hi of
      Found i \<Rightarrow> i < length xs \<and> key (xs ! i) = k
    | Missing i \<Rightarrow> i \<le> length xs \<and> (\<forall>j < i. key (xs ! j) < k) \<and>
        (\<forall>j. i \<le> j \<longrightarrow> j < length xs \<longrightarrow> k < key (xs ! j))"
  using assms
proof (induction key xs k lo hi rule: bsearch_loop.induct)
  case (1 key xs k lo hi)
  let ?mid = "lo + (hi - lo) div 2"
  have mono: "key (xs ! i) < key (xs ! j)" if "i < j" "j < length xs" for i j
    using "1.prems"(1) that by (auto simp: sorted_wrt_iff_nth_less)
  show ?case
  proof (cases "lo < hi")
    case False
    with "1.prems" show ?thesis by (subst bsearch_loop.simps) simp
  next
    case True
    then have mid: "?mid < hi" "lo \<le> ?mid" by auto
    have low: "key (xs ! j) < k" if "key (xs ! ?mid) < k" "j < Suc ?mid" for j
      using mono [of j ?mid] that mid "1.prems" by (cases "j = ?mid") auto
    have high: "k < key (xs ! j)" if "k < key (xs ! ?mid)" "?mid \<le> j" "j < length xs" for j
      using mono [of ?mid j] that mid by (cases "j = ?mid") auto
    consider "key (xs ! ?mid) = k" | "key (xs ! ?mid) < k" | "k < key (xs ! ?mid)"
      by (metis linorder_cases)
    then show ?thesis
    proof cases
      case 1
      with True mid "1.prems" show ?thesis
        by (simp add: bsearch_loop.simps [of key xs k lo hi] Let_def)
    next
      case 2
      with True mid "1.prems" low show ?thesis
        by (subst bsearch_loop.simps) (auto simp: Let_def intro!: "1.IH"(1))
    next
      case 3
      then have "\<not> key (xs ! ?mid) < k" "key (xs ! ?mid) \<noteq> k" by auto
      with 3 True mid "1.prems" high show ?thesis
        by (subst bsearch_loop.simps) (auto simp: Let_def intro!: "1.IH"(2))
    qed
  qed
qed

text \<open>What the callers use: membership, and the index of the first key not below \<open>k\<close>.\<close>

lemma binary_search_by_Found:
  assumes "sorted_wrt (<) (map key xs)" "binary_search_by key xs k = Found i"
  shows "i < length xs" "key (xs ! i) = k"
  using bsearch_loop_spec [of key xs 0 "length xs" k] assms
  by (auto simp: binary_search_by_def)

lemma binary_search_by_Missing:
  assumes "sorted_wrt (<) (map key xs)" "binary_search_by key xs k = Missing i"
  shows "i \<le> length xs" "\<And>j. j < i \<Longrightarrow> key (xs ! j) < k"
    "\<And>j. i \<le> j \<Longrightarrow> j < length xs \<Longrightarrow> k < key (xs ! j)"
  using bsearch_loop_spec [of key xs 0 "length xs" k] assms
  by (auto simp: binary_search_by_def)

section \<open>Interfaces\<close>

text \<open>
  \<^bold>\<open>Key-value stores.\<close> The contract a map implementation offers its clients: a partial
  update (\<open>None\<close> when the code does not return), a lookup, and an invariant every update
  keeps. The client side is proved here once: writing a list of pairs, as branch merges and
  state rebuilds do, is the right-biased union of maps.
\<close>

lemma map_of_rev_distinct: "distinct (map fst kvs) \<Longrightarrow> map_of (rev kvs) = map_of kvs"
  by (simp add: map_of_inject_set rev_map [symmetric])

primrec put_all :: "('k \<Rightarrow> 'v \<Rightarrow> 'm \<Rightarrow> 'm option) \<Rightarrow> ('k \<times> 'v) list \<Rightarrow> 'm \<Rightarrow> 'm option" where
  "put_all put [] m = Some m"
| "put_all put (kv # kvs) m =
     (case put (fst kv) (snd kv) m of None \<Rightarrow> None | Some m' \<Rightarrow> put_all put kvs m')"

locale kv_writer =
  fixes kv_put :: "'k \<Rightarrow> 'v \<Rightarrow> 'm \<Rightarrow> 'm option"
    and kv_get :: "'m \<Rightarrow> 'k \<Rightarrow> 'v option"
    and kv_ok :: "'m \<Rightarrow> bool"
  assumes put_ok: "kv_ok m \<Longrightarrow> kv_put k v m = Some m' \<Longrightarrow> kv_ok m'"
    and put_get: "kv_ok m \<Longrightarrow> kv_put k v m = Some m' \<Longrightarrow> kv_get m' = (kv_get m)(k \<mapsto> v)"
begin

lemma put_all_ok: "kv_ok m \<Longrightarrow> put_all kv_put kvs m = Some m' \<Longrightarrow> kv_ok m'"
  by (induction kvs arbitrary: m) (auto split: option.splits dest: put_ok)

lemma put_all_get:
  "kv_ok m \<Longrightarrow> put_all kv_put kvs m = Some m' \<Longrightarrow> kv_get m' = kv_get m ++ map_of (rev kvs)"
proof (induction kvs arbitrary: m)
  case Nil
  then show ?case by simp
next
  case (Cons kv kvs)
  then obtain m1 where m1: "kv_put (fst kv) (snd kv) m = Some m1" "put_all kv_put kvs m1 = Some m'"
    by (auto split: option.splits)
  then have "kv_get m' = kv_get m1 ++ map_of (rev kvs)"
    using Cons put_ok by blast
  also have "kv_get m1 = (kv_get m)(fst kv \<mapsto> snd kv)"
    using Cons.prems(1) m1(1) by (rule put_get)
  finally show ?case by (simp add: map_add_def fun_eq_iff split: option.splits)
qed

lemma put_all_get_distinct:
  assumes "kv_ok m" "put_all kv_put kvs m = Some m'" "distinct (map fst kvs)"
  shows "kv_get m' = kv_get m ++ map_of kvs"
  using put_all_get [OF assms(1,2)] assms(3) by (simp add: map_of_rev_distinct)

end

text \<open>A writer that returns unless the hash of the key is that of another key in the store.\<close>

locale hashed_writer = kv_writer kv_put kv_get kv_ok
  for kv_put :: "'k \<Rightarrow> 'v \<Rightarrow> 'm \<Rightarrow> 'm option"
    and kv_get :: "'m \<Rightarrow> 'k \<Rightarrow> 'v option"
    and kv_ok :: "'m \<Rightarrow> bool" +
  fixes kv_hash :: "'k \<Rightarrow> 'h"
  assumes put_returns: "kv_ok m \<Longrightarrow> inj_on kv_hash (insert k (dom (kv_get m))) \<Longrightarrow> \<exists>m'. kv_put k v m = Some m'"
begin

lemma put_all_returns:
  "kv_ok m \<Longrightarrow> inj_on kv_hash (fst ` set kvs \<union> dom (kv_get m)) \<Longrightarrow> \<exists>m'. put_all kv_put kvs m = Some m'"
proof (induction kvs arbitrary: m)
  case (Cons kv kvs)
  have "inj_on kv_hash (insert (fst kv) (dom (kv_get m)))"
    by (rule inj_on_subset [OF Cons.prems(2)]) auto
  with Cons.prems(1) obtain m1 where m1: "kv_put (fst kv) (snd kv) m = Some m1"
    using put_returns by blast
  have ok: "kv_ok m1" and get: "kv_get m1 = (kv_get m)(fst kv \<mapsto> snd kv)"
    using put_ok put_get m1 Cons.prems(1) by blast+
  have "inj_on kv_hash (fst ` set kvs \<union> dom (kv_get m1))"
    using get by (intro inj_on_subset [OF Cons.prems(2)]) auto
  from Cons.IH [OF ok this] m1 show ?case by simp
qed simp

end

text \<open>A store that deletes as well.\<close>

locale kv_store = kv_writer kv_put kv_get kv_ok
  for kv_put :: "'k \<Rightarrow> 'v \<Rightarrow> 'm \<Rightarrow> 'm option"
    and kv_get :: "'m \<Rightarrow> 'k \<Rightarrow> 'v option"
    and kv_ok :: "'m \<Rightarrow> bool" +
  fixes kv_delete :: "'k \<Rightarrow> 'm \<Rightarrow> 'm"
  assumes delete_ok: "kv_ok m \<Longrightarrow> kv_ok (kv_delete k m)"
    and delete_get: "kv_ok m \<Longrightarrow> kv_get (kv_delete k m) = (kv_get m)(k := None)"

text \<open>
  \<^bold>\<open>Sorted runs.\<close> A source of entries that a range scan layers over older ones: a memtable
  or a page. An entry is a value or a tombstone (\<open>None\<close>).
\<close>

type_synonym entry = "bytes option"

fun overlay_entry :: "bytes \<times> entry \<Rightarrow> (bytes \<times> bytes) list \<Rightarrow> (bytes \<times> bytes) list" where
  "overlay_entry (k, Some v) m = bt_insert k v m"
| "overlay_entry (k, None) m = bt_remove k m"

definition overlay :: "(bytes \<times> entry) list \<Rightarrow> (bytes \<times> bytes) list \<Rightarrow> (bytes \<times> bytes) list" where
  "overlay es m = fold overlay_entry es m"

definition resolve :: "entry option \<Rightarrow> bytes option \<Rightarrow> bytes option" where
  "resolve e below = (case e of None \<Rightarrow> below | Some v \<Rightarrow> v)"

lemma resolve_simps [simp]: "resolve None b = b" "resolve (Some v) b = v"
  by (simp_all add: resolve_def)

lemma bt_ok_overlay: "bt_ok m \<Longrightarrow> bt_ok (overlay es m)"
proof (induction es arbitrary: m)
  case (Cons e es)
  obtain k v where "e = (k, v)" by fastforce
  then show ?case using Cons by (cases v) (auto simp: overlay_def)
qed (simp add: overlay_def)

lemma bt_get_overlay:
  "distinct (map fst es) \<Longrightarrow> bt_get (overlay es m) k = resolve (map_of es k) (bt_get m k)"
proof (induction es arbitrary: m)
  case (Cons e es)
  obtain k' v where e: "e = (k', v)" by fastforce
  then have "map_of es k' = None"
    using Cons.prems by (simp add: map_of_eq_None_iff)
  then show ?case
    using Cons e by (cases v) (auto simp: overlay_def)
qed (simp add: overlay_def)

locale sorted_run =
  fixes run_entry :: "'r \<Rightarrow> bytes \<Rightarrow> entry option"
    and run_range :: "'r \<Rightarrow> bytes \<Rightarrow> bytes \<Rightarrow> (bytes \<times> entry) list"
    and run_ok :: "'r \<Rightarrow> bool"
  assumes range_keys: "run_ok r \<Longrightarrow> distinct (map fst (run_range r s e))"
    and range_entry: "run_ok r \<Longrightarrow>
      map_of (run_range r s e) k = (if s \<le> k \<and> k < e then run_entry r k else None)"
begin

text \<open>The newest run that has an entry for the key decides the read.\<close>

lemma layered_get:
  "\<forall>r \<in> set rs. run_ok r \<Longrightarrow> s \<le> k \<Longrightarrow> k < e \<Longrightarrow>
   bt_get (fold (\<lambda>r. overlay (run_range r s e)) rs m) k =
     fold (\<lambda>r below. resolve (run_entry r k) below) rs (bt_get m k)"
  by (induction rs arbitrary: m) (simp_all add: bt_get_overlay range_keys range_entry)

lemma layered_outside:
  "\<forall>r \<in> set rs. run_ok r \<Longrightarrow> \<not> (s \<le> k \<and> k < e) \<Longrightarrow>
   bt_get (fold (\<lambda>r. overlay (run_range r s e)) rs m) k = bt_get m k"
  by (induction rs arbitrary: m) (auto simp: bt_get_overlay range_keys range_entry)

lemma layered_ok: "bt_ok m \<Longrightarrow> bt_ok (fold (\<lambda>r. overlay (run_range r s e)) rs m)"
  by (induction rs arbitrary: m) (simp_all add: bt_ok_overlay)

end

text \<open>
  \<^bold>\<open>Step systems.\<close> A component whose steps keep an invariant keeps it in every state its
  steps can reach.
\<close>

locale step_invariant =
  fixes sys_init :: "'s \<Rightarrow> bool"
    and sys_step :: "'s \<Rightarrow> 's \<Rightarrow> bool"
    and sys_inv :: "'s \<Rightarrow> bool"
  assumes init_inv: "sys_init s \<Longrightarrow> sys_inv s"
    and step_inv: "sys_inv s \<Longrightarrow> sys_step s t \<Longrightarrow> sys_inv t"
begin

lemma steps_inv: "sys_step\<^sup>*\<^sup>* s t \<Longrightarrow> sys_inv s \<Longrightarrow> sys_inv t"
  by (induction rule: rtranclp_induct) (auto dest: step_inv)

lemma reachable_inv: "sys_init s \<Longrightarrow> sys_step\<^sup>*\<^sup>* s t \<Longrightarrow> sys_inv t"
  by (auto intro: steps_inv init_inv)

end

end
