(* ===== verification/Fnv.thy ===== *)
theory Fnv
  imports Uldb_Prelude
begin

text \<open>
  \<^verbatim>\<open>src/storage/fnv.rs\<close>: the 64-bit FNV-1a hash, its multi-part variant and the two
  key derivations built on it. Arithmetic is on 64-bit words, so \<^verbatim>\<open>wrapping_mul\<close> is
  multiplication. The lemmas show that hashing parts is hashing their concatenation, and that
  one step is injective in the accumulator and in the byte, so that keys differing in one byte
  never collide.
\<close>

section \<open>Definitions\<close>

definition FNV_OFFSET :: u64 where
  "FNV_OFFSET = 0xcbf29ce484222325"

definition FNV_PRIME :: u64 where
  "FNV_PRIME = 0x100000001b3"

definition fnv_step :: "u8 \<Rightarrow> u64 \<Rightarrow> u64" where
  "fnv_step b h = (h XOR ucast b) * FNV_PRIME"

definition fnv1a :: "bytes \<Rightarrow> u64" where
  "fnv1a data = fold fnv_step data FNV_OFFSET"

definition fnv1a_parts :: "bytes list \<Rightarrow> u64" where
  "fnv1a_parts parts = fold (\<lambda>part h. fold fnv_step part h) parts FNV_OFFSET"

definition namespace_key :: "str \<Rightarrow> str \<Rightarrow> u64" where
  "namespace_key repo_url commit_sha = fnv1a_parts [repo_url, ascii ''::'', commit_sha]"

definition record_key :: "u64 \<Rightarrow> str \<Rightarrow> str \<Rightarrow> u64" where
  "record_key namespace node_type qualified_name =
     fnv1a_parts [to_be 8 namespace, ascii ''::'', node_type, ascii ''::'', qualified_name]"

section \<open>Lemmas\<close>

lemma fold_fnv_concat:
  "fold (\<lambda>part h. fold fnv_step part h) parts h = fold fnv_step (concat parts) h"
  by (induction parts arbitrary: h) auto

text \<open>The prime is odd, hence invertible modulo \<open>2 ^ 64\<close>.\<close>

lemma fnv_prime_inverse: "FNV_PRIME * 0xce965057aff6957b = 1"
  by (simp add: FNV_PRIME_def)

lemma mult_fnv_prime_inject: "a * FNV_PRIME = b * FNV_PRIME \<longleftrightarrow> a = b"
proof
  assume "a * FNV_PRIME = b * FNV_PRIME"
  then have "a * (FNV_PRIME * 0xce965057aff6957b) = b * (FNV_PRIME * 0xce965057aff6957b)"
    by (simp add: mult.assoc [symmetric])
  then show "a = b" by (simp only: fnv_prime_inverse mult_1_right)
qed simp

lemma xor_left_cancel: "(h XOR x = h XOR y) \<longleftrightarrow> x = (y::u64)"
proof
  assume "h XOR x = h XOR y"
  then have "h XOR (h XOR x) = h XOR (h XOR y)" by simp
  then show "x = y" by (simp add: xor.assoc [symmetric])
qed simp

lemma ucast_u8_inject: "(ucast (a::u8) :: u64) = ucast b \<longleftrightarrow> a = b"
  by transfer simp

lemma fnv_step_inject_byte: "fnv_step a h = fnv_step b h \<longleftrightarrow> a = b"
  unfolding fnv_step_def mult_fnv_prime_inject xor_left_cancel ucast_u8_inject ..

lemma fnv_step_inject_acc: "fnv_step b h = fnv_step b h' \<longleftrightarrow> h = h'"
  unfolding fnv_step_def mult_fnv_prime_inject
  by (simp add: xor.commute [of _ "ucast b"] xor_left_cancel)

lemma fold_fnv_inject: "fold fnv_step bs h = fold fnv_step bs h' \<longleftrightarrow> h = h'"
  by (induction bs arbitrary: h h') (auto simp: fnv_step_inject_acc)

lemma fnv1a_parts_eq: "fnv1a_parts parts = fnv1a (concat parts)"
  by (simp add: fnv1a_parts_def fnv1a_def fold_fnv_concat)

lemma fnv1a_byte_inject: "fnv1a (xs @ a # ys) = fnv1a (xs @ b # ys) \<longleftrightarrow> a = b"
  by (simp add: fnv1a_def fold_fnv_inject fnv_step_inject_byte)

text \<open>
  Hashing a multi-part key without allocating is hashing the concatenation of its parts;
  in particular the record key is the hash of the joined namespace, type and name.
\<close>

theorem fnv1a_parts_concat:
  "fnv1a_parts parts = fnv1a (concat parts) \<and>
   record_key ns ty name = fnv1a (to_be 8 ns @ ascii ''::'' @ ty @ ascii ''::'' @ name)"
  by (simp_all add: fnv1a_parts_eq record_key_def)

text \<open>
  Two keys of the same length that differ in exactly one byte have different hashes,
  wherever the byte is.
\<close>

theorem fnv1a_one_byte_change:
  assumes "a \<noteq> b"
  shows "fnv1a (xs @ a # ys) \<noteq> fnv1a (xs @ b # ys)"
  using assms by (simp add: fnv1a_byte_inject)

theorem fnv1a_one_byte_change_witness:
  "fnv1a (ascii ''k'' @ 0x31 # ascii ''x'') \<noteq> fnv1a (ascii ''k'' @ 0x32 # ascii ''x'')"
  by (rule fnv1a_one_byte_change) simp

end
