(* ===== verification/Namespace_Keys.thy ===== *)
theory Namespace_Keys
  imports Fnv
begin

text \<open>
  \<^verbatim>\<open>src/namespace.rs\<close>: record keys prefixed with an 8-byte big-endian namespace id. The
  lemmas show that scoping is injective and undone by unscoping, and which keys the scan range
  of a namespace covers: exactly those whose own part is not empty and does not start with the
  byte \<open>0xFF\<close>.
\<close>

section \<open>Definitions\<close>

definition NS_PREFIX_LEN :: nat where
  "NS_PREFIX_LEN = 8"

definition derive_namespace_id :: "str \<Rightarrow> str \<Rightarrow> u64" where
  "derive_namespace_id repo_url commit_sha = fnv1a (repo_url @ ascii ''::'' @ commit_sha)"

definition scope_key :: "u64 \<Rightarrow> bytes \<Rightarrow> bytes" where
  "scope_key namespace_id key = to_be 8 namespace_id @ key"

definition unscope_key :: "bytes \<Rightarrow> bytes option" where
  "unscope_key scoped_key =
     (if length scoped_key < NS_PREFIX_LEN then None else Some (drop NS_PREFIX_LEN scoped_key))"

definition namespace_id_of :: "bytes \<Rightarrow> u64 option" where
  "namespace_id_of scoped_key =
     (if length scoped_key < NS_PREFIX_LEN then None
      else Some (from_be (take NS_PREFIX_LEN scoped_key)))"

definition ns_scan_range :: "u64 \<Rightarrow> bytes \<times> bytes" where
  "ns_scan_range namespace_id =
     (let prefix = to_be 8 namespace_id in (prefix @ [0x00], prefix @ [0xFF]))"

definition key_in_namespace :: "bytes \<Rightarrow> u64 \<Rightarrow> bool" where
  "key_in_namespace scoped_key namespace_id = (namespace_id_of scoped_key = Some namespace_id)"

section \<open>Lemmas\<close>

lemma unscope_scope [simp]: "unscope_key (scope_key ns key) = Some key"
  by (simp add: unscope_key_def scope_key_def NS_PREFIX_LEN_def)

lemma namespace_id_of_scope [simp]: "namespace_id_of (scope_key ns key) = Some ns"
  by (simp add: namespace_id_of_def scope_key_def NS_PREFIX_LEN_def)

lemma scope_key_inject: "scope_key ns key = scope_key ns' key' \<longleftrightarrow> ns = ns' \<and> key = key'"
  by (metis namespace_id_of_scope option.inject unscope_scope)

text \<open>Keys that share a prefix compare as their remainders do.\<close>

lemma append_less_append [simp]: "p @ x < p @ y \<longleftrightarrow> x < (y::'a::linorder list)"
  by (induction p) auto

lemma append_le_append [simp]: "p @ x \<le> p @ y \<longleftrightarrow> x \<le> (y::'a::linorder list)"
  by (induction p) auto

text \<open>A key between two extensions of a prefix extends the prefix.\<close>

lemma between_extensions:
  fixes p :: "'a::linorder list"
  assumes "p @ x \<le> k" "k < p @ y"
  shows "\<exists>z. k = p @ z"
  using assms
proof (induction p arbitrary: k)
  case (Cons a p)
  then obtain b k' where k: "k = b # k'" by (cases k) auto
  with Cons.prems have "b = a" "p @ x \<le> k'" "k' < p @ y" by auto
  with Cons.IH [of k'] k show ?case by auto
qed simp

lemma less_single: "k < [a] \<longleftrightarrow> k = [] \<or> hd k < (a::'a::linorder)"
  by (cases k) auto

lemma zero_le_u8: "[0x00::u8] \<le> k \<longleftrightarrow> k \<noteq> []"
proof (cases k)
  case (Cons a k')
  then show ?thesis by (cases "a = 0"; cases k') (simp_all add: word_neq_0_conv)
qed simp

lemma ns_scan_range_iff:
  "fst (ns_scan_range ns) \<le> k \<and> k < snd (ns_scan_range ns) \<longleftrightarrow>
     (\<exists>key. k = scope_key ns key \<and> key \<noteq> [] \<and> hd key < 0xFF)"
proof
  assume "fst (ns_scan_range ns) \<le> k \<and> k < snd (ns_scan_range ns)"
  then have b: "to_be 8 ns @ [0x00] \<le> k" "k < to_be 8 ns @ [0xFF]"
    by (simp_all add: ns_scan_range_def Let_def)
  then obtain z where "k = to_be 8 ns @ z"
    using between_extensions by blast
  with b show "\<exists>key. k = scope_key ns key \<and> key \<noteq> [] \<and> hd key < 0xFF"
    by (auto simp: scope_key_def zero_le_u8 less_single)
next
  assume "\<exists>key. k = scope_key ns key \<and> key \<noteq> [] \<and> hd key < 0xFF"
  then show "fst (ns_scan_range ns) \<le> k \<and> k < snd (ns_scan_range ns)"
    by (auto simp: ns_scan_range_def Let_def scope_key_def zero_le_u8 less_single)
qed

text \<open>
  Scoping a key is undone by unscoping, the namespace can be read back, and two scoped
  keys are equal only for the same namespace and the same key, so namespaces never overlap.
\<close>

theorem scope_key_isolates:
  "unscope_key (scope_key ns key) = Some key \<and>
   (key_in_namespace (scope_key ns key) ns' \<longleftrightarrow> ns' = ns) \<and>
   (scope_key ns key = scope_key ns' key' \<longleftrightarrow> ns = ns' \<and> key = key')"
  by (auto simp: key_in_namespace_def scope_key_inject)

text \<open>
  The half-open scan range of a namespace covers exactly its keys whose own part is
  non-empty and starts below \<open>0xFF\<close>: nothing of another namespace, but not the empty key and
  not the keys starting with \<open>0xFF\<close>.
\<close>

theorem ns_scan_range_exact:
  "{k. fst (ns_scan_range ns) \<le> k \<and> k < snd (ns_scan_range ns)} =
     {scope_key ns key | key. key \<noteq> [] \<and> hd key < 0xFF}"
  unfolding ns_scan_range_iff by blast

end
