(* ===== verification/Bloom.thy ===== *)
theory Bloom
  imports Fnv
begin

text \<open>
  \<^verbatim>\<open>src/index/bloom.rs\<close>: a Bloom filter whose bit array is packed into 64-bit words
  and whose positions come from double hashing. The two sizes that the source computes with
  floating-point logarithms are parameters of the constructor (\<open>m_raw\<close>, and \<open>k_raw\<close> as a
  function of the clamped \<open>m\<close>), so everything below holds for every capacity and rate. The
  lemmas show that positions stay inside the array, that bits are never cleared, and hence
  that the filter has no false negatives.
\<close>

section \<open>Definitions\<close>

record bloom_filter =
  bf_bits :: "u64 list"
  bf_num_bits :: nat
  bf_num_hashes :: nat
  bf_count :: nat

definition bloom_new :: "nat \<Rightarrow> (nat \<Rightarrow> nat) \<Rightarrow> bloom_filter" where
  "bloom_new m_raw k_raw =
     (let m = max m_raw 64; k = min (max (k_raw m) 1) 20; nwords = (m + 63) div 64
      in \<lparr>bf_bits = replicate nwords 0, bf_num_bits = m, bf_num_hashes = k, bf_count = 0\<rparr>)"

definition positions :: "bloom_filter \<Rightarrow> bytes \<Rightarrow> nat list" where
  "positions bf key =
     (let h1 = fnv1a key; h2 = fnv1a_parts [key, ascii ''_bloom_salt'']
      in map (\<lambda>i. unat (h1 + of_nat i * h2) mod bf_num_bits bf) [0..<bf_num_hashes bf])"

definition set_bit_at :: "nat \<Rightarrow> u64 list \<Rightarrow> u64 list" where
  "set_bit_at pos bits = bits[pos div 64 := bits ! (pos div 64) OR push_bit (pos mod 64) 1]"

definition bit_at :: "u64 list \<Rightarrow> nat \<Rightarrow> bool" where
  "bit_at bits pos = (drop_bit (pos mod 64) (bits ! (pos div 64)) AND 1 = 1)"

definition bloom_add :: "bytes \<Rightarrow> bloom_filter \<Rightarrow> bloom_filter" where
  "bloom_add key bf =
     bf\<lparr>bf_bits := fold set_bit_at (positions bf key) (bf_bits bf), bf_count := bf_count bf + 1\<rparr>"

definition may_contain :: "bloom_filter \<Rightarrow> bytes \<Rightarrow> bool" where
  "may_contain bf key = list_all (bit_at (bf_bits bf)) (positions bf key)"

definition bloom_size_bytes :: "bloom_filter \<Rightarrow> nat" where
  "bloom_size_bytes bf = length (bf_bits bf) * 8"

section \<open>Invariant\<close>

text \<open>Every position the hash functions can produce lies in the array.\<close>

definition bloom_ok :: "bloom_filter \<Rightarrow> bool" where
  "bloom_ok bf = (0 < bf_num_bits bf \<and> bf_num_bits bf \<le> 64 * length (bf_bits bf))"

lemma bloom_ok_new [simp]: "bloom_ok (bloom_new m k)"
  by (auto simp: bloom_ok_def bloom_new_def Let_def)

lemma bits_bloom_new: "bf_bits (bloom_new m k) = replicate ((max m 64 + 63) div 64) 0"
  by (simp add: bloom_new_def Let_def)

lemma length_set_bit_at [simp]: "length (set_bit_at p bits) = length bits"
  by (simp add: set_bit_at_def)

lemma length_fold_set_bit_at [simp]: "length (fold set_bit_at ps bits) = length bits"
  by (induction ps arbitrary: bits) auto

lemma bloom_ok_add [simp]: "bloom_ok bf \<Longrightarrow> bloom_ok (bloom_add key bf)"
  by (simp add: bloom_ok_def bloom_add_def)

lemma positions_in_array: "bloom_ok bf \<Longrightarrow> p \<in> set (positions bf key) \<Longrightarrow> p div 64 < length (bf_bits bf)"
proof -
  assume ok: "bloom_ok bf" and "p \<in> set (positions bf key)"
  then have "p < bf_num_bits bf"
    by (auto simp: positions_def Let_def bloom_ok_def)
  with ok have "p < 64 * length (bf_bits bf)" by (simp add: bloom_ok_def)
  then show ?thesis by (simp add: less_mult_imp_div_less mult.commute)
qed

lemma positions_add [simp]: "positions (bloom_add key' bf) key = positions bf key"
  by (simp add: positions_def bloom_add_def)

section \<open>No false negatives\<close>

lemma bit_at_iff: "bit_at bits p \<longleftrightarrow> bit (bits ! (p div 64)) (p mod 64)"
  by (simp add: bit_at_def and_one_eq bit_iff_odd_drop_bit odd_iff_mod_2_eq_one)

lemma bit_at_set:
  assumes "p div 64 < length bits"
  shows "bit_at (set_bit_at p bits) q \<longleftrightarrow> q = p \<or> bit_at bits q"
proof (cases "q div 64 = p div 64")
  case True
  have "q mod 64 = p mod 64 \<longleftrightarrow> q = p"
    using True by (metis mod_div_mult_eq)
  moreover have "p mod 64 < 64" by simp
  ultimately show ?thesis
    using assms True
    by (auto simp: bit_at_iff set_bit_at_def bit_or_iff push_bit_of_1 bit_exp_iff possible_bit_def)
next
  case False
  then show ?thesis by (auto simp: bit_at_iff set_bit_at_def)
qed

lemma bit_at_fold:
  "\<forall>p \<in> set ps. p div 64 < length bits \<Longrightarrow>
   bit_at (fold set_bit_at ps bits) q \<longleftrightarrow> q \<in> set ps \<or> bit_at bits q"
  by (induction ps arbitrary: bits) (auto simp: bit_at_set)

lemma bit_at_add:
  "bloom_ok bf \<Longrightarrow>
   bit_at (bf_bits (bloom_add key bf)) q \<longleftrightarrow> q \<in> set (positions bf key) \<or> bit_at (bf_bits bf) q"
  using positions_in_array [of bf _ key] by (simp add: bloom_add_def bit_at_fold)

lemma may_contain_add:
  "bloom_ok bf \<Longrightarrow> key = key' \<or> may_contain bf key \<Longrightarrow> may_contain (bloom_add key' bf) key"
  by (auto simp: may_contain_def list_all_iff bit_at_add)

lemma may_contain_fold:
  "bloom_ok bf \<Longrightarrow> key \<in> set keys \<or> may_contain bf key \<Longrightarrow> may_contain (fold bloom_add keys bf) key"
  by (induction keys arbitrary: bf) (auto simp: may_contain_add)

lemma bloom_ok_fold [simp]: "bloom_ok bf \<Longrightarrow> bloom_ok (fold bloom_add keys bf)"
  by (induction keys arbitrary: bf) auto

text \<open>A position the filter reports was set by one of the added keys.\<close>

lemma bit_at_fold_add:
  "bloom_ok bf \<Longrightarrow>
   bit_at (bf_bits (fold bloom_add keys bf)) q \<longleftrightarrow>
     (\<exists>key \<in> set keys. q \<in> set (positions bf key)) \<or> bit_at (bf_bits bf) q"
  by (induction keys arbitrary: bf) (auto simp: bit_at_add)

lemma bit_at_new: "bloom_ok bf \<Longrightarrow> bf_bits bf = replicate n 0 \<Longrightarrow> q \<in> set (positions bf key) \<Longrightarrow>
    \<not> bit_at (bf_bits bf) q"
  using positions_in_array [of bf q key] by (auto simp: bit_at_iff)

lemma may_contain_exact:
  assumes "bloom_ok bf" "bf_bits bf = replicate n 0"
  shows "may_contain (fold bloom_add keys bf) key \<longleftrightarrow>
    set (positions bf key) \<subseteq> (\<Union>k \<in> set keys. set (positions bf k))"
proof -
  have pos: "positions (fold bloom_add keys bf) key = positions bf key" for keys
    by (induction keys rule: rev_induct) auto
  show ?thesis
    using assms bit_at_new [OF assms(1,2), of _ key]
    by (auto simp: may_contain_def list_all_iff pos bit_at_fold_add)
qed

text \<open>
  (C40) A filter of any size built by adding keys answers yes for every key that was added (no
  false negatives), and for any other key answers yes only when all its bit positions were set
  by added keys.
\<close>

theorem bloom_no_false_negatives:
  "list_all (may_contain (fold bloom_add keys (bloom_new m k))) keys \<and>
   (may_contain (fold bloom_add keys (bloom_new m k)) key \<longleftrightarrow>
     set (positions (bloom_new m k) key) \<subseteq> (\<Union>k' \<in> set keys. set (positions (bloom_new m k) k')))"
  using may_contain_exact [OF bloom_ok_new bits_bloom_new]
  by (auto simp: list_all_iff)

end
