(* ===== verification/Wal.thy ===== *)
theory Wal
  imports Uldb_Prelude
begin

text \<open>
  \<^verbatim>\<open>src/storage/wal.rs\<close>: the write-ahead log. The checksum of the crate
  \<^verbatim>\<open>crc32fast\<close> is a parameter \<open>crc\<close>, a function of the concatenated updates; no
  property of it is assumed. A reader is the bytes it has not yet consumed, so that
  \<^verbatim>\<open>read_exact\<close> takes a prefix or fails. The writer is the file as the operating system
  has it, the contents of the 64 KiB \<^verbatim>\<open>BufWriter\<close> and the number of bytes that the last
  \<^verbatim>\<open>sync_all\<close> made durable; writes accepted by the operating system do not fail. The
  lemmas show the record round trip, the replay of a whole log, and what replay recovers from
  a log cut at an arbitrary byte.
\<close>

section \<open>Records\<close>

record wal_record =
  wr_key :: bytes
  wr_value :: bytes

definition rec :: "bytes \<Rightarrow> bytes \<Rightarrow> wal_record" where
  "rec k v = \<lparr>wr_key = k, wr_value = v\<rparr>"

definition wal_header :: "bytes \<Rightarrow> bytes \<Rightarrow> bytes" where
  "wal_header key value =
     (let key_len = of_nat (length key) :: u16; val_len = of_nat (length value) :: u32
      in [ucast (drop_bit 8 key_len), ucast key_len,
          ucast (drop_bit 24 val_len), ucast (drop_bit 16 val_len),
          ucast (drop_bit 8 val_len), ucast val_len])"

definition wal_serialize :: "(bytes \<Rightarrow> u32) \<Rightarrow> bytes \<Rightarrow> bytes \<Rightarrow> bytes" where
  "wal_serialize crc key value =
     (let header = wal_header key value
      in to_be 4 (crc (header @ key @ value)) @ header @ key @ value)"

definition wal_deserialize :: "(bytes \<Rightarrow> u32) \<Rightarrow> bytes \<Rightarrow> wal_record option" where
  "wal_deserialize crc data =
     (if length data < 10 then None
      else let crc_stored = from_be (take 4 data) :: u32; payload = drop 4 data
           in if crc payload \<noteq> crc_stored then None
              else let key_len = unat (from_be (take 2 payload) :: u16);
                       val_len = unat (from_be (take 4 (drop 2 payload)) :: u32)
                   in if length payload < 6 + key_len + val_len then None
                      else Some (rec (take key_len (drop 6 payload))
                                     (take val_len (drop (6 + key_len) payload))))"

section \<open>Replay\<close>

text \<open>\<^verbatim>\<open>read_exact\<close> of \<open>n\<close> bytes: the bytes and the rest, or the end of the file.\<close>

definition read_exact :: "nat \<Rightarrow> bytes \<Rightarrow> (bytes \<times> bytes) option" where
  "read_exact n r = (if length r < n then None else Some (take n r, drop n r))"

text \<open>One turn of the loop of \<^verbatim>\<open>WalReader::replay\<close>.\<close>

datatype replay_turn = Clean_End | Corrupt_End | Replayed wal_record bytes

definition replay_turn :: "(bytes \<Rightarrow> u32) \<Rightarrow> bytes \<Rightarrow> replay_turn" where
  "replay_turn crc r =
     (case read_exact 4 r of None \<Rightarrow> Clean_End
      | Some (crc_buf, r1) \<Rightarrow>
        (case read_exact 6 r1 of None \<Rightarrow> Corrupt_End
         | Some (header, r2) \<Rightarrow>
           (let key_len = unat (from_be (take 2 header) :: u16);
                val_len = unat (from_be (drop 2 header) :: u32)
            in if key_len > 1000000 \<or> val_len > 100000000 then Corrupt_End
               else (case read_exact (key_len + val_len) r2 of None \<Rightarrow> Corrupt_End
                     | Some (payload, r3) \<Rightarrow>
                       if crc (header @ payload) \<noteq> from_be crc_buf then Corrupt_End
                       else Replayed (rec (take key_len payload) (drop key_len payload)) r3))))"

lemma read_exact_Some: "read_exact n r = Some (a, b) \<longleftrightarrow> r = a @ b \<and> length a = n"
  by (auto simp: read_exact_def)

lemma replay_turn_shorter: "replay_turn crc r = Replayed rc r' \<Longrightarrow> length r' < length r"
  by (auto simp: replay_turn_def read_exact_Some Let_def split: option.splits if_splits)

function replay :: "(bytes \<Rightarrow> u32) \<Rightarrow> bytes \<Rightarrow> wal_record list \<times> nat" where
  "replay crc r =
     (case replay_turn crc r of
        Clean_End \<Rightarrow> ([], 0)
      | Corrupt_End \<Rightarrow> ([], 1)
      | Replayed rc r' \<Rightarrow> (let (records, corrupted) = replay crc r' in (rc # records, corrupted)))"
  by pat_completeness auto
termination
  by (relation "measure (\<lambda>(crc, r). length r)") (auto dest: replay_turn_shorter)

declare replay.simps [simp del]

section \<open>Writer\<close>

record wal_writer =
  wal_file :: bytes
  wal_buf :: bytes
  wal_synced :: nat
  wal_bytes_written :: u64
  wal_records_written :: u64

definition WAL_BUF_CAPACITY :: nat where
  "WAL_BUF_CAPACITY = 64 * 1024"

text \<open>Opening an existing file for append: what it holds survives a crash.\<close>

definition wal_open :: "bytes \<Rightarrow> wal_writer" where
  "wal_open file = \<lparr>wal_file = file, wal_buf = [], wal_synced = length file,
     wal_bytes_written = of_nat (length file), wal_records_written = 0\<rparr>"

definition wal_flush :: "wal_writer \<Rightarrow> wal_writer" where
  "wal_flush w = w\<lparr>wal_file := wal_file w @ wal_buf w, wal_buf := []\<rparr>"

text \<open>\<^verbatim>\<open>BufWriter::write_all\<close>: spill when full, bypass the buffer for large writes.\<close>

definition buf_write_all :: "bytes \<Rightarrow> wal_writer \<Rightarrow> wal_writer" where
  "buf_write_all d w =
     (let w1 = (if length (wal_buf w) + length d > WAL_BUF_CAPACITY then wal_flush w else w)
      in if length d \<ge> WAL_BUF_CAPACITY then w1\<lparr>wal_file := wal_file w1 @ d\<rparr>
         else w1\<lparr>wal_buf := wal_buf w1 @ d\<rparr>)"

definition wal_append :: "(bytes \<Rightarrow> u32) \<Rightarrow> bytes \<Rightarrow> bytes \<Rightarrow> wal_writer \<Rightarrow> wal_writer" where
  "wal_append crc key value w =
     (let d = wal_serialize crc key value; w1 = buf_write_all d w
      in w1\<lparr>wal_bytes_written := wal_bytes_written w1 + of_nat (length d),
            wal_records_written := wal_records_written w1 + 1\<rparr>)"

definition wal_sync :: "wal_writer \<Rightarrow> wal_writer" where
  "wal_sync w = (let w1 = wal_flush w in w1\<lparr>wal_synced := length (wal_file w1)\<rparr>)"

text \<open>A client's calls, and the files a crash may leave: at least the synced prefix.\<close>

datatype wal_op = WAppend bytes bytes | WFlush | WSync

fun wal_do :: "(bytes \<Rightarrow> u32) \<Rightarrow> wal_op \<Rightarrow> wal_writer \<Rightarrow> wal_writer" where
  "wal_do crc (WAppend k v) w = wal_append crc k v w"
| "wal_do crc WFlush w = wal_flush w"
| "wal_do crc WSync w = wal_sync w"

definition wal_crash :: "wal_writer \<Rightarrow> nat \<Rightarrow> bytes" where
  "wal_crash w n = take (max n (wal_synced w)) (wal_file w)"

fun appended :: "wal_op list \<Rightarrow> wal_record list" where
  "appended [] = []"
| "appended (WAppend k v # ops) = rec k v # appended ops"
| "appended (_ # ops) = appended ops"

text \<open>The appends a sequence of calls has made durable: those before its last sync.\<close>

fun durable :: "wal_op list \<Rightarrow> nat" where
  "durable [] = 0"
| "durable (op # ops) =
     (if WSync \<in> set ops then length (appended [op]) + durable ops else 0)"

section \<open>Lemmas\<close>

definition fits :: "wal_record \<Rightarrow> bool" where
  "fits rc = (length (wr_key rc) < 2 ^ 16 \<and> length (wr_value rc) \<le> 100000000)"

lemma rec_sel [simp]: "wr_key (rec k v) = k" "wr_value (rec k v) = v"
  by (simp_all add: rec_def)

lemma wal_header_be:
  "wal_header k v = to_be 2 (of_nat (length k) :: u16) @ to_be 4 (of_nat (length v) :: u32)"
  by (simp add: wal_header_def Let_def be_simps)

lemma length_wal_header [simp]: "length (wal_header k v) = 6"
  by (simp add: wal_header_be)

lemma header_key_len:
  "length k < 2 ^ 16 \<Longrightarrow> unat (from_be (take 2 (wal_header k v)) :: u16) = length k"
  by (simp add: wal_header_be unat_of_nat)

lemma header_val_len:
  "length v < 2 ^ 32 \<Longrightarrow> unat (from_be (drop 2 (wal_header k v)) :: u32) = length v"
  by (simp add: wal_header_be unat_of_nat)

lemma take_drop_header: "take 4 (drop 2 (wal_header k v)) = drop 2 (wal_header k v)"
  by simp

lemma length_wal_serialize: "length (wal_serialize crc k v) = 10 + length k + length v"
  by (simp add: wal_serialize_def Let_def)

lemma deserialize_serialize:
  assumes "length k < 2 ^ 16" "length v < 2 ^ 32"
  shows "wal_deserialize crc (wal_serialize crc k v) = Some (rec k v)"
proof -
  have "take 2 (wal_header k v @ k @ v) = take 2 (wal_header k v)"
    "take 4 (drop 2 (wal_header k v @ k @ v)) = drop 2 (wal_header k v)"
    by simp_all
  with assms show ?thesis
    by (simp add: wal_deserialize_def wal_serialize_def Let_def header_key_len header_val_len)
qed

text \<open>Without the bounds, the lengths wrap at the width of their header fields.\<close>

lemma header_key_len_mod: "unat (from_be (take 2 (wal_header k v)) :: u16) = length k mod 2 ^ 16"
  by (simp add: wal_header_be unat_of_nat)

lemma header_val_len_mod: "unat (from_be (drop 2 (wal_header k v)) :: u32) = length v mod 2 ^ 32"
  by (simp add: wal_header_be unat_of_nat)

lemma deserialize_serialize_mod:
  "wal_deserialize crc (wal_serialize crc k v) =
     Some (rec (take (length k mod 2 ^ 16) k)
               (take (length v mod 2 ^ 32) (drop (length k mod 2 ^ 16) (k @ v))))"
proof -
  have "take 2 (wal_header k v @ k @ v) = take 2 (wal_header k v)"
    "take 4 (drop 2 (wal_header k v @ k @ v)) = drop 2 (wal_header k v)"
    by simp_all
  moreover have "length k mod 2 ^ 16 \<le> length k" "length v mod 2 ^ 32 \<le> length v"
    by simp_all
  ultimately show ?thesis
    unfolding wal_deserialize_def wal_serialize_def Let_def
    by (simp add: header_key_len_mod header_val_len_mod)
qed

text \<open>One turn over a complete record consumes exactly that record.\<close>

lemma replay_turn_record:
  assumes "fits rc"
  shows "replay_turn crc (wal_serialize crc (wr_key rc) (wr_value rc) @ rest) = Replayed rc rest"
proof -
  let ?k = "wr_key rc" and ?v = "wr_value rc"
  have kl: "unat (from_be (take 2 (wal_header ?k ?v)) :: u16) = length ?k"
    and vl: "unat (from_be (drop 2 (wal_header ?k ?v)) :: u32) = length ?v"
    using assms header_key_len [of ?k ?v] header_val_len [of ?v ?k] by (simp_all add: fits_def)
  have len: "length ?k \<le> 1000000" "length ?v \<le> 100000000"
    using assms by (simp_all add: fits_def)
  have "rec ?k ?v = rc" by (simp add: rec_def)
  then show ?thesis
    using kl vl len
    by (simp add: replay_turn_def wal_serialize_def read_exact_def Let_def)
qed

text \<open>A proper prefix of a record ends the loop, whatever the checksum function.\<close>

lemma replay_turn_torn:
  assumes "fits rc" "n < length (wal_serialize crc (wr_key rc) (wr_value rc))"
  shows "replay_turn crc (take n (wal_serialize crc (wr_key rc) (wr_value rc))) =
    (if n < 4 then Clean_End else Corrupt_End)"
proof -
  let ?k = "wr_key rc" and ?v = "wr_value rc"
  have kl: "unat (from_be (take 2 (wal_header ?k ?v)) :: u16) = length ?k"
    and vl: "unat (from_be (drop 2 (wal_header ?k ?v)) :: u32) = length ?v"
    using assms header_key_len [of ?k ?v] header_val_len [of ?v ?k] by (simp_all add: fits_def)
  have n: "n < 10 + length ?k + length ?v"
    using assms(2) by (simp add: length_wal_serialize)
  show ?thesis
  proof (cases "n < 10")
    case True
    then show ?thesis
      by (auto simp: replay_turn_def wal_serialize_def read_exact_def Let_def)
  next
    case False
    then have "take (n - 4) (wal_header ?k ?v @ ?k @ ?v) =
        wal_header ?k ?v @ take (n - 10) (?k @ ?v)"
      by simp
    then show ?thesis
      using False kl vl n
      by (auto simp: replay_turn_def wal_serialize_def read_exact_def Let_def)
  qed
qed

definition wal_log :: "(bytes \<Rightarrow> u32) \<Rightarrow> wal_record list \<Rightarrow> bytes" where
  "wal_log crc rs = concat (map (\<lambda>rc. wal_serialize crc (wr_key rc) (wr_value rc)) rs)"

lemma wal_log_simps [simp]:
  "wal_log crc [] = []"
  "wal_log crc (rc # rs) = wal_serialize crc (wr_key rc) (wr_value rc) @ wal_log crc rs"
  "wal_log crc (rs @ rs') = wal_log crc rs @ wal_log crc rs'"
  by (simp_all add: wal_log_def)

lemma replay_log_append:
  assumes "\<forall>rc \<in> set rs. fits rc"
  shows "replay crc (wal_log crc rs @ rest) =
    (rs @ fst (replay crc rest), snd (replay crc rest))"
  using assms
proof (induction rs)
  case (Cons rc rs)
  then show ?case
    by (subst replay.simps) (simp add: replay_turn_record split: prod.split)
qed simp

lemma replay_Nil [simp]: "replay crc [] = ([], 0)"
  by (simp add: replay.simps [of crc "[]"] replay_turn_def read_exact_def)

text \<open>Where a cut falls: between two records, or inside one.\<close>

lemma take_wal_log_cases:
  obtains j where "take n (wal_log crc rs) = wal_log crc (take j rs)" "j \<le> length rs"
      "length (wal_log crc (take j rs)) \<le> n"
  | j m where "j < length rs" "take n (wal_log crc rs) = wal_log crc (take j rs) @
        take m (wal_serialize crc (wr_key (rs ! j)) (wr_value (rs ! j)))"
      "0 < m" "m < length (wal_serialize crc (wr_key (rs ! j)) (wr_value (rs ! j)))"
      "n = length (wal_log crc (take j rs)) + m"
proof (induction rs arbitrary: n thesis)
  case Nil
  then show ?case by (auto intro: Nil(1) [of 0])
next
  case (Cons rc rs)
  let ?s = "wal_serialize crc (wr_key rc) (wr_value rc)"
  show ?case
  proof (cases "n < length ?s")
    case True
    then show ?thesis
      using Cons.prems(1) [of 0] Cons.prems(2) [of 0 n] by (cases "n = 0") auto
  next
    case False
    show ?thesis
    proof (rule Cons.IH [of "n - length ?s"])
      fix j assume "take (n - length ?s) (wal_log crc rs) = wal_log crc (take j rs)" "j \<le> length rs"
        "length (wal_log crc (take j rs)) \<le> n - length ?s"
      with False show thesis using Cons.prems(1) [of "Suc j"] by auto
    next
      fix j m assume "j < length rs" "take (n - length ?s) (wal_log crc rs) = wal_log crc (take j rs) @
          take m (wal_serialize crc (wr_key (rs ! j)) (wr_value (rs ! j)))"
        "0 < m" "m < length (wal_serialize crc (wr_key (rs ! j)) (wr_value (rs ! j)))"
        "n - length ?s = length (wal_log crc (take j rs)) + m"
      with False show thesis using Cons.prems(2) [of "Suc j" m] by auto
    qed
  qed
qed

lemma replay_torn:
  assumes "\<forall>rc \<in> set rs. fits rc" "j < length rs"
    "0 < m" "m < length (wal_serialize crc (wr_key (rs ! j)) (wr_value (rs ! j)))"
  shows "replay crc (wal_log crc (take j rs) @
      take m (wal_serialize crc (wr_key (rs ! j)) (wr_value (rs ! j)))) =
    (take j rs, if m < 4 then 0 else 1)"
proof -
  have "fits (rs ! j)" "\<forall>rc \<in> set (take j rs). fits rc"
    using assms(1,2) by (auto dest: in_set_takeD)
  with assms(4) show ?thesis
    by (simp add: replay_log_append replay.simps [of crc "take m _"] replay_turn_torn)
qed

lemma length_wal_log_mono: "i \<le> j \<Longrightarrow> length (wal_log crc (take i rs)) \<le> length (wal_log crc (take j rs))"
  by (metis le_add_diff_inverse length_append nat_le_iff_add take_add wal_log_simps(3))

text \<open>A cut log replays to its complete records; at most one corrupted record is counted.\<close>

lemma replay_cut:
  assumes fits: "\<forall>rc \<in> set rs. fits rc"
  shows "\<exists>j c. replay crc (take n (wal_log crc rs)) = (take j rs, c) \<and> j \<le> length rs \<and> c \<le> 1 \<and>
    (\<forall>i \<le> length rs. i \<le> j \<longleftrightarrow> length (wal_log crc (take i rs)) \<le> n)"
proof (rule take_wal_log_cases [of n crc rs])
  fix j assume j: "take n (wal_log crc rs) = wal_log crc (take j rs)" "j \<le> length rs"
    "length (wal_log crc (take j rs)) \<le> n"
  have "i \<le> j" if "length (wal_log crc (take i rs)) \<le> n" "i \<le> length rs" for i
  proof (rule ccontr)
    assume "\<not> i \<le> j"
    then have "Suc j \<le> i" by simp
    have "wal_log crc (take i rs) = take (length (wal_log crc (take i rs))) (take n (wal_log crc rs))"
      using that by (metis append_eq_conv_conj append_take_drop_id min.absorb1 take_take wal_log_simps(3))
    also have "\<dots> = take (length (wal_log crc (take i rs))) (wal_log crc (take j rs))"
      by (simp add: j(1))
    finally have "length (wal_log crc (take i rs)) \<le> length (wal_log crc (take j rs))"
      by (metis length_take min.cobounded1)
    moreover have "length (wal_log crc (take j rs)) < length (wal_log crc (take (Suc j) rs))"
      using \<open>Suc j \<le> i\<close> that(2) by (simp add: take_Suc_conv_app_nth length_wal_serialize)
    ultimately show False
      using length_wal_log_mono [OF \<open>Suc j \<le> i\<close>, of crc rs] by simp
  qed
  moreover have "length (wal_log crc (take i rs)) \<le> n" if "i \<le> j" for i
    using length_wal_log_mono [OF that, of crc rs] j(3) by simp
  moreover have "\<forall>rc \<in> set (take j rs). fits rc"
    using fits by (auto dest: in_set_takeD)
  then have "replay crc (wal_log crc (take j rs)) = (take j rs, 0)"
    using replay_log_append [of "take j rs" crc "[]"] by simp
  ultimately show ?thesis
    using j(1,2) by (intro exI [of _ j] exI [of _ 0]) auto
next
  fix j m assume j: "j < length rs" "take n (wal_log crc rs) = wal_log crc (take j rs) @
      take m (wal_serialize crc (wr_key (rs ! j)) (wr_value (rs ! j)))"
    "0 < m" "m < length (wal_serialize crc (wr_key (rs ! j)) (wr_value (rs ! j)))"
    "n = length (wal_log crc (take j rs)) + m"
  have "length (wal_log crc (take i rs)) \<le> n" if "i \<le> j" for i
    using length_wal_log_mono [OF that, of crc rs] j(5) by simp
  moreover have "n < length (wal_log crc (take (Suc j) rs))"
    using j by (simp add: take_Suc_conv_app_nth)
  then have "n < length (wal_log crc (take i rs))" if "Suc j \<le> i" for i
    using length_wal_log_mono [OF that, of crc rs] by simp
  ultimately have "i \<le> j \<longleftrightarrow> length (wal_log crc (take i rs)) \<le> n" for i
    by (metis not_less not_less_eq_eq)
  then show ?thesis
    using replay_torn [OF fits j(1,3,4)] j(1,2)
    by (intro exI [of _ j] exI [of _ "if m < 4 then 0 else 1"]) auto
qed

text \<open>Two ways in which later records are lost: an oversized value and a torn record.\<close>

lemma replay_oversized:
  assumes "length k < 2 ^ 16" "100000000 < length v" "length v < 2 ^ 32"
  shows "replay crc (wal_serialize crc k v @ rest) = ([], 1)"
  using assms header_key_len [of k v] header_val_len [of v k]
  by (simp add: replay.simps [of crc "_ @ _"] replay_turn_def wal_serialize_def read_exact_def Let_def)

lemma replay_misframed:
  assumes "fits rc" "10 \<le> m" "m < length (wal_serialize crc (wr_key rc) (wr_value rc))"
    "crc (wal_header (wr_key rc) (wr_value rc) @
       take (length (wr_key rc) + length (wr_value rc))
         (take (m - 10) (wr_key rc @ wr_value rc) @ rest)) \<noteq>
     crc (wal_header (wr_key rc) (wr_value rc) @ wr_key rc @ wr_value rc)"
  shows "replay crc (take m (wal_serialize crc (wr_key rc) (wr_value rc)) @ rest) = ([], 1)"
proof -
  let ?k = "wr_key rc" and ?v = "wr_value rc"
  have kl: "unat (from_be (take 2 (wal_header ?k ?v)) :: u16) = length ?k"
    and vl: "unat (from_be (drop 2 (wal_header ?k ?v)) :: u32) = length ?v"
    using assms(1) header_key_len [of ?k ?v] header_val_len [of ?v ?k] by (simp_all add: fits_def)
  have cut: "take m (wal_serialize crc ?k ?v) =
      to_be 4 (crc (wal_header ?k ?v @ ?k @ ?v)) @ wal_header ?k ?v @ take (m - 10) (?k @ ?v)"
    using assms(2) by (simp add: wal_serialize_def Let_def)
  show ?thesis
    unfolding cut using kl vl assms(4)
    by (simp add: replay.simps [of crc "_ @ _"] replay_turn_def read_exact_def Let_def)
qed

section \<open>The writer\<close>

lemma appended_append [simp]: "appended (ops @ ops') = appended ops @ appended ops'"
  by (induction ops rule: appended.induct) auto

lemma durable_snoc:
  "durable (ops @ [op]) = (if op = WSync then length (appended ops) else durable ops)"
  by (induction ops) (auto simp: length_append [symmetric] appended_append [symmetric]
      simp del: length_append appended_append)

lemma durable_le: "durable ops \<le> length (appended ops)"
proof (induction ops)
  case (Cons op ops)
  have "appended (op # ops) = appended [op] @ appended ops"
    using appended_append [of "[op]" ops] by simp
  with Cons show ?case by simp
qed simp

lemma buf_write_all_content:
  "wal_file (buf_write_all d w) @ wal_buf (buf_write_all d w) = wal_file w @ wal_buf w @ d"
  by (cases "wal_buf w") (auto simp: buf_write_all_def wal_flush_def Let_def WAL_BUF_CAPACITY_def)

lemma buf_write_all_synced [simp]: "wal_synced (buf_write_all d w) = wal_synced w"
  by (simp add: buf_write_all_def wal_flush_def Let_def)

lemma buf_write_all_file: "length (wal_file w) \<le> length (wal_file (buf_write_all d w))"
  by (simp add: buf_write_all_def wal_flush_def Let_def)

lemma wal_do_content:
  "wal_file (wal_do crc op w) @ wal_buf (wal_do crc op w) =
     wal_file w @ wal_buf w @ wal_log crc (appended [op])"
  by (cases op) (auto simp: wal_append_def wal_flush_def wal_sync_def Let_def buf_write_all_content)

lemma wal_run_content:
  "wal_file (fold (wal_do crc) ops w) @ wal_buf (fold (wal_do crc) ops w) =
     wal_file w @ wal_buf w @ wal_log crc (appended ops)"
proof (induction ops rule: rev_induct)
  case (snoc op ops)
  have "wal_file (fold (wal_do crc) (ops @ [op]) w) @ wal_buf (fold (wal_do crc) (ops @ [op]) w) =
      (wal_file (fold (wal_do crc) ops w) @ wal_buf (fold (wal_do crc) ops w)) @
      wal_log crc (appended [op])"
    by (simp add: wal_do_content)
  then show ?case unfolding snoc by simp
qed simp

text \<open>The synced prefix is part of the file and covers the durable appends.\<close>

lemma wal_run_synced:
  "wal_synced (fold (wal_do crc) ops (wal_open file)) \<le>
     length (wal_file (fold (wal_do crc) ops (wal_open file))) \<and>
   length (file @ wal_log crc (take (durable ops) (appended ops))) \<le>
     wal_synced (fold (wal_do crc) ops (wal_open file))"
proof (induction ops rule: rev_induct)
  case Nil
  then show ?case by (simp add: wal_open_def)
next
  case (snoc op ops)
  let ?w = "fold (wal_do crc) ops (wal_open file)"
  have "wal_file ?w @ wal_buf ?w = file @ wal_log crc (appended ops)"
    using wal_run_content [of crc ops "wal_open file"] by (simp add: wal_open_def)
  then have len: "length (wal_file ?w) + length (wal_buf ?w) =
      length file + length (wal_log crc (appended ops))"
    by (metis length_append)
  show ?case
  proof (cases op)
    case (WAppend k v)
    then show ?thesis
      using snoc durable_le [of ops] buf_write_all_file [of ?w "wal_serialize crc k v"]
      by (auto simp: durable_snoc wal_append_def Let_def)
  next
    case WFlush
    then show ?thesis using snoc by (auto simp: durable_snoc wal_flush_def)
  next
    case WSync
    then show ?thesis using len by (simp add: durable_snoc wal_sync_def wal_flush_def Let_def)
  qed
qed

lemma appended_map [simp]: "appended (map (\<lambda>r. WAppend (wr_key r) (wr_value r)) rs) = rs"
  by (induction rs) (simp_all add: rec_def)

lemma wal_appends_file:
  "wal_file (wal_flush (fold (wal_do crc) (map (\<lambda>r. WAppend (wr_key r) (wr_value r)) rs)
     (wal_open file))) = file @ wal_log crc rs"
  using wal_run_content [of crc "map (\<lambda>r. WAppend (wr_key r) (wr_value r)) rs" "wal_open file"]
  by (simp add: wal_flush_def wal_open_def)

lemma crash_replay:
  assumes "\<forall>rc \<in> set (pre @ appended ops). fits rc"
  shows "\<exists>j. durable ops \<le> j \<and> j \<le> length (appended ops) \<and>
    fst (replay crc (wal_crash (fold (wal_do crc) ops (wal_open (wal_log crc pre))) n)) =
      pre @ take j (appended ops)"
proof -
  let ?w = "fold (wal_do crc) ops (wal_open (wal_log crc pre))"
  let ?rs = "pre @ appended ops"
  let ?n = "min (max n (wal_synced ?w)) (length (wal_file ?w))"
  have "wal_file ?w @ wal_buf ?w = wal_log crc ?rs"
    using wal_run_content [of crc ops "wal_open (wal_log crc pre)"] by (simp add: wal_open_def)
  then have cut: "wal_crash ?w n = take ?n (wal_log crc ?rs)"
    by (metis append_eq_conv_conj min.commute take_take wal_crash_def)
  obtain j c where j: "replay crc (take ?n (wal_log crc ?rs)) = (take j ?rs, c)" "j \<le> length ?rs"
    "\<forall>i \<le> length ?rs. i \<le> j \<longleftrightarrow> length (wal_log crc (take i ?rs)) \<le> ?n"
    using replay_cut [OF assms, of crc ?n] by blast
  have d: "durable ops \<le> length (appended ops)"
    by (rule durable_le)
  have "length (wal_log crc (take (length pre + durable ops) ?rs)) \<le> wal_synced ?w"
    "wal_synced ?w \<le> length (wal_file ?w)"
    using wal_run_synced [of crc ops "wal_log crc pre"] by auto
  then have "length (wal_log crc (take (length pre + durable ops) ?rs)) \<le> ?n" by simp
  then have "length pre + durable ops \<le> j"
    using j(3) d by simp
  then show ?thesis
    using cut j(1,2) by (intro exI [of _ "j - length pre"]) auto
qed

section \<open>Properties\<close>

text \<open>
  Decoding an encoded record gives back the key and value cut at the lengths the header
  can hold: the key length modulo \<open>2 ^ 16\<close> and the value length modulo \<open>2 ^ 32\<close>, whatever the
  checksum function. Shorter keys and values come back unchanged.
\<close>

theorem wal_roundtrip_exact:
  "wal_deserialize crc (wal_serialize crc k v) =
     Some (rec (take (length k mod 2 ^ 16) k)
               (take (length v mod 2 ^ 32) (drop (length k mod 2 ^ 16) (k @ v)))) \<and>
   (length k < 2 ^ 16 \<and> length v < 2 ^ 32 \<longrightarrow>
     wal_deserialize crc (wal_serialize crc k v) = Some (rec k v))"
  using deserialize_serialize_mod [of crc k v] deserialize_serialize [of k v crc] by simp

theorem wal_roundtrip_exact_witness:
  "wal_deserialize (\<lambda>bs. of_nat (length bs)) (wal_serialize (\<lambda>bs. of_nat (length bs)) [1, 2] [3]) =
     Some (rec [1, 2] [3])"
  using wal_roundtrip_exact [of "\<lambda>bs. of_nat (length bs)" "[1, 2]" "[3]"] by simp

text \<open>
  Crash recovery. A log of records, cut at any byte, replays to exactly the records that
  are complete in the prefix, in order, with at most one corrupted record counted, whatever
  the checksum function.
\<close>

theorem wal_replay_torn_tail:
  assumes "\<forall>rc \<in> set rs. fits rc"
  shows "\<exists>j c. replay crc (take n (wal_log crc rs)) = (take j rs, c) \<and> j \<le> length rs \<and> c \<le> 1 \<and>
    (\<forall>i \<le> length rs. i \<le> j \<longleftrightarrow> length (wal_log crc (take i rs)) \<le> n)"
  using assms by (rule replay_cut)

theorem wal_replay_torn_tail_witness:
  "\<exists>c. replay (\<lambda>bs. 7) (take 15 (wal_log (\<lambda>bs. 7) [rec [1] [2], rec [3] []])) = ([rec [1] [2]], c)"
proof -
  let ?rs = "[rec [1] [2], rec [3] []]"
  have "\<forall>rc \<in> set ?rs. fits rc" by (simp add: fits_def)
  then obtain j c where r: "replay (\<lambda>bs. 7) (take 15 (wal_log (\<lambda>bs. 7) ?rs)) = (take j ?rs, c)"
    and j: "\<forall>i \<le> length ?rs. i \<le> j \<longleftrightarrow> length (wal_log (\<lambda>bs. 7) (take i ?rs)) \<le> 15"
    using wal_replay_torn_tail [of ?rs "\<lambda>bs. 7" 15] by blast
  have "j = 1"
    using j [rule_format, of 1] j [rule_format, of 2] by (simp add: length_wal_serialize)
  with r show ?thesis by auto
qed



text \<open>
  A value longer than 100,000,000 bytes is written to the log like any other, but stops
  the replay: it and every record after it are lost, and one corrupted record is reported.
\<close>

theorem wal_oversized_value_stops_replay:
  assumes "\<forall>rc \<in> set pre. fits rc" "length k < 2 ^ 16" "100000000 < length v" "length v < 2 ^ 32"
  shows "replay crc (wal_log crc (pre @ rec k v # later)) = (pre, 1)"
  using assms by (simp add: replay_log_append replay_oversized)

theorem wal_oversized_value_stops_replay_witness:
  "replay (\<lambda>bs. 7) (wal_log (\<lambda>bs. 7)
     ([rec [1] [2]] @ rec [3] (replicate 100000001 0) # [rec [4] [5]])) = ([rec [1] [2]], 1)"
  by (rule wal_oversized_value_stops_replay) (simp_all add: fits_def)

text \<open>
  A record torn by a crash stays in the file, and the log is reopened for append behind
  it. The next replay returns the records before the torn one and nothing that was appended
  after the crash, unless the checksum of the mis-framed bytes happens to agree.
\<close>

theorem wal_torn_record_hides_later:
  assumes "\<forall>rc \<in> set pre. fits rc" "fits rc" "10 \<le> m"
    "m < length (wal_serialize crc (wr_key rc) (wr_value rc))"
    "crc (wal_header (wr_key rc) (wr_value rc) @
       take (length (wr_key rc) + length (wr_value rc))
         (take (m - 10) (wr_key rc @ wr_value rc) @ wal_log crc later)) \<noteq>
     crc (wal_header (wr_key rc) (wr_value rc) @ wr_key rc @ wr_value rc)"
  shows "replay crc (wal_file (wal_flush (fold (wal_do crc)
      (map (\<lambda>r. WAppend (wr_key r) (wr_value r)) later)
      (wal_open (wal_log crc pre @ take m (wal_serialize crc (wr_key rc) (wr_value rc))))))) =
    (pre, 1)"
  using assms by (simp add: wal_appends_file replay_log_append replay_misframed)

theorem wal_torn_record_hides_later_witness:
  "replay (\<lambda>bs. of_nat (unat (last bs))) (wal_file (wal_flush (fold (wal_do (\<lambda>bs. of_nat (unat (last bs))))
      (map (\<lambda>r. WAppend (wr_key r) (wr_value r)) [rec [8] [9]])
      (wal_open (wal_log (\<lambda>bs. of_nat (unat (last bs))) [rec [1] [2]] @
         take 11 (wal_serialize (\<lambda>bs. of_nat (unat (last bs))) (wr_key (rec [3] [4])) (wr_value (rec [3] [4])))))))) =
    ([rec [1] [2]], 1)"
  by (rule wal_torn_record_hides_later)
    (simp_all add: fits_def length_wal_serialize wal_serialize_def wal_header_def Let_def to_be_4)

end
