(* ===== verification/Memtable.thy ===== *)
theory Memtable
  imports Uldb_Prelude
begin

text \<open>
  \<^verbatim>\<open>src/storage/memtable.rs\<close>: the sorted in-memory buffer. An entry is a value or a
  tombstone with its sequence number. The lemmas show that the byte count kept incrementally
  is the size of the entries, that lookups see the last write, and that a memtable is a
  key-value store and a sorted run in the sense of the prelude.
\<close>

section \<open>Definitions\<close>

record mem_entry =
  me_value :: "bytes option"
  me_seq :: u64

record memtable =
  mt_entries :: "(bytes \<times> mem_entry) list"
  mt_size_bytes :: nat
  mt_next_seq :: u64
  mt_flush_threshold :: nat

definition memtable_new :: "nat \<Rightarrow> memtable" where
  "memtable_new flush_threshold =
     \<lparr>mt_entries = [], mt_size_bytes = 0, mt_next_seq = 0, mt_flush_threshold = flush_threshold\<rparr>"

definition memtable_should_flush :: "memtable \<Rightarrow> bool" where
  "memtable_should_flush m = (mt_size_bytes m \<ge> mt_flush_threshold m)"

definition old_size :: "bytes \<Rightarrow> mem_entry \<Rightarrow> nat" where
  "old_size key old = length key + (case me_value old of None \<Rightarrow> 0 | Some v \<Rightarrow> length v) + 8"

definition memtable_put :: "bytes \<Rightarrow> bytes \<Rightarrow> memtable \<Rightarrow> bool \<times> memtable" where
  "memtable_put key value m =
     (let entry_size = length key + length value + 8;
          m1 = (case bt_get (mt_entries m) key of
                  Some old \<Rightarrow> m\<lparr>mt_size_bytes := mt_size_bytes m - old_size key old\<rparr>
                | None \<Rightarrow> m);
          m2 = m1\<lparr>mt_next_seq := mt_next_seq m1 + 1\<rparr>;
          m3 = m2\<lparr>mt_entries := bt_insert key \<lparr>me_value = Some value, me_seq = mt_next_seq m2\<rparr>
                    (mt_entries m2)\<rparr>;
          m4 = m3\<lparr>mt_size_bytes := mt_size_bytes m3 + entry_size\<rparr>
      in (memtable_should_flush m4, m4))"

definition memtable_delete :: "bytes \<Rightarrow> memtable \<Rightarrow> bool \<times> memtable" where
  "memtable_delete key m =
     (let entry_size = length key + 8;
          m1 = (case bt_get (mt_entries m) key of
                  Some old \<Rightarrow> m\<lparr>mt_size_bytes := mt_size_bytes m - old_size key old\<rparr>
                | None \<Rightarrow> m);
          m2 = m1\<lparr>mt_next_seq := mt_next_seq m1 + 1\<rparr>;
          m3 = m2\<lparr>mt_entries := bt_insert key \<lparr>me_value = None, me_seq = mt_next_seq m2\<rparr>
                    (mt_entries m2)\<rparr>;
          m4 = m3\<lparr>mt_size_bytes := mt_size_bytes m3 + entry_size\<rparr>
      in (memtable_should_flush m4, m4))"

definition memtable_get :: "memtable \<Rightarrow> bytes \<Rightarrow> bytes option" where
  "memtable_get m key = Option.bind (bt_get (mt_entries m) key) me_value"

definition memtable_get_entry :: "memtable \<Rightarrow> bytes \<Rightarrow> mem_entry option" where
  "memtable_get_entry m key = bt_get (mt_entries m) key"

definition memtable_contains :: "memtable \<Rightarrow> bytes \<Rightarrow> bool" where
  "memtable_contains m key = (bt_get (mt_entries m) key \<noteq> None)"

definition memtable_is_tombstone :: "memtable \<Rightarrow> bytes \<Rightarrow> bool" where
  "memtable_is_tombstone m key =
     (case bt_get (mt_entries m) key of None \<Rightarrow> False | Some e \<Rightarrow> me_value e = None)"

definition memtable_iter :: "memtable \<Rightarrow> (bytes \<times> mem_entry) list" where
  "memtable_iter m = mt_entries m"

text \<open>\<^verbatim>\<open>BTreeMap::range\<close> panics (\<open>None\<close>) when the bounds are reversed.\<close>

definition memtable_range ::
  "memtable \<Rightarrow> bytes \<Rightarrow> bytes \<Rightarrow> (bytes \<times> mem_entry) list option" where
  "memtable_range m start endk =
     (if start > endk then None else Some (bt_range (mt_entries m) start endk))"

definition memtable_drain :: "memtable \<Rightarrow> (bytes \<times> mem_entry) list \<times> memtable" where
  "memtable_drain m = (mt_entries m, m\<lparr>mt_size_bytes := 0, mt_next_seq := 0, mt_entries := []\<rparr>)"

definition memtable_len :: "memtable \<Rightarrow> nat" where
  "memtable_len m = length (mt_entries m)"

definition memtable_is_empty :: "memtable \<Rightarrow> bool" where
  "memtable_is_empty m = (mt_entries m = [])"

section \<open>Invariant\<close>

definition entries_size :: "(bytes \<times> mem_entry) list \<Rightarrow> nat" where
  "entries_size es = sum_list (map (\<lambda>(k, e). old_size k e) es)"

definition memtable_ok :: "memtable \<Rightarrow> bool" where
  "memtable_ok m = (bt_ok (mt_entries m) \<and> mt_size_bytes m = entries_size (mt_entries m))"

lemma entries_size_simps [simp]:
  "entries_size [] = 0"
  "entries_size ((k, e) # es) = old_size k e + entries_size es"
  by (simp_all add: entries_size_def)

lemma entries_size_insert:
  "bt_ok es \<Longrightarrow> entries_size (bt_insert k e es) =
     entries_size es - (case bt_get es k of None \<Rightarrow> 0 | Some old \<Rightarrow> old_size k old) + old_size k e"
proof (induction k e es rule: bt_insert.induct)
  case (2 k e k' e' es)
  have "old_size k old \<le> entries_size es" if "bt_get es k = Some old" for old
    using that by (induction es) (auto simp: bt_get_def entries_size_def split: if_splits)
  moreover have "bt_get es k = None" if "k < k'"
    using that 2(2) by (fastforce simp: bt_get_None_iff bt_ok_Cons)
  ultimately show ?case
    using 2 by (auto simp: bt_get_def bt_ok_Cons split: option.splits)
qed simp

text \<open>Both writes are the insertion of one entry.\<close>

definition mem_write :: "bytes \<Rightarrow> bytes option \<Rightarrow> memtable \<Rightarrow> memtable" where
  "mem_write key v m = (case v of Some x \<Rightarrow> snd (memtable_put key x m) | None \<Rightarrow> snd (memtable_delete key m))"

lemma mem_write_entries:
  "mt_entries (mem_write key v m) =
     bt_insert key \<lparr>me_value = v, me_seq = mt_next_seq m + 1\<rparr> (mt_entries m)"
  by (simp add: mem_write_def memtable_put_def memtable_delete_def Let_def split: option.split)

lemma mem_write_size:
  "mt_size_bytes (mem_write key v m) = mt_size_bytes m -
     (case bt_get (mt_entries m) key of None \<Rightarrow> 0 | Some old \<Rightarrow> old_size key old) +
     old_size key \<lparr>me_value = v, me_seq = mt_next_seq m + 1\<rparr>"
  by (simp add: mem_write_def memtable_put_def memtable_delete_def Let_def old_size_def
      split: option.split)

lemma mem_write_threshold [simp]: "mt_flush_threshold (mem_write key v m) = mt_flush_threshold m"
  by (simp add: mem_write_def memtable_put_def memtable_delete_def Let_def split: option.split)

lemma memtable_ok_write: "memtable_ok m \<Longrightarrow> memtable_ok (mem_write key v m)"
  by (simp add: memtable_ok_def mem_write_entries mem_write_size entries_size_insert)

lemma memtable_put_write: "memtable_put k v m = (memtable_should_flush (mem_write k (Some v) m), mem_write k (Some v) m)"
  by (simp add: mem_write_def memtable_put_def Let_def)

lemma memtable_delete_write: "memtable_delete k m = (memtable_should_flush (mem_write k None m), mem_write k None m)"
  by (simp add: mem_write_def memtable_delete_def Let_def)

lemma memtable_ok_new [simp]: "memtable_ok (memtable_new t)"
  by (simp add: memtable_ok_def memtable_new_def)

lemma memtable_ok_drain [simp]: "memtable_ok (snd (memtable_drain m))"
  by (simp add: memtable_ok_def memtable_drain_def)

section \<open>Lookups\<close>

definition mem_entry_of :: "memtable \<Rightarrow> bytes \<Rightarrow> entry option" where
  "mem_entry_of m key = map_option me_value (memtable_get_entry m key)"

definition mem_run :: "memtable \<Rightarrow> bytes \<Rightarrow> bytes \<Rightarrow> (bytes \<times> entry) list" where
  "mem_run m s e = map (\<lambda>(k, en). (k, me_value en)) (bt_range (mt_entries m) s e)"

lemma mem_entry_of_write: "mem_entry_of (mem_write k v m) k' = (if k' = k then Some v else mem_entry_of m k')"
  by (simp add: mem_entry_of_def memtable_get_entry_def mem_write_entries)

lemma mem_entry_of_new [simp]: "mem_entry_of (memtable_new t) k = None"
  by (simp add: mem_entry_of_def memtable_get_entry_def memtable_new_def)

lemma mem_entry_of_drain [simp]: "mem_entry_of (snd (memtable_drain m)) k = None"
  by (simp add: mem_entry_of_def memtable_get_entry_def memtable_drain_def)

lemma memtable_get_entry_of: "memtable_get m k = resolve (mem_entry_of m k) None"
  by (simp add: memtable_get_def mem_entry_of_def memtable_get_entry_def split: option.split)
    (cases "bt_get (mt_entries m) k"; simp)

lemma memtable_get_write: "memtable_get (mem_write k v m) = (memtable_get m)(k := v)"
  by (rule ext) (simp add: memtable_get_entry_of mem_entry_of_write)

interpretation mem_run: sorted_run mem_entry_of mem_run memtable_ok
proof
  fix r :: memtable and s e k
  assume ok: "memtable_ok r"
  then have "bt_ok (bt_range (mt_entries r) s e)"
    by (simp add: memtable_ok_def)
  then show "distinct (map fst (mem_run r s e))"
    by (auto dest!: bt_ok_distinct simp: mem_run_def comp_def case_prod_beta)
  have "map_of (mem_run r s e) k = map_option me_value (bt_get (bt_range (mt_entries r) s e) k)"
    unfolding mem_run_def bt_get_def by (rule map_of_map_snd)
  then show "map_of (mem_run r s e) k = (if s \<le> k \<and> k < e then mem_entry_of r k else None)"
    by (simp add: mem_entry_of_def memtable_get_entry_def)
qed

interpretation mem_kv: kv_store "\<lambda>k v m. Some (snd (memtable_put k v m))"
  memtable_get memtable_ok "\<lambda>k m. snd (memtable_delete k m)"
  by unfold_locales
    (auto simp: memtable_put_write memtable_delete_write memtable_ok_write memtable_get_write)

section \<open>Properties\<close>

datatype mem_op = MPut bytes bytes | MDelete bytes | MDrain

fun mem_do :: "mem_op \<Rightarrow> memtable \<Rightarrow> memtable" where
  "mem_do (MPut k v) m = snd (memtable_put k v m)"
| "mem_do (MDelete k) m = snd (memtable_delete k m)"
| "mem_do MDrain m = snd (memtable_drain m)"

lemma memtable_ok_do: "memtable_ok m \<Longrightarrow> memtable_ok (mem_do op m)"
  by (cases op) (auto simp: memtable_put_write memtable_delete_write memtable_ok_write)

lemma memtable_ok_run: "memtable_ok m \<Longrightarrow> memtable_ok (fold mem_do ops m)"
  by (induction ops arbitrary: m) (auto simp: memtable_ok_do)

text \<open>
  After any sequence of puts, deletes and drains the entries are in strictly increasing
  key order and the byte count equals the sum over the entries of key length, value length and
  eight, although the code maintains it by adding and subtracting.
\<close>

theorem memtable_size_exact:
  "bt_ok (mt_entries (fold mem_do ops (memtable_new t))) \<and>
   mt_size_bytes (fold mem_do ops (memtable_new t)) =
     sum_list (map (\<lambda>(k, e). length k + (case me_value e of None \<Rightarrow> 0 | Some v \<Rightarrow> length v) + 8)
       (mt_entries (fold mem_do ops (memtable_new t))))"
  using memtable_ok_run [OF memtable_ok_new, of ops t]
  by (simp add: memtable_ok_def entries_size_def old_size_def)

text \<open>
  A lookup returns the last value written under the key, nothing after a delete, and a
  delete leaves a tombstone that hides older layers; other keys are unaffected. The flag
  returned says whether the threshold is reached.
\<close>

theorem memtable_last_write_wins:
  "memtable_get (snd (memtable_put k v m)) = (memtable_get m)(k \<mapsto> v) \<and>
   memtable_get (snd (memtable_delete k m)) = (memtable_get m)(k := None) \<and>
   memtable_is_tombstone (snd (memtable_delete k m)) k \<and>
   \<not> memtable_is_tombstone (snd (memtable_put k v m)) k \<and>
   (fst (memtable_put k v m) \<longleftrightarrow>
     mt_flush_threshold m \<le> mt_size_bytes (snd (memtable_put k v m)))"
  by (simp add: memtable_put_write memtable_delete_write memtable_get_write
      memtable_is_tombstone_def mem_write_entries memtable_should_flush_def)

end
