(* ===== verification/Cache.thy ===== *)
theory Cache
  imports Uldb_Prelude
begin

text \<open>
  \<^verbatim>\<open>src/storage/cache.rs\<close>: the LRU cache with a generation counter. The hash map is an
  association list with distinct keys; its order stands for the unspecified iteration order of
  the eviction scan. The abstract cache is the list of its pairs from the most to the least
  recently used. The lemmas show that the code implements it as long as the 64-bit counter
  does not overflow.
\<close>

section \<open>Definitions\<close>

definition DEFAULT_CACHE_CAPACITY :: nat where
  "DEFAULT_CACHE_CAPACITY = 1024"

record cache_entry =
  ce_value :: bytes
  ce_generation :: u64

record lru_cache =
  lc_entries :: "(bytes \<times> cache_entry) list"
  lc_capacity :: nat
  lc_generation :: u64

definition cache_new :: "nat \<Rightarrow> lru_cache" where
  "cache_new capacity = \<lparr>lc_entries = [], lc_capacity = capacity, lc_generation = 0\<rparr>"

definition cache_get :: "bytes \<Rightarrow> lru_cache \<Rightarrow> bytes option \<times> lru_cache" where
  "cache_get key c =
     (case map_of (lc_entries c) key of
        Some entry \<Rightarrow>
          (let g = lc_generation c + 1
           in (Some (ce_value entry),
               c\<lparr>lc_generation := g, lc_entries := hm_set key (entry\<lparr>ce_generation := g\<rparr>) (lc_entries c)\<rparr>))
      | None \<Rightarrow> (None, c))"

text \<open>The scan for the entry with the lowest generation.\<close>

definition evict_scan :: "(bytes \<times> cache_entry) list \<Rightarrow> u64 \<times> bytes option" where
  "evict_scan es =
     fold (\<lambda>(k, e) (min_gen, min_key).
         if ce_generation e < min_gen then (ce_generation e, Some k) else (min_gen, min_key))
       es (- 1, None)"

definition cache_insert :: "bytes \<Rightarrow> bytes \<Rightarrow> lru_cache \<Rightarrow> lru_cache" where
  "cache_insert key value c =
     (let g = lc_generation c + 1; c1 = c\<lparr>lc_generation := g\<rparr>
      in case map_of (lc_entries c1) key of
           Some entry \<Rightarrow>
             c1\<lparr>lc_entries := hm_set key (entry\<lparr>ce_value := value, ce_generation := g\<rparr>) (lc_entries c1)\<rparr>
         | None \<Rightarrow>
             (let es = (if length (lc_entries c1) \<ge> lc_capacity c1
                        then (case snd (evict_scan (lc_entries c1)) of
                                Some k \<Rightarrow> bt_remove k (lc_entries c1)
                              | None \<Rightarrow> lc_entries c1)
                        else lc_entries c1)
              in c1\<lparr>lc_entries := (key, \<lparr>ce_value = value, ce_generation = g\<rparr>) # es\<rparr>))"

definition cache_invalidate :: "bytes \<Rightarrow> lru_cache \<Rightarrow> lru_cache" where
  "cache_invalidate key c = c\<lparr>lc_entries := bt_remove key (lc_entries c)\<rparr>"

definition cache_clear :: "lru_cache \<Rightarrow> lru_cache" where
  "cache_clear c = c\<lparr>lc_entries := []\<rparr>"

definition cache_len :: "lru_cache \<Rightarrow> nat" where
  "cache_len c = length (lc_entries c)"

section \<open>The abstract cache\<close>

definition lru_spec_get :: "bytes \<Rightarrow> (bytes \<times> bytes) list \<Rightarrow> bytes option \<times> (bytes \<times> bytes) list" where
  "lru_spec_get k xs =
     (case map_of xs k of None \<Rightarrow> (None, xs) | Some v \<Rightarrow> (Some v, (k, v) # bt_remove k xs))"

definition lru_spec_insert ::
  "nat \<Rightarrow> bytes \<Rightarrow> bytes \<Rightarrow> (bytes \<times> bytes) list \<Rightarrow> (bytes \<times> bytes) list" where
  "lru_spec_insert cap k v xs =
     (if k \<in> fst ` set xs then (k, v) # bt_remove k xs
      else (k, v) # (if length xs \<ge> cap then butlast xs else xs))"

definition gen_of :: "bytes \<times> cache_entry \<Rightarrow> u64" where
  "gen_of ke = ce_generation (snd ke)"

definition by_age :: "lru_cache \<Rightarrow> (bytes \<times> cache_entry) list" where
  "by_age c = sort_key gen_of (lc_entries c)"

definition lru_view :: "lru_cache \<Rightarrow> (bytes \<times> bytes) list" where
  "lru_view c = map (\<lambda>(k, e). (k, ce_value e)) (rev (by_age c))"

definition cache_ok :: "lru_cache \<Rightarrow> bool" where
  "cache_ok c =
     (distinct (map fst (lc_entries c)) \<and> distinct (map gen_of (lc_entries c)) \<and>
      (\<forall>ke \<in> set (lc_entries c). gen_of ke \<le> lc_generation c))"

section \<open>Lemmas\<close>

lemma bt_remove_mset: "mset (bt_remove k m) = filter_mset (\<lambda>(k', _). k' \<noteq> k) (mset m)"
  by (simp add: bt_remove_def)

lemma hm_set_mset:
  "distinct (map fst m) \<Longrightarrow> k \<in> fst ` set m \<Longrightarrow> mset (hm_set k v m) = add_mset (k, v) (mset (bt_remove k m))"
proof (induction m)
  case (Cons kv m)
  obtain k' v' where kv: "kv = (k', v')" by fastforce
  show ?case
  proof (cases "k' = k")
    case True
    with Cons.prems kv have "k \<notin> fst ` set m" by simp
    then have "hm_set k v m = m" "bt_remove k m = m"
      by (auto simp: hm_set_def bt_remove_def case_prod_beta filter_id_conv rev_image_eqI
          intro!: map_idI)
    with True kv show ?thesis by (simp add: hm_set_def bt_remove_def)
  next
    case False
    with Cons kv show ?thesis by (auto simp: hm_set_def bt_remove_def)
  qed
qed simp

lemma set_by_age [simp]: "set (by_age c) = set (lc_entries c)"
  by (simp add: by_age_def)

lemma mset_by_age [simp]: "mset (by_age c) = mset (lc_entries c)"
  by (simp add: by_age_def)

lemma distinct_map_mset: "mset xs = mset ys \<Longrightarrow> distinct (map f xs) = distinct (map f ys)"
  by (metis mset_eq_imp_distinct_iff mset_map)

lemma distinct_map_by_age: "distinct (map f (lc_entries c)) \<Longrightarrow> distinct (map f (by_age c))"
  using distinct_map_mset [OF mset_by_age] by blast

lemma by_age_sorted: "cache_ok c \<Longrightarrow> sorted_wrt (<) (map gen_of (by_age c))"
  using distinct_map_by_age [of gen_of c]
  by (simp add: strict_sorted_iff cache_ok_def by_age_def)

lemma sorted_wrt_remove: "sorted_wrt (<) (map f m) \<Longrightarrow> sorted_wrt (<) (map f (bt_remove k m))"
  unfolding bt_remove_def sorted_wrt_map by (rule sorted_wrt_filter)

text \<open>A write with a fresh generation moves the key to the young end.\<close>

lemma by_age_touch:
  assumes "cache_ok c" "mset es = add_mset (k, e) (mset (bt_remove k' (lc_entries c)))"
    "lc_generation c < ce_generation e"
  shows "sort_key gen_of es = bt_remove k' (by_age c) @ [(k, e)]"
proof (rule sort_key_unique)
  show "mset (bt_remove k' (by_age c) @ [(k, e)]) = mset es"
    using assms(2) by (simp add: bt_remove_mset)
  have "gen_of ke < ce_generation e" if "ke \<in> set (lc_entries c)" for ke
    using assms(1,3) that by (auto simp: cache_ok_def)
  then show "sorted_wrt (<) (map gen_of (bt_remove k' (by_age c) @ [(k, e)]))"
    using sorted_wrt_remove [OF by_age_sorted [OF assms(1)], of k']
    by (auto simp: sorted_wrt_append bt_remove_def gen_of_def)
qed

lemma cache_ok_touch:
  assumes "cache_ok c" "mset es = add_mset (k, e) (mset (bt_remove k' (lc_entries c)))"
    "k \<notin> fst ` set (bt_remove k' (lc_entries c))" "ce_generation e = g" "lc_generation c < g"
  shows "cache_ok (c\<lparr>lc_generation := g, lc_entries := es\<rparr>)"
proof -
  let ?rs = "bt_remove k' (lc_entries c)"
  have lt: "gen_of ke < g" if "ke \<in> set ?rs" for ke
    using assms(1,5) that by (auto simp: cache_ok_def bt_remove_def)
  then have "g \<notin> gen_of ` set ?rs" by fastforce
  moreover have "set es = insert (k, e) (set ?rs)"
    using assms(2) by (metis set_mset_add_mset_insert set_mset_mset)
  ultimately show ?thesis
    using assms(1,3,4) lt distinct_map_mset [of es "(k, e) # ?rs" fst]
      distinct_map_mset [of es "(k, e) # ?rs" gen_of] assms(2)
    by (auto simp: cache_ok_def gen_of_def less_imp_le bt_remove_def distinct_map_filter)
qed

text \<open>The scan finds the oldest entry.\<close>

lemma evict_scan_fold:
  "case fold (\<lambda>(k, e) (min_gen, min_key).
         if ce_generation e < min_gen then (ce_generation e, Some k) else (min_gen, min_key))
       es (g0, k0) of (g, k) \<Rightarrow>
     (g = g0 \<and> k = k0 \<or> (\<exists>ke \<in> set es. g = gen_of ke \<and> k = Some (fst ke))) \<and>
     g \<le> g0 \<and> (\<forall>ke \<in> set es. g \<le> gen_of ke)"
proof (induction es arbitrary: g0 k0)
  case (Cons ke es)
  obtain k e where ke: "ke = (k, e)" by fastforce
  show ?case
    using Cons [of "ce_generation e" "Some k"] Cons [of g0 k0]
    by (auto simp: ke gen_of_def split: prod.splits)
qed simp

lemma evict_scan_oldest:
  assumes "cache_ok c" "lc_entries c \<noteq> []" "\<forall>ke \<in> set (lc_entries c). gen_of ke < - 1"
  shows "snd (evict_scan (lc_entries c)) = Some (fst (hd (by_age c)))"
proof -
  obtain g k where gk: "evict_scan (lc_entries c) = (g, k)" by fastforce
  then have least: "\<forall>ke \<in> set (lc_entries c). g \<le> gen_of ke"
    and "g = - 1 \<and> k = None \<or> (\<exists>ke \<in> set (lc_entries c). g = gen_of ke \<and> k = Some (fst ke))"
    using evict_scan_fold [where es = "lc_entries c" and ?g0.0 = "- 1" and ?k0.0 = None] by (auto simp: evict_scan_def)
  with assms(2,3) obtain ke where ke: "ke \<in> set (lc_entries c)" "g = gen_of ke" "k = Some (fst ke)"
    by (metis hd_in_set leD)
  obtain a as where as: "by_age c = a # as"
    using assms(2) by (metis list.exhaust set_by_age set_empty)
  have "ke = a"
  proof (rule ccontr)
    assume "ke \<noteq> a"
    then have "ke \<in> set as" "a \<in> set (lc_entries c)"
      using ke(1) as set_by_age [of c] by auto
    with by_age_sorted [OF assms(1)] as have "gen_of a < gen_of ke" by auto
    with least ke(2) \<open>a \<in> _\<close> show False by force
  qed
  with gk ke as show ?thesis by simp
qed

section \<open>Refinement\<close>

abbreviation pair_of :: "bytes \<times> cache_entry \<Rightarrow> bytes \<times> bytes" where
  "pair_of \<equiv> \<lambda>(k, e). (k, ce_value e)"

lemma bt_remove_view: "bt_remove k (lru_view c) = map pair_of (rev (bt_remove k (by_age c)))"
  by (simp add: lru_view_def bt_remove_def filter_map rev_filter [symmetric] comp_def case_prod_unfold)

lemma map_of_view: "cache_ok c \<Longrightarrow> map_of (lru_view c) k = map_option ce_value (map_of (lc_entries c) k)"
proof -
  assume "cache_ok c"
  then have d: "distinct (map fst (lc_entries c))" by (simp add: cache_ok_def)
  then have "map_of (rev (by_age c)) = map_of (lc_entries c)"
    by (intro map_of_inject_set [THEN iffD2])
      (auto simp: rev_map [symmetric] distinct_map_by_age)
  then show ?thesis
    by (simp add: lru_view_def map_of_map_snd)
qed

lemma keys_view: "fst ` set (lru_view c) = fst ` set (lc_entries c)"
  by (force simp: lru_view_def)

lemma length_view [simp]: "length (lru_view c) = cache_len c"
  by (simp add: lru_view_def by_age_def cache_len_def)

definition counter_room :: "lru_cache \<Rightarrow> bool" where
  "counter_room c = (lc_generation c < - 1)"

lemma counter_room_less: "counter_room c \<Longrightarrow> lc_generation c < lc_generation c + 1"
proof -
  assume "counter_room c"
  then have "1 + lc_generation c \<noteq> 0"
    by (metis add_eq_0_iff counter_room_def less_irrefl minus_minus)
  then show ?thesis by (simp add: word_less_nat_alt unatSuc add.commute)
qed

lemma touch_entry:
  assumes "cache_ok c" "map_of (lc_entries c) k = Some old" "g = lc_generation c + 1"
    "counter_room c" "ce_generation e = g"
  shows "cache_ok (c\<lparr>lc_generation := g, lc_entries := hm_set k e (lc_entries c)\<rparr>) \<and>
    lru_view (c\<lparr>lc_generation := g, lc_entries := hm_set k e (lc_entries c)\<rparr>) =
      (k, ce_value e) # bt_remove k (lru_view c)"
proof -
  have "k \<in> fst ` set (lc_entries c)"
    using assms(2) by (auto dest: map_of_SomeD intro: rev_image_eqI)
  with assms(1) have m: "mset (hm_set k e (lc_entries c)) = add_mset (k, e) (mset (bt_remove k (lc_entries c)))"
    by (intro hm_set_mset) (auto simp: cache_ok_def)
  have lt: "lc_generation c < g"
    using assms(3,4) counter_room_less by simp
  have "k \<notin> fst ` set (bt_remove k (lc_entries c))"
    by (auto simp: bt_remove_def)
  then have "cache_ok (c\<lparr>lc_generation := g, lc_entries := hm_set k e (lc_entries c)\<rparr>)"
    using cache_ok_touch [OF assms(1) m _ assms(5) lt] by blast
  moreover have "sort_key gen_of (hm_set k e (lc_entries c)) = bt_remove k (by_age c) @ [(k, e)]"
    using by_age_touch [OF assms(1) m] lt assms(5) by simp
  ultimately show ?thesis
    by (simp add: bt_remove_view) (simp add: lru_view_def by_age_def)
qed

lemma cache_get_refines:
  assumes "cache_ok c" "counter_room c"
  shows "fst (cache_get k c) = fst (lru_spec_get k (lru_view c)) \<and>
    lru_view (snd (cache_get k c)) = snd (lru_spec_get k (lru_view c)) \<and>
    cache_ok (snd (cache_get k c))"
proof (cases "map_of (lc_entries c) k")
  case None
  with assms show ?thesis by (simp add: cache_get_def lru_spec_get_def map_of_view)
next
  case (Some e)
  with assms touch_entry [OF assms(1) Some refl assms(2), of "e\<lparr>ce_generation := lc_generation c + 1\<rparr>"]
  show ?thesis by (simp add: cache_get_def lru_spec_get_def map_of_view Let_def)
qed

lemma bt_remove_hd: "distinct (map fst m) \<Longrightarrow> m \<noteq> [] \<Longrightarrow> bt_remove (fst (hd m)) m = tl m"
  by (cases m) (auto simp: bt_remove_absent [unfolded bt_remove_def] bt_remove_def)

text \<open>What the eviction step leaves: everything but the oldest entry when the cache is full.\<close>

definition evicted :: "lru_cache \<Rightarrow> (bytes \<times> cache_entry) list" where
  "evicted c =
     (if length (lc_entries c) \<ge> lc_capacity c
      then (case snd (evict_scan (lc_entries c)) of Some k \<Rightarrow> bt_remove k (lc_entries c)
            | None \<Rightarrow> lc_entries c)
      else lc_entries c)"

lemma evicted_remove:
  assumes "cache_ok c" "counter_room c" "key \<notin> fst ` set (lc_entries c)"
  obtains k where "evicted c = bt_remove k (lc_entries c)"
    "bt_remove k (by_age c) = (if cache_len c \<ge> lc_capacity c then tl (by_age c) else by_age c)"
proof (cases "cache_len c \<ge> lc_capacity c \<and> lc_entries c \<noteq> []")
  case True
  have "\<forall>ke \<in> set (lc_entries c). gen_of ke < - 1"
    using assms(1,2) by (auto simp: cache_ok_def counter_room_def)
  with True assms(1) have "snd (evict_scan (lc_entries c)) = Some (fst (hd (by_age c)))"
    by (intro evict_scan_oldest) auto
  moreover have "by_age c \<noteq> []" "distinct (map fst (by_age c))"
    using True assms(1) set_by_age [of c] by (auto simp: cache_ok_def distinct_map_by_age simp del: set_by_age)
  ultimately show thesis
    using True by (intro that [of "fst (hd (by_age c))"])
      (auto simp: evicted_def cache_len_def bt_remove_hd)
next
  case False
  then have "evicted c = lc_entries c" "cache_len c \<ge> lc_capacity c \<longrightarrow> by_age c = []"
    by (auto simp: evicted_def cache_len_def evict_scan_def by_age_def)
  with assms(3) show thesis
    by (intro that [of key]) (auto simp: bt_remove_absent)
qed

lemma cache_insert_refines:
  assumes "cache_ok c" "counter_room c"
  shows "lru_view (cache_insert k v c) = lru_spec_insert (lc_capacity c) k v (lru_view c) \<and>
    cache_ok (cache_insert k v c)"
proof (cases "map_of (lc_entries c) k")
  case (Some e)
  then have "k \<in> fst ` set (lru_view c)"
    by (auto simp: keys_view dest: map_of_SomeD intro: rev_image_eqI)
  with Some touch_entry [OF assms(1) Some refl assms(2),
      of "e\<lparr>ce_value := v, ce_generation := lc_generation c + 1\<rparr>"]
  show ?thesis by (simp add: cache_insert_def lru_spec_insert_def Let_def)
next
  case None
  let ?g = "lc_generation c + 1" and ?e = "\<lparr>ce_value = v, ce_generation = lc_generation c + 1\<rparr>"
  have k: "k \<notin> fst ` set (lc_entries c)"
    using None by (simp add: map_of_eq_None_iff)
  obtain k' where k': "evicted c = bt_remove k' (lc_entries c)"
    "bt_remove k' (by_age c) = (if cache_len c \<ge> lc_capacity c then tl (by_age c) else by_age c)"
    using evicted_remove [OF assms k] .
  have ins: "cache_insert k v c = c\<lparr>lc_generation := ?g, lc_entries := (k, ?e) # evicted c\<rparr>"
    using None by (simp add: cache_insert_def evicted_def Let_def split: option.split)
  have lt: "lc_generation c < ?g" using assms(2) by (rule counter_room_less)
  have m: "mset ((k, ?e) # evicted c) = add_mset (k, ?e) (mset (bt_remove k' (lc_entries c)))"
    by (simp add: k'(1))
  have "k \<notin> fst ` set (bt_remove k' (lc_entries c))"
    using k by (auto simp: bt_remove_def)
  then have "cache_ok (cache_insert k v c)"
    unfolding ins using cache_ok_touch [OF assms(1) m _ _ lt] by simp
  moreover have "sort_key gen_of ((k, ?e) # evicted c) = bt_remove k' (by_age c) @ [(k, ?e)]"
    using by_age_touch [OF assms(1) m] lt by simp
  then have "lru_view (cache_insert k v c) =
      (k, v) # map pair_of (rev (if cache_len c \<ge> lc_capacity c then tl (by_age c) else by_age c))"
    by (simp add: ins lru_view_def by_age_def [of "lc_entries_update _ _"] k'(2))
  ultimately show ?thesis
    using k by (simp add: lru_spec_insert_def keys_view)
      (simp add: lru_view_def map_butlast [symmetric] butlast_rev)
qed

lemma cache_invalidate_refines:
  assumes "cache_ok c"
  shows "lru_view (cache_invalidate k c) = bt_remove k (lru_view c) \<and> cache_ok (cache_invalidate k c)"
proof -
  have "sort_key gen_of (bt_remove k (lc_entries c)) = bt_remove k (by_age c)"
    using sorted_wrt_remove [OF by_age_sorted [OF assms]]
    by (intro sort_key_unique) (auto simp: bt_remove_mset)
  then have "lru_view (cache_invalidate k c) = bt_remove k (lru_view c)"
    unfolding bt_remove_view by (simp add: cache_invalidate_def lru_view_def by_age_def)
  then show ?thesis
    using assms by (auto simp: cache_ok_def cache_invalidate_def bt_remove_def distinct_map_filter)
qed

section \<open>Properties\<close>

datatype cache_op = CGet bytes | CInsert bytes bytes | CInvalidate bytes | CClear

fun cache_do :: "cache_op \<Rightarrow> lru_cache \<Rightarrow> bytes option \<times> lru_cache" where
  "cache_do (CGet k) c = cache_get k c"
| "cache_do (CInsert k v) c = (None, cache_insert k v c)"
| "cache_do (CInvalidate k) c = (None, cache_invalidate k c)"
| "cache_do CClear c = (None, cache_clear c)"

fun lru_spec_do ::
  "nat \<Rightarrow> cache_op \<Rightarrow> (bytes \<times> bytes) list \<Rightarrow> bytes option \<times> (bytes \<times> bytes) list" where
  "lru_spec_do cap (CGet k) xs = lru_spec_get k xs"
| "lru_spec_do cap (CInsert k v) xs = (None, lru_spec_insert cap k v xs)"
| "lru_spec_do cap (CInvalidate k) xs = (None, bt_remove k xs)"
| "lru_spec_do cap CClear xs = (None, [])"

text \<open>The results of a sequence of calls and the final state.\<close>

fun trace :: "('op \<Rightarrow> 's \<Rightarrow> 'r \<times> 's) \<Rightarrow> 'op list \<Rightarrow> 's \<Rightarrow> 'r list \<times> 's" where
  "trace f [] s = ([], s)"
| "trace f (op # ops) s =
     (let (r, s1) = f op s; (rs, s2) = trace f ops s1 in (r # rs, s2))"

lemma cache_do_refines:
  assumes "cache_ok c" "counter_room c"
  shows "fst (cache_do op c) = fst (lru_spec_do (lc_capacity c) op (lru_view c)) \<and>
    lru_view (snd (cache_do op c)) = snd (lru_spec_do (lc_capacity c) op (lru_view c)) \<and>
    cache_ok (snd (cache_do op c))"
  using cache_get_refines [OF assms] cache_insert_refines [OF assms]
    cache_invalidate_refines [OF assms(1)]
  by (cases op) (simp_all add: cache_clear_def lru_view_def by_age_def cache_ok_def)

lemma cache_do_frame:
  "lc_capacity (snd (cache_do op c)) = lc_capacity c \<and>
   lc_generation (snd (cache_do op c)) \<in> {lc_generation c, lc_generation c + 1}"
  by (cases op) (auto simp: cache_get_def cache_insert_def cache_invalidate_def cache_clear_def
      Let_def split: option.split)

lemma trace_refines:
  assumes "cache_ok c" "unat (lc_generation c) + length ops < 2 ^ 64"
  shows "fst (trace cache_do ops c) = fst (trace (lru_spec_do (lc_capacity c)) ops (lru_view c)) \<and>
    lru_view (snd (trace cache_do ops c)) = snd (trace (lru_spec_do (lc_capacity c)) ops (lru_view c))"
  using assms
proof (induction ops arbitrary: c)
  case (Cons op ops)
  let ?c = "snd (cache_do op c)"
  have "unat (- 1 :: u64) = 2 ^ 64 - 1"
    by (simp add: unsigned_minus_1_eq_mask mask_eq_exp_minus_1)
  then have "unat (lc_generation c) < unat (- 1 :: u64)"
    using Cons.prems(2) by simp
  then have room: "counter_room c"
    by (simp only: counter_room_def word_less_nat_alt)
  have "unat (lc_generation c + 1) \<le> unat (lc_generation c) + 1"
    by (simp add: unat_word_ariths)
  then have "unat (lc_generation ?c) + length ops < 2 ^ 64"
    using Cons.prems(2) cache_do_frame [of op c] by auto
  then show ?case
    using Cons.IH [of ?c] cache_do_refines [OF Cons.prems(1) room, of op] cache_do_frame [of op c]
    by (auto simp: Let_def split: prod.splits)
qed simp

lemma lru_spec_len: "length xs \<le> max 1 cap \<Longrightarrow> length (snd (lru_spec_do cap op xs)) \<le> max 1 cap"
proof (cases op)
  case (CGet k)
  have "length (bt_remove k xs) < length xs" if "map_of xs k = Some v" for v
    using that map_of_SomeD [OF that] by (auto simp: bt_remove_def intro!: length_filter_less)
  then show "length xs \<le> max 1 cap \<Longrightarrow> ?thesis"
    using CGet by (force simp: lru_spec_get_def split: option.split)
next
  case (CInsert k v)
  have "length (bt_remove k xs) < length xs" if "k \<in> fst ` set xs"
    using that by (auto simp: bt_remove_def intro!: length_filter_less)
  then show "length xs \<le> max 1 cap \<Longrightarrow> ?thesis"
    using CInsert by (fastforce simp: lru_spec_insert_def)
next
  case (CInvalidate k)
  then show "length xs \<le> max 1 cap \<Longrightarrow> ?thesis"
    by (auto simp: bt_remove_def intro: le_trans [OF length_filter_le])
qed simp

lemma lru_spec_trace_len:
  "length xs \<le> max 1 cap \<Longrightarrow> length (snd (trace (lru_spec_do cap) ops xs)) \<le> max 1 cap"
proof (induction ops arbitrary: xs)
  case (Cons op ops)
  then show ?case
    using Cons.IH [OF lru_spec_len [OF Cons.prems], of op]
    by (simp add: Let_def case_prod_beta)
qed simp

text \<open>
  (C9) Any sequence of fewer than \<open>2 ^ 64\<close> gets, inserts, invalidations and clears on a new
  cache answers exactly as the recency list does: a hit or an insert moves the key to the
  front, an insert into a full cache drops the least recently used key, and the cache never
  holds more than its capacity (one entry when the capacity is zero).
\<close>

theorem cache_implements_lru:
  assumes "length ops < 2 ^ 64"
  shows "fst (trace cache_do ops (cache_new cap)) = fst (trace (lru_spec_do cap) ops []) \<and>
    lru_view (snd (trace cache_do ops (cache_new cap))) = snd (trace (lru_spec_do cap) ops []) \<and>
    cache_len (snd (trace cache_do ops (cache_new cap))) \<le> max 1 cap"
proof -
  have c: "cache_ok (cache_new cap)" "lru_view (cache_new cap) = []" "lc_capacity (cache_new cap) = cap"
    "lc_generation (cache_new cap) = 0"
    by (simp_all add: cache_new_def cache_ok_def lru_view_def by_age_def)
  note r = trace_refines [OF c(1), of ops, unfolded c(2-4)]
  with assms have v: "lru_view (snd (trace cache_do ops (cache_new cap))) = snd (trace (lru_spec_do cap) ops [])"
    by simp
  then have "cache_len (snd (trace cache_do ops (cache_new cap))) \<le> max 1 cap"
    using lru_spec_trace_len [of "[]" cap ops] by (simp flip: length_view)
  with r v assms show ?thesis by simp
qed

theorem cache_implements_lru_witness:
  "fst (trace cache_do [CInsert [1] [1], CInsert [2] [2], CGet [1], CInsert [3] [3], CGet [2], CGet [1]]
      (cache_new 2)) =
   [None, None, Some [1], None, None, Some [1]]"
  using cache_implements_lru
    [of "[CInsert [1] [1], CInsert [2] [2], CGet [1], CInsert [3] [3], CGet [2], CGet [1]]" 2]
  by (simp add: lru_spec_get_def lru_spec_insert_def bt_remove_def)

end
