(* ===== verification/Page.thy ===== *)
theory Page
  imports Bloom
begin

text \<open>
  \<^verbatim>\<open>src/storage/page.rs\<close>: sorted pages and their binary format. The deflate codec of
  the crate \<^verbatim>\<open>flate2\<close> is a pair of parameters: \<open>deflate\<close> on a whole buffer, and
  \<open>inflate\<close>, which fails on malformed input. The cursor of the decoder is the bytes it has not
  consumed. The failing \<^verbatim>\<open>assert_eq!\<close> is an error value of its own, since it panics
  where the other errors are returned. The lemmas show the format round trip and that the
  bisections behind lookups and ranges find exactly the records of the page.
\<close>

section \<open>Data\<close>

definition PAGE_MAGIC :: bytes where
  "PAGE_MAGIC = ascii ''ULPG''"

definition PAGE_VERSION :: u8 where
  "PAGE_VERSION = 1"

definition RECORD_MAGIC :: bytes where
  "RECORD_MAGIC = ascii ''ULRC''"

record page_record =
  pr_key :: bytes
  pr_value :: bytes
  pr_tombstone :: bool

record page =
  pg_records :: "page_record list"
  pg_level :: u32
  pg_bloom :: "bloom_filter option"

datatype page_error =
    Page_Too_Short
  | Bad_Page_Magic
  | Page_Truncated
  | Inflate_Failed
  | Bad_Record_Magic
  | Record_Count_Panic

section \<open>Operations\<close>

definition page_new :: "u32 \<Rightarrow> page" where
  "page_new level = \<lparr>pg_records = [], pg_level = level, pg_bloom = None\<rparr>"

definition page_push :: "bytes \<Rightarrow> bytes \<Rightarrow> bool \<Rightarrow> page \<Rightarrow> page" where
  "page_push key value tombstone p =
     p\<lparr>pg_records := pg_records p @ [\<lparr>pr_key = key, pr_value = value, pr_tombstone = tombstone\<rparr>]\<rparr>"

definition page_sort :: "page \<Rightarrow> page" where
  "page_sort p = p\<lparr>pg_records := sort_key pr_key (pg_records p)\<rparr>"

text \<open>\<open>m_of\<close> and \<open>k_of\<close> are the sizes the Bloom filter computes for a capacity.\<close>

definition page_build_bloom :: "(nat \<Rightarrow> nat) \<Rightarrow> (nat \<Rightarrow> nat \<Rightarrow> nat) \<Rightarrow> page \<Rightarrow> page" where
  "page_build_bloom m_of k_of p =
     (if pg_records p = [] then p
      else let cap = max (length (pg_records p)) 16;
               bf = bloom_new (m_of cap) (k_of cap);
               bf1 = fold (\<lambda>r bf. if \<not> pr_tombstone r then bloom_add (pr_key r) bf else bf) (pg_records p) bf
           in p\<lparr>pg_bloom := Some bf1\<rparr>)"

definition page_bloom_may_contain :: "page \<Rightarrow> bytes \<Rightarrow> bool" where
  "page_bloom_may_contain p key =
     (case pg_bloom p of Some bf \<Rightarrow> may_contain bf key | None \<Rightarrow> True)"

definition record_bytes :: "page_record \<Rightarrow> bytes" where
  "record_bytes r =
     RECORD_MAGIC @ to_be 2 (of_nat (length (pr_key r)) :: u16) @
     to_be 4 (of_nat (length (pr_value r)) :: u32) @
     pr_key r @ pr_value r @ [if pr_tombstone r then 1 else 0]"

definition page_body :: "page_record list \<Rightarrow> bytes" where
  "page_body rs = concat (map record_bytes rs)"

definition page_image :: "u32 \<Rightarrow> u32 \<Rightarrow> u32 \<Rightarrow> bytes \<Rightarrow> bytes" where
  "page_image n_records usize csize stored =
     PAGE_MAGIC @ [PAGE_VERSION] @ to_be 4 n_records @ to_be 4 usize @ to_be 4 csize @ stored"

definition page_serialize :: "(bytes \<Rightarrow> bytes) \<Rightarrow> page \<Rightarrow> bytes" where
  "page_serialize deflate p =
     (let body = page_body (pg_records p);
          uncompressed_size = of_nat (length body) :: u32;
          compressed = deflate body;
          (stored, compressed_size) =
            (if of_nat (length compressed) < uncompressed_size
             then (compressed, of_nat (length compressed)) else (body, uncompressed_size))
      in page_image (of_nat (length (pg_records p))) uncompressed_size compressed_size stored)"

text \<open>The record loop of \<^verbatim>\<open>Page::deserialize\<close>; a short tail ends it silently.\<close>

function parse_body :: "bytes \<Rightarrow> page_error + page_record list" where
  "parse_body body =
     (if body = [] then Inr []
      else if length body < 4 then Inr []
      else if take 4 body \<noteq> RECORD_MAGIC then Inl Bad_Record_Magic
      else let r1 = drop 4 body
           in if length r1 < 6 then Inr []
              else let key_len = unat (from_be (take 2 r1) :: u16);
                       val_len = unat (from_be (take 4 (drop 2 r1)) :: u32);
                       r2 = drop 6 r1
                   in if length r2 < key_len + val_len + 1 then Inr []
                      else let r = \<lparr>pr_key = take key_len r2,
                                    pr_value = take val_len (drop key_len r2),
                                    pr_tombstone = (r2 ! (key_len + val_len) \<noteq> 0)\<rparr>
                           in case parse_body (drop (key_len + val_len + 1) r2) of
                                Inl e \<Rightarrow> Inl e
                              | Inr rs \<Rightarrow> Inr (r # rs))"
  by pat_completeness auto
termination
  by (relation "measure length") auto

declare parse_body.simps [simp del]

definition page_deserialize :: "(bytes \<Rightarrow> bytes option) \<Rightarrow> bytes \<Rightarrow> page_error + page" where
  "page_deserialize inflate data =
     (if length data < 17 then Inl Page_Too_Short
      else if take 4 data \<noteq> PAGE_MAGIC then Inl Bad_Page_Magic
      else let record_count = unat (from_be (take 4 (drop 5 data)) :: u32);
               uncompressed_size = unat (from_be (take 4 (drop 9 data)) :: u32);
               compressed_size = unat (from_be (take 4 (drop 13 data)) :: u32)
           in if length data < 17 + compressed_size then Inl Page_Truncated
              else let raw = take compressed_size (drop 17 data)
                   in case (if compressed_size < uncompressed_size then inflate raw else Some raw) of
                        None \<Rightarrow> Inl Inflate_Failed
                      | Some body \<Rightarrow>
                          (case parse_body body of
                             Inl e \<Rightarrow> Inl e
                           | Inr rs \<Rightarrow>
                               if length rs \<noteq> record_count then Inl Record_Count_Panic
                               else Inr ((page_new 0)\<lparr>pg_records := rs\<rparr>)))"

definition page_get :: "page \<Rightarrow> bytes \<Rightarrow> bytes option" where
  "page_get p key =
     (case binary_search_by pr_key (pg_records p) key of
        Found idx \<Rightarrow>
          (let r = pg_records p ! idx in if pr_tombstone r then None else Some (pr_value r))
      | Missing _ \<Rightarrow> None)"

definition page_range :: "page \<Rightarrow> bytes \<Rightarrow> bytes \<Rightarrow> page_record list" where
  "page_range p start endk =
     (let first = (case binary_search_by pr_key (pg_records p) start of Found i \<Rightarrow> i | Missing i \<Rightarrow> i)
      in takeWhile (\<lambda>r. pr_key r < endk) (drop first (pg_records p)))"

definition page_tombstone_count :: "page \<Rightarrow> nat" where
  "page_tombstone_count p = length (filter pr_tombstone (pg_records p))"

definition page_live_count :: "page \<Rightarrow> nat" where
  "page_live_count p = length (filter (\<lambda>r. \<not> pr_tombstone r) (pg_records p))"

section \<open>Format lemmas\<close>

definition record_fits :: "page_record \<Rightarrow> bool" where
  "record_fits r = (length (pr_key r) < 2 ^ 16 \<and> length (pr_value r) < 2 ^ 32)"

lemma length_magic [simp]: "length RECORD_MAGIC = 4" "length PAGE_MAGIC = 4"
  by (simp_all add: RECORD_MAGIC_def PAGE_MAGIC_def ascii_def)

lemma length_record_bytes: "length (record_bytes r) = 11 + length (pr_key r) + length (pr_value r)"
  by (simp add: record_bytes_def)

lemma length_page_body: "length (page_body rs) \<ge> 11 * length rs"
  by (induction rs) (auto simp: page_body_def length_record_bytes)

lemma parse_body_Nil [simp]: "parse_body [] = Inr []"
  by (simp add: parse_body.simps)

lemma parse_body_record:
  assumes "record_fits r"
  shows "parse_body (record_bytes r @ rest) =
    (case parse_body rest of Inl e \<Rightarrow> Inl e | Inr rs \<Rightarrow> Inr (r # rs))"
proof -
  let ?k = "pr_key r" and ?v = "pr_value r"
  let ?kb = "to_be 2 (of_nat (length ?k) :: u16)" and ?vb = "to_be 4 (of_nat (length ?v) :: u32)"
  let ?t = "if pr_tombstone r then 1 else 0 :: u8"
  have b: "record_bytes r @ rest = RECORD_MAGIC @ ?kb @ ?vb @ ?k @ ?v @ ?t # rest"
    by (simp add: record_bytes_def)
  have l: "unat (of_nat (length ?k) :: u16) = length ?k" "unat (of_nat (length ?v) :: u32) = length ?v"
    using assms by (simp_all add: record_fits_def unat_of_nat)
  have "RECORD_MAGIC \<noteq> []" by (simp flip: length_greater_0_conv)
  moreover have "(?k @ ?v @ ?t # rest) ! (length ?k + length ?v) = ?t"
    by (simp add: nth_append)
  moreover have "r = \<lparr>pr_key = ?k, pr_value = ?v, pr_tombstone = pr_tombstone r\<rparr>"
    by simp
  ultimately show ?thesis
    unfolding b by (subst parse_body.simps) (simp add: Let_def l split: sum.split)
qed

lemma parse_body_roundtrip: "\<forall>r \<in> set rs. record_fits r \<Longrightarrow> parse_body (page_body rs) = Inr rs"
  by (induction rs) (auto simp: page_body_def parse_body_record)

lemma deserialize_image:
  assumes "unat csize = length stored"
  shows "page_deserialize inflate (page_image n_records usize csize stored) =
    (case (if csize < usize then inflate stored else Some stored) of
       None \<Rightarrow> Inl Inflate_Failed
     | Some body \<Rightarrow>
         (case parse_body body of
            Inl e \<Rightarrow> Inl e
          | Inr rs \<Rightarrow> if length rs \<noteq> unat n_records then Inl Record_Count_Panic
                     else Inr ((page_new 0)\<lparr>pg_records := rs\<rparr>)))"
proof -
  let ?d = "page_image n_records usize csize stored"
  have "length ?d = 17 + length stored" "take 4 ?d = PAGE_MAGIC" "take 4 (drop 5 ?d) = to_be 4 n_records"
    "take 4 (drop 9 ?d) = to_be 4 usize" "take 4 (drop 13 ?d) = to_be 4 csize" "drop 17 ?d = stored"
    by (simp_all add: page_image_def)
  then show ?thesis
    using assms by (simp add: page_deserialize_def Let_def word_less_nat_alt)
qed

lemma page_roundtrip:
  assumes "\<forall>b. inflate (deflate b) = Some b" "\<forall>r \<in> set (pg_records p). record_fits r"
    "length (page_body (pg_records p)) < 2 ^ 32" "length (deflate (page_body (pg_records p))) < 2 ^ 32"
  shows "page_deserialize inflate (page_serialize deflate p) =
    Inr ((page_new 0)\<lparr>pg_records := pg_records p\<rparr>)"
proof -
  let ?b = "page_body (pg_records p)"
  have "length (pg_records p) < 2 ^ 32"
    using assms(3) length_page_body [of "pg_records p"] by simp
  then have n: "unat (of_nat (length (pg_records p)) :: u32) = length (pg_records p)"
    by (simp add: unat_of_nat)
  have "unat (of_nat (length ?b) :: u32) = length ?b"
    "unat (of_nat (length (deflate ?b)) :: u32) = length (deflate ?b)"
    using assms(3,4) by (simp_all add: unat_of_nat)
  then show ?thesis
    using assms(1,2) n
    by (simp add: page_serialize_def Let_def deserialize_image parse_body_roundtrip)
qed

section \<open>Lookups\<close>

definition record_entry :: "page_record \<Rightarrow> bytes \<times> entry" where
  "record_entry r = (pr_key r, if pr_tombstone r then None else Some (pr_value r))"

definition page_ok :: "page \<Rightarrow> bool" where
  "page_ok p = sorted_wrt (<) (map pr_key (pg_records p))"

text \<open>
  What a page says about a key: the probe that its readers make, first for a live value and
  then for a tombstone.
\<close>

definition page_tombstoned :: "page \<Rightarrow> bytes \<Rightarrow> bool" where
  "page_tombstoned p key =
     (case binary_search_by pr_key (pg_records p) key of
        Found i \<Rightarrow> pr_tombstone (pg_records p ! i)
      | Missing _ \<Rightarrow> False)"

definition page_entry :: "page \<Rightarrow> bytes \<Rightarrow> entry option" where
  "page_entry p key =
     (case page_get p key of
        Some v \<Rightarrow> Some (Some v)
      | None \<Rightarrow> if page_tombstoned p key then Some None else None)"

lemma page_keys_distinct: "page_ok p \<Longrightarrow> distinct (map pr_key (pg_records p))"
  by (simp add: page_ok_def strict_sorted_iff)

lemma fst_record_entry [simp]: "fst (record_entry r) = pr_key r"
  by (simp add: record_entry_def)

lemma map_of_record_entry:
  "distinct (map pr_key rs) \<Longrightarrow> i < length rs \<Longrightarrow>
   map_of (map record_entry rs) (pr_key (rs ! i)) = Some (snd (record_entry (rs ! i)))"
  by (intro map_of_is_SomeI)
    (auto simp: comp_def intro!: image_eqI [of _ _ "rs ! i"] simp: record_entry_def)

lemma page_entry_map_of:
  assumes "page_ok p"
  shows "page_entry p k = map_of (map record_entry (pg_records p)) k"
proof (cases "binary_search_by pr_key (pg_records p) k")
  case (Found i)
  note f = binary_search_by_Found [OF assms [unfolded page_ok_def] Found]
  have "map_of (map record_entry (pg_records p)) k = Some (snd (record_entry (pg_records p ! i)))"
    using map_of_record_entry [OF page_keys_distinct [OF assms] f(1)] f(2) by simp
  then show ?thesis
    using Found by (simp add: page_entry_def page_get_def page_tombstoned_def record_entry_def Let_def)
next
  case (Missing i)
  note m = binary_search_by_Missing [OF assms [unfolded page_ok_def] Missing]
  have "pr_key (pg_records p ! j) \<noteq> k" if "j < length (pg_records p)" for j
    using m(2) [of j] m(3) [of j] that by (cases "j < i") auto
  then have "map_of (map record_entry (pg_records p)) k = None"
    by (fastforce simp: map_of_eq_None_iff in_set_conv_nth record_entry_def)
  then show ?thesis
    using Missing by (simp add: page_entry_def page_get_def page_tombstoned_def)
qed

text \<open>On sorted records the suffix taken while below the bound is a filter.\<close>

lemma takeWhile_sorted_filter:
  "sorted_wrt (<) (map f xs) \<Longrightarrow> takeWhile (\<lambda>x. f x < e) xs = filter (\<lambda>x. f x < (e::'k::linorder)) xs"
  by (induction xs) (auto simp: filter_empty_conv dest: less_trans
      intro!: filter_False [symmetric])

lemma drop_sorted_filter:
  assumes "i \<le> length xs" "\<And>j. j < i \<Longrightarrow> f (xs ! j) < s"
    "\<And>j. i \<le> j \<Longrightarrow> j < length xs \<Longrightarrow> s \<le> (f (xs ! j) :: 'k::linorder)"
  shows "drop i xs = filter (\<lambda>x. s \<le> f x) xs"
proof -
  have "filter (\<lambda>x. s \<le> f x) (take i xs) = []"
    using assms(1,2) by (force simp: filter_empty_conv in_set_conv_nth)
  moreover have "filter (\<lambda>x. s \<le> f x) (drop i xs) = drop i xs"
    using assms(3) by (auto simp: filter_id_conv in_set_conv_nth)
  ultimately show ?thesis
    by (metis append_Nil append_take_drop_id filter_append)
qed

lemma page_range_filter:
  assumes "page_ok p"
  shows "page_range p s e = filter (\<lambda>r. s \<le> pr_key r \<and> pr_key r < e) (pg_records p)"
proof -
  let ?xs = "pg_records p"
  let ?i = "case binary_search_by pr_key ?xs s of Found i \<Rightarrow> i | Missing i \<Rightarrow> i"
  note sorted = assms [unfolded page_ok_def]
  have "drop ?i ?xs = filter (\<lambda>r. s \<le> pr_key r) ?xs"
  proof (cases "binary_search_by pr_key ?xs s")
    case (Found i)
    note f = binary_search_by_Found [OF sorted Found]
    have "pr_key (?xs ! a) < pr_key (?xs ! b)" if "a < b" "b < length ?xs" for a b
      using sorted that by (auto simp: sorted_wrt_iff_nth_less)
    then have "pr_key (?xs ! j) < s" if "j < i" for j
      using f that by blast
    moreover have "s \<le> pr_key (?xs ! j)" if "i \<le> j" "j < length ?xs" for j
      using f that \<open>\<And>b a. \<lbrakk>a < b; b < length ?xs\<rbrakk> \<Longrightarrow> pr_key (?xs ! a) < pr_key (?xs ! b)\<close> [of i j]
      by (cases "i = j") auto
    ultimately show ?thesis
      using Found f by (simp add: drop_sorted_filter)
  next
    case (Missing i)
    note m = binary_search_by_Missing [OF sorted Missing]
    show ?thesis
      using Missing m by (simp add: drop_sorted_filter less_imp_le)
  qed
  moreover have "sorted_wrt (<) (map pr_key (filter (\<lambda>r. s \<le> pr_key r) ?xs))"
    using sorted unfolding sorted_wrt_map by (rule sorted_wrt_filter)
  ultimately show ?thesis
    unfolding page_range_def Let_def by (simp add: takeWhile_sorted_filter conj_commute)
qed

definition page_run :: "page \<Rightarrow> bytes \<Rightarrow> bytes \<Rightarrow> (bytes \<times> entry) list" where
  "page_run p s e = map record_entry (page_range p s e)"

lemma map_of_filter_keys:
  "map_of (filter (\<lambda>kv. P (fst kv)) m) k = (if P k then map_of m k else None)"
  by (induction m) auto

interpretation page_run: sorted_run page_entry page_run page_ok
proof
  fix p :: page and s e k
  assume ok: "page_ok p"
  have run: "page_run p s e = filter (\<lambda>kv. s \<le> fst kv \<and> fst kv < e) (map record_entry (pg_records p))"
    by (simp add: page_run_def page_range_filter [OF ok] filter_map comp_def)
  have "distinct (map fst (map record_entry (pg_records p)))"
    using page_keys_distinct [OF ok] by (simp add: comp_def)
  then show "distinct (map fst (page_run p s e))"
    unfolding run by (rule distinct_map_filter)
  show "map_of (page_run p s e) k = (if s \<le> k \<and> k < e then page_entry p k else None)"
    unfolding run page_entry_map_of [OF ok]
    by (rule map_of_filter_keys [where P = "\<lambda>k. s \<le> k \<and> k < e"])
qed

section \<open>Properties\<close>

text \<open>
  (C24) A page whose records fit their length fields and whose body is below 4 GiB is read back
  from its file image with the same records, compressed or not, for every codec that inverts
  its own output. The level and the Bloom filter are not stored: they come back as level 0 and
  no filter.
\<close>

theorem page_format_roundtrip:
  assumes "\<forall>b. inflate (deflate b) = Some b" "\<forall>r \<in> set (pg_records p). record_fits r"
    "length (page_body (pg_records p)) < 2 ^ 32" "length (deflate (page_body (pg_records p))) < 2 ^ 32"
  shows "page_deserialize inflate (page_serialize deflate p) =
    Inr \<lparr>pg_records = pg_records p, pg_level = 0, pg_bloom = None\<rparr>"
  using page_roundtrip [OF assms] by (simp add: page_new_def)

definition swap_codec :: "bytes \<Rightarrow> bytes \<Rightarrow> bytes" where
  "swap_codec x b = (if b = x then [] else if b = [] then x else b)"

definition sample_page :: page where
  "sample_page = page_push [2] [] True (page_push [1] [7, 8] False (page_new 1))"

theorem page_format_roundtrip_witness:
  "page_deserialize (\<lambda>b. Some (swap_codec (page_body (pg_records sample_page)) b))
     (page_serialize (swap_codec (page_body (pg_records sample_page))) sample_page) =
   Inr \<lparr>pg_records = pg_records sample_page, pg_level = 0, pg_bloom = None\<rparr>"
  by (rule page_format_roundtrip)
    (auto simp: swap_codec_def sample_page_def page_push_def page_new_def record_fits_def
      page_body_def length_record_bytes)

text \<open>
  Decoding an uncompressed page whose header counts a different number of records than
  its body holds does not return an error: it stops at the failing assertion.
\<close>

theorem page_count_mismatch_panics:
  assumes "\<forall>r \<in> set rs. record_fits r" "length (page_body rs) < 2 ^ 32" "unat n_records \<noteq> length rs"
  shows "page_deserialize inflate (page_image n_records (of_nat (length (page_body rs)))
      (of_nat (length (page_body rs))) (page_body rs)) = Inl Record_Count_Panic"
  using assms by (simp add: deserialize_image unat_of_nat parse_body_roundtrip)

theorem page_count_mismatch_panics_witness:
  "page_deserialize (\<lambda>b. None) (page_image 2 (of_nat (length (page_body (pg_records sample_page))))
      (of_nat (length (page_body (pg_records sample_page)))) (page_body (pg_records sample_page))) \<noteq>
    Inl Record_Count_Panic \<and>
   page_deserialize (\<lambda>b. None) (page_image 3 (of_nat (length (page_body (pg_records sample_page))))
      (of_nat (length (page_body (pg_records sample_page)))) (page_body (pg_records sample_page))) =
    Inl Record_Count_Panic"
proof -
  have "\<forall>r \<in> set (pg_records sample_page). record_fits r"
    "length (page_body (pg_records sample_page)) < 2 ^ 32" "length (pg_records sample_page) = 2"
    by (simp_all add: sample_page_def page_push_def page_new_def record_fits_def page_body_def
        length_record_bytes)
  then show ?thesis
    using page_count_mismatch_panics [of "pg_records sample_page" 3 "\<lambda>b. None"]
    by (simp add: deserialize_image unat_of_nat parse_body_roundtrip)
qed

text \<open>
  On a page with strictly increasing keys the bisecting lookup finds exactly the live
  record stored under the key, and the range scan returns exactly the records with
  \<open>start \<le> key < end\<close>, in order; reversed bounds give nothing.
\<close>

theorem page_lookup_exact:
  assumes "sorted_wrt (<) (map pr_key (pg_records p))"
  shows "(page_get p k = Some v \<longleftrightarrow>
      (\<exists>r \<in> set (pg_records p). pr_key r = k \<and> \<not> pr_tombstone r \<and> pr_value r = v)) \<and>
    page_range p s e = filter (\<lambda>r. s \<le> pr_key r \<and> pr_key r < e) (pg_records p)"
proof -
  have ok: "page_ok p" using assms by (simp add: page_ok_def)
  have "page_get p k = Some v \<longleftrightarrow> page_entry p k = Some (Some v)"
    by (simp add: page_entry_def split: option.split)
  also have "\<dots> \<longleftrightarrow> (k, Some v) \<in> set (map record_entry (pg_records p))"
    using page_keys_distinct [OF ok]
    by (simp add: page_entry_map_of [OF ok] comp_def del: set_map)
  also have "\<dots> \<longleftrightarrow> (\<exists>r \<in> set (pg_records p). pr_key r = k \<and> \<not> pr_tombstone r \<and> pr_value r = v)"
    by (auto simp: record_entry_def split: if_splits)
  finally show ?thesis
    using page_range_filter [OF ok, of s e] by blast
qed

theorem page_lookup_exact_witness:
  "page_get sample_page [1] = Some [7, 8] \<and>
   page_range sample_page [1] [2] = [\<lparr>pr_key = [1], pr_value = [7, 8], pr_tombstone = False\<rparr>]"
  using page_lookup_exact [of sample_page "[1]" "[7, 8]" "[1]" "[2]"]
  by (simp add: sample_page_def page_push_def page_new_def)

end
