(* ===== verification/Compaction.thy ===== *)
theory Compaction
  imports Page
begin

text \<open>
  \<^verbatim>\<open>src/storage/compaction.rs\<close>: three levels of pages, merged from L0 into L1 and from
  L1 into L2. The hash map that collects the first record of every key is an association list.
  The codec parameter \<open>deflate\<close> matters because the size of the encoded L1 decides whether it is
  promoted. The lemmas show what a merge keeps, that point reads and range scans agree, and
  which record a read sees after a compaction.
\<close>

section \<open>Definitions\<close>

definition L0_LIMIT :: nat where
  "L0_LIMIT = 4"

definition L1_SIZE_LIMIT :: nat where
  "L1_SIZE_LIMIT = 64 * 1024"

record compaction_manager =
  cm_l0 :: "page list"
  cm_l1 :: "page list"
  cm_l2 :: "page list"
  cm_compaction_count :: u64

definition cm_new :: compaction_manager where
  "cm_new = \<lparr>cm_l0 = [], cm_l1 = [], cm_l2 = [], cm_compaction_count = 0\<rparr>"

text \<open>\<^verbatim>\<open>latest.entry(key).or_insert(rec)\<close>: the first record of a key stays.\<close>

definition or_insert_rec :: "page_record \<Rightarrow> (bytes \<times> page_record) list \<Rightarrow> (bytes \<times> page_record) list" where
  "or_insert_rec r m = (if map_of m (pr_key r) = None then (pr_key r, r) # m else m)"

definition merge_latest :: "page list \<Rightarrow> (bytes \<times> page_record) list" where
  "merge_latest pages = fold (\<lambda>p m. fold or_insert_rec (pg_records p) m) pages []"

definition merge_pages :: "page list \<Rightarrow> bool \<Rightarrow> page" where
  "merge_pages pages drop_tombstones =
     (let latest = merge_latest pages; keys = sort (map fst latest)
      in fold (\<lambda>key merged.
             case map_of latest key of
               None \<Rightarrow> merged
             | Some r \<Rightarrow> if drop_tombstones \<and> pr_tombstone r then merged
                        else page_push (pr_key r) (pr_value r) (pr_tombstone r) merged)
           keys (page_new 1))"

definition compact_l1_to_l2 :: "compaction_manager \<Rightarrow> compaction_manager" where
  "compact_l1_to_l2 cm =
     (let merged = merge_pages (cm_l1 cm @ cm_l2 cm) True
      in cm\<lparr>cm_l1 := [], cm_l2 := [merged], cm_compaction_count := cm_compaction_count cm + 1\<rparr>)"

definition compact_l0_to_l1 :: "(bytes \<Rightarrow> bytes) \<Rightarrow> compaction_manager \<Rightarrow> compaction_manager" where
  "compact_l0_to_l1 deflate cm =
     (let merged = merge_pages (cm_l0 cm @ cm_l1 cm) False;
          cm1 = cm\<lparr>cm_l0 := [], cm_l1 := [merged], cm_compaction_count := cm_compaction_count cm + 1\<rparr>;
          l1_size = sum_list (map (\<lambda>p. length (page_serialize deflate p)) (cm_l1 cm1))
      in if l1_size > L1_SIZE_LIMIT then compact_l1_to_l2 cm1 else cm1)"

definition add_l0_page :: "(bytes \<Rightarrow> bytes) \<Rightarrow> page \<Rightarrow> compaction_manager \<Rightarrow> compaction_manager" where
  "add_l0_page deflate p cm =
     (let cm1 = cm\<lparr>cm_l0 := cm_l0 cm @ [p]\<rparr>
      in if length (cm_l0 cm1) \<ge> L0_LIMIT then compact_l0_to_l1 deflate cm1 else cm1)"

text \<open>The search loop over one level: the first page that knows the key decides.\<close>

fun search_pages :: "page list \<Rightarrow> bytes \<Rightarrow> entry option" where
  "search_pages [] key = None"
| "search_pages (p # ps) key =
     (case page_get p key of
        Some v \<Rightarrow> Some (Some v)
      | None \<Rightarrow> if page_tombstoned p key then Some None else search_pages ps key)"

definition cm_get :: "compaction_manager \<Rightarrow> bytes \<Rightarrow> bytes option" where
  "cm_get cm key =
     (case search_pages (rev (cm_l0 cm)) key of
        Some e \<Rightarrow> e
      | None \<Rightarrow> (case search_pages (rev (cm_l1 cm)) key of
                  Some e \<Rightarrow> e
                | None \<Rightarrow> (case search_pages (rev (cm_l2 cm)) key of Some e \<Rightarrow> e | None \<Rightarrow> None)))"

definition scan_record :: "page_record \<Rightarrow> (bytes \<times> bytes) list \<Rightarrow> (bytes \<times> bytes) list" where
  "scan_record r merged =
     (if pr_tombstone r then bt_remove (pr_key r) merged
      else bt_insert (pr_key r) (pr_value r) merged)"

definition cm_scan :: "compaction_manager \<Rightarrow> bytes \<Rightarrow> bytes \<Rightarrow> (bytes \<times> bytes) list" where
  "cm_scan cm start endk =
     fold (\<lambda>level merged.
         fold (\<lambda>p merged. fold scan_record (page_range p start endk) merged) level merged)
       [cm_l2 cm, cm_l1 cm, cm_l0 cm] []"

definition cm_page_count :: "compaction_manager \<Rightarrow> nat \<times> nat \<times> nat" where
  "cm_page_count cm = (length (cm_l0 cm), length (cm_l1 cm), length (cm_l2 cm))"

definition cm_load_pages :: "nat \<Rightarrow> page list \<Rightarrow> compaction_manager \<Rightarrow> compaction_manager" where
  "cm_load_pages level pages cm =
     (if level = 0 then cm\<lparr>cm_l0 := pages\<rparr>
      else if level = 1 then cm\<lparr>cm_l1 := pages\<rparr>
      else if level = 2 then cm\<lparr>cm_l2 := pages\<rparr>
      else cm)"

definition cm_total_records :: "compaction_manager \<Rightarrow> nat" where
  "cm_total_records cm =
     sum_list (map (\<lambda>p. length (pg_records p)) (cm_l0 cm @ cm_l1 cm @ cm_l2 cm))"

section \<open>Searching\<close>

lemma search_pages_Cons:
  "search_pages (p # ps) k = (case page_entry p k of Some e \<Rightarrow> Some e | None \<Rightarrow> search_pages ps k)"
  by (simp add: page_entry_def split: option.split)

declare search_pages.simps(2) [simp del]

lemma search_pages_append:
  "search_pages (ps @ qs) k = (case search_pages ps k of Some e \<Rightarrow> Some e | None \<Rightarrow> search_pages qs k)"
  by (induction ps) (simp_all add: search_pages_Cons split: option.split)

lemma resolve_search_append:
  "resolve (search_pages (ps @ qs) k) b = resolve (search_pages ps k) (resolve (search_pages qs k) b)"
  by (simp add: search_pages_append split: option.split)

lemma cm_get_search:
  "cm_get cm k = resolve (search_pages (rev (cm_l0 cm) @ rev (cm_l1 cm) @ rev (cm_l2 cm)) k) None"
  by (simp add: cm_get_def search_pages_append split: option.split)

lemma fold_resolve_search:
  "fold (\<lambda>p below. resolve (page_entry p k) below) ps b = resolve (search_pages (rev ps) k) b"
  by (induction ps arbitrary: b)
    (simp_all add: search_pages_append search_pages_Cons split: option.split)

lemma fold_scan_record: "fold scan_record rs m = overlay (map record_entry rs) m"
  by (induction rs arbitrary: m) (simp_all add: overlay_def scan_record_def record_entry_def)

lemma cm_scan_overlay:
  "cm_scan cm s e = fold (\<lambda>p. overlay (page_run p s e)) (cm_l2 cm @ cm_l1 cm @ cm_l0 cm) []"
  by (simp add: cm_scan_def fold_scan_record page_run_def)

definition cm_pages_ok :: "compaction_manager \<Rightarrow> bool" where
  "cm_pages_ok cm = (\<forall>p \<in> set (cm_l0 cm @ cm_l1 cm @ cm_l2 cm). page_ok p)"

lemma cm_scan_get:
  assumes "cm_pages_ok cm"
  shows "bt_get (cm_scan cm s e) k = (if s \<le> k \<and> k < e then cm_get cm k else None)"
proof -
  have "\<forall>p \<in> set (cm_l2 cm @ cm_l1 cm @ cm_l0 cm). page_ok p"
    using assms by (auto simp: cm_pages_ok_def)
  note layers = page_run.layered_get [OF this, of s k e "[]"]
    page_run.layered_outside [OF this, of s k e "[]"]
  show ?thesis
    using layers by (auto simp: cm_scan_overlay fold_resolve_search cm_get_search resolve_search_append)
qed

lemma bt_ok_cm_scan: "bt_ok (cm_scan cm s e)"
  unfolding cm_scan_overlay by (simp add: page_run.layered_ok)

section \<open>Merging\<close>

lemma search_pages_map_of:
  "\<forall>p \<in> set ps. page_ok p \<Longrightarrow>
   search_pages ps k = map_of (map record_entry (concat (map pg_records ps))) k"
  by (induction ps)
    (simp_all add: search_pages_Cons page_entry_map_of map_add_def split: option.split)

lemma merge_latest_concat: "merge_latest ps = fold or_insert_rec (concat (map pg_records ps)) []"
proof -
  have "fold (\<lambda>p m. fold or_insert_rec (pg_records p) m) ps m =
      fold or_insert_rec (concat (map pg_records ps)) m" for m
    by (induction ps arbitrary: m) simp_all
  then show ?thesis by (simp add: merge_latest_def)
qed

lemma map_of_or_insert:
  "map_of (fold or_insert_rec rs m) k =
     (case map_of m k of Some r \<Rightarrow> Some r | None \<Rightarrow> map_of (map (\<lambda>r. (pr_key r, r)) rs) k)"
  by (induction rs arbitrary: m) (auto simp: or_insert_rec_def split: option.split)

lemma distinct_or_insert: "distinct (map fst m) \<Longrightarrow> distinct (map fst (fold or_insert_rec rs m))"
  by (induction rs arbitrary: m) (auto simp: or_insert_rec_def map_of_eq_None_iff)

lemma map_of_merge_latest:
  "map_of (merge_latest ps) = map_of (map (\<lambda>r. (pr_key r, r)) (concat (map pg_records ps)))"
  by (rule ext) (simp add: merge_latest_concat map_of_or_insert)

lemma merge_latest_key: "map_of (merge_latest ps) k = Some r \<Longrightarrow> pr_key r = k"
  by (auto simp: map_of_merge_latest dest: map_of_SomeD)

lemma map_of_record_entries:
  "map_of (map record_entry rs) k =
     map_option (\<lambda>r. snd (record_entry r)) (map_of (map (\<lambda>r. (pr_key r, r)) rs) k)"
  by (induction rs) (auto simp: record_entry_def)

definition kept :: "bool \<Rightarrow> page_record \<Rightarrow> bool" where
  "kept drop_tombstones r = (\<not> (drop_tombstones \<and> pr_tombstone r))"

lemma merge_pages_records:
  "pg_records (merge_pages ps d) =
     filter (kept d) (map (\<lambda>k. the (map_of (merge_latest ps) k)) (sort (map fst (merge_latest ps))))"
proof -
  let ?f = "\<lambda>key merged.
      case map_of (merge_latest ps) key of
        None \<Rightarrow> merged
      | Some r \<Rightarrow> if d \<and> pr_tombstone r then merged
                 else page_push (pr_key r) (pr_value r) (pr_tombstone r) merged"
  have "pg_records (fold ?f ks p) =
      pg_records p @ filter (kept d) (map (\<lambda>k. the (map_of (merge_latest ps) k)) ks)"
    if "set ks \<subseteq> fst ` set (merge_latest ps)" for ks p
    using that
  proof (induction ks arbitrary: p)
    case (Cons k ks)
    then have "map_of (merge_latest ps) k \<noteq> None" by (simp add: map_of_eq_None_iff)
    with Cons show ?case by (auto simp: page_push_def kept_def)
  qed simp
  from this [of "sort (map fst (merge_latest ps))" "page_new 1"] show ?thesis
    by (simp add: merge_pages_def Let_def page_new_def)
qed

lemma page_ok_merge [simp]: "page_ok (merge_pages ps d)"
proof -
  let ?ks = "sort (map fst (merge_latest ps))"
  have "map (\<lambda>k. pr_key (the (map_of (merge_latest ps) k))) ?ks = map (\<lambda>k. k) ?ks"
    by (rule map_cong) (auto simp: merge_latest_key dest!: weak_map_of_SomeI)
  then have "sorted_wrt (<) (map pr_key (map (\<lambda>k. the (map_of (merge_latest ps) k)) ?ks))"
    by (simp add: comp_def strict_sorted_iff merge_latest_concat distinct_or_insert)
  then show ?thesis
    unfolding page_ok_def merge_pages_records by (rule sorted_wrt_map_filter)
qed

lemma merge_pages_entry:
  assumes "\<forall>p \<in> set ps. page_ok p"
  shows "page_entry (merge_pages ps d) k =
    (case search_pages ps k of Some None \<Rightarrow> if d then None else Some None | e \<Rightarrow> e)"
proof -
  let ?L = "map_of (merge_latest ps)"
  have mem: "r \<in> set (pg_records (merge_pages ps d)) \<longleftrightarrow> ?L (pr_key r) = Some r \<and> kept d r" for r
  proof -
    have "r \<in> set (pg_records (merge_pages ps d)) \<longleftrightarrow> (\<exists>k \<in> dom ?L. r = the (?L k)) \<and> kept d r"
      by (auto simp: merge_pages_records dom_map_of_conv_image_fst)
    moreover have "(\<exists>k \<in> dom ?L. r = the (?L k)) \<longleftrightarrow> ?L (pr_key r) = Some r"
    proof
      assume "\<exists>k \<in> dom ?L. r = the (?L k)"
      then obtain k where k: "?L k = Some r" by auto
      moreover from k have "pr_key r = k" by (rule merge_latest_key)
      ultimately show "?L (pr_key r) = Some r" by simp
    next
      assume "?L (pr_key r) = Some r"
      then show "\<exists>k \<in> dom ?L. r = the (?L k)" by (intro bexI [of _ "pr_key r"]) auto
    qed
    ultimately show ?thesis by simp
  qed
  have char: "page_entry (merge_pages ps d) k = Some e \<longleftrightarrow>
      (\<exists>r. ?L k = Some r \<and> kept d r \<and> snd (record_entry r) = e)" for e
  proof -
    have "page_entry (merge_pages ps d) k = Some e \<longleftrightarrow>
        (k, e) \<in> record_entry ` set (pg_records (merge_pages ps d))"
      using page_keys_distinct [of "merge_pages ps d"]
      by (simp add: page_entry_map_of comp_def)
    also have "\<dots> \<longleftrightarrow> (\<exists>r. ?L k = Some r \<and> kept d r \<and> snd (record_entry r) = e)"
      unfolding image_iff Bex_def mem by (auto simp: record_entry_def dest: merge_latest_key)
    finally show ?thesis .
  qed
  have search: "search_pages ps k = map_option (\<lambda>r. snd (record_entry r)) (?L k)"
    unfolding search_pages_map_of [OF assms] map_of_record_entries map_of_merge_latest ..
  show ?thesis
  proof (cases "?L k")
    case None
    then have "page_entry (merge_pages ps d) k = None"
      using char by (cases "page_entry (merge_pages ps d) k") auto
    with None search show ?thesis by simp
  next
    case (Some r)
    have "page_entry (merge_pages ps d) k = (if kept d r then Some (snd (record_entry r)) else None)"
      using char Some by (cases "page_entry (merge_pages ps d) k") auto
    with Some search show ?thesis by (auto simp: kept_def record_entry_def)
  qed
qed

section \<open>Compaction steps\<close>

definition cm_ok :: "compaction_manager \<Rightarrow> bool" where
  "cm_ok cm = (cm_pages_ok cm \<and> length (cm_l1 cm) \<le> 1 \<and> length (cm_l2 cm) \<le> 1)"

lemma cm_ok_new [simp]: "cm_ok cm_new"
  by (simp add: cm_ok_def cm_pages_ok_def cm_new_def)

lemma rev_short: "length xs \<le> 1 \<Longrightarrow> rev xs = xs"
  by (cases xs) auto

lemma cm_ok_compact_l1: "cm_ok cm \<Longrightarrow> cm_ok (compact_l1_to_l2 cm)"
  by (simp add: cm_ok_def cm_pages_ok_def compact_l1_to_l2_def Let_def)

lemma cm_ok_compact_l0: "cm_ok cm \<Longrightarrow> cm_ok (compact_l0_to_l1 deflate cm)"
  by (simp add: cm_ok_def cm_pages_ok_def compact_l0_to_l1_def compact_l1_to_l2_def Let_def)

lemma cm_ok_add: "cm_ok cm \<Longrightarrow> page_ok p \<Longrightarrow> cm_ok (add_l0_page deflate p cm)"
  by (auto simp: add_l0_page_def Let_def intro!: cm_ok_compact_l0)
    (auto simp: cm_ok_def cm_pages_ok_def)

lemma resolve_merged:
  assumes "\<forall>p \<in> set ps. page_ok p"
  shows "resolve (search_pages [merge_pages ps d] k) (if d then None else b) =
    resolve (search_pages ps k) (if d then None else b)"
  by (simp add: search_pages_Cons merge_pages_entry [OF assms] split: option.split)

lemma cm_get_compact_l1:
  assumes "cm_ok cm"
  shows "cm_get (compact_l1_to_l2 cm) k = cm_get cm k"
proof -
  have ok: "\<forall>p \<in> set (cm_l1 cm @ cm_l2 cm). page_ok p"
    using assms by (auto simp: cm_ok_def cm_pages_ok_def)
  have "rev (cm_l1 cm) = cm_l1 cm" "rev (cm_l2 cm) = cm_l2 cm"
    using assms by (auto simp: cm_ok_def intro: rev_short)
  then show ?thesis
    using resolve_merged [OF ok, of True]
    by (simp add: cm_get_search resolve_search_append compact_l1_to_l2_def Let_def)
qed

text \<open>After a merge of L0 the oldest L0 page that knows a key decides.\<close>

lemma cm_get_compact_l0:
  assumes "cm_ok cm"
  shows "cm_get (compact_l0_to_l1 deflate cm) k =
    resolve (search_pages (cm_l0 cm @ cm_l1 cm @ cm_l2 cm) k) None"
proof -
  let ?m = "merge_pages (cm_l0 cm @ cm_l1 cm) False"
  let ?cm1 = "cm\<lparr>cm_l0 := [], cm_l1 := [?m], cm_compaction_count := cm_compaction_count cm + 1\<rparr>"
  have ok: "\<forall>p \<in> set (cm_l0 cm @ cm_l1 cm). page_ok p"
    using assms by (auto simp: cm_ok_def cm_pages_ok_def)
  have ok1: "cm_ok ?cm1"
    using assms by (auto simp: cm_ok_def cm_pages_ok_def)
  have "rev (cm_l2 cm) = cm_l2 cm"
    using assms by (auto simp: cm_ok_def intro: rev_short)
  then have "cm_get ?cm1 k = resolve (search_pages ([?m] @ cm_l2 cm) k) None"
    by (simp add: cm_get_search)
  also have "\<dots> = resolve (search_pages ((cm_l0 cm @ cm_l1 cm) @ cm_l2 cm) k) None"
    unfolding resolve_search_append [of "[_]"] resolve_search_append [of "_ @ _" "cm_l2 cm"]
    using resolve_merged [OF ok, of False] by simp
  finally have "cm_get ?cm1 k = resolve (search_pages (cm_l0 cm @ cm_l1 cm @ cm_l2 cm) k) None"
    by simp
  moreover have "cm_get (compact_l0_to_l1 deflate cm) k = cm_get ?cm1 k"
    using cm_get_compact_l1 [OF ok1] by (simp add: compact_l0_to_l1_def Let_def)
  ultimately show ?thesis by simp
qed

lemma search_pages_none: "(\<forall>p \<in> set ps. page_entry p k = None) \<Longrightarrow> search_pages ps k = None"
  by (induction ps) (simp_all add: search_pages_Cons)

lemma search_pages_rev_single:
  assumes "length (filter (\<lambda>p. page_entry p k \<noteq> None) ps) \<le> 1"
  shows "search_pages (rev ps) k = search_pages ps k"
  using assms
proof (induction ps)
  case (Cons p ps)
  show ?case
  proof (cases "page_entry p k")
    case None
    with Cons show ?thesis
      by (simp add: search_pages_append search_pages_Cons split: option.split)
  next
    case (Some e)
    with Cons.prems have "filter (\<lambda>p. page_entry p k \<noteq> None) ps = []" by simp
    then have "search_pages ps k = None" "search_pages (rev ps) k = None"
      by (auto simp: filter_empty_conv intro: search_pages_none)
    with Some show ?thesis
      by (simp add: search_pages_append search_pages_Cons)
  qed
qed simp

section \<open>Properties\<close>

text \<open>
  A merge of pages holds, in strictly increasing key order, exactly one record per key:
  the record of the first page in the list that has the key. When tombstones are dropped, the
  keys whose record is a tombstone are absent.
\<close>

theorem merge_pages_first_wins:
  assumes "\<forall>p \<in> set ps. page_ok p"
  shows "page_ok (merge_pages ps d) \<and>
    page_entry (merge_pages ps d) k =
      (case search_pages ps k of
         None \<Rightarrow> None
       | Some (Some v) \<Rightarrow> Some (Some v)
       | Some None \<Rightarrow> if d then None else Some None)"
  using merge_pages_entry [OF assms, of d k] by (simp split: option.split)

theorem merge_pages_first_wins_witness:
  "page_entry (merge_pages [sample_page, page_push [2] [9] False (page_new 0)] True) [2] = None"
proof -
  let ?ps = "[sample_page, page_push [2] [9] False (page_new 0)]"
  have ok: "\<forall>p \<in> set ?ps. page_ok p"
    by (simp add: sample_page_def page_push_def page_new_def page_ok_def)
  then have "search_pages ?ps [2] = Some None"
    by (simp only: search_pages_map_of) (simp add: sample_page_def page_push_def page_new_def
        record_entry_def)
  then show ?thesis
    using merge_pages_first_wins [OF ok, of True "[2]"] by simp
qed

text \<open>
  (C10) On a manager whose pages are sorted, the range scan over \<open>[s, e)\<close> is an ordered map
  that has, for every key in the range, exactly the value a point read returns, and nothing
  outside the range.
\<close>

theorem cm_scan_agrees_with_get:
  assumes "cm_pages_ok cm"
  shows "bt_ok (cm_scan cm s e) \<and>
    bt_get (cm_scan cm s e) k = (if s \<le> k \<and> k < e then cm_get cm k else None)"
  using bt_ok_cm_scan [of cm s e] cm_scan_get [OF assms, of s e k] by blast

theorem cm_scan_agrees_with_get_witness:
  "bt_get (cm_scan (add_l0_page (\<lambda>b. b) sample_page cm_new) [0] [9]) [1] =
     cm_get (add_l0_page (\<lambda>b. b) sample_page cm_new) [1]"
proof -
  have "cm_pages_ok (add_l0_page (\<lambda>b. b) sample_page cm_new)"
    by (simp add: cm_pages_ok_def add_l0_page_def cm_new_def L0_LIMIT_def page_ok_def
        sample_page_def page_push_def page_new_def)
  from cm_scan_agrees_with_get [OF this, of "[0]" "[9]" "[1]"] show ?thesis by simp
qed

text \<open>
  A newly flushed page shadows everything older, as long as adding it does not trigger a
  merge of L0.
\<close>

theorem add_l0_page_newest_wins:
  assumes "length (cm_l0 cm) < 3"
  shows "cm_get (add_l0_page deflate p cm) k = resolve (page_entry p k) (cm_get cm k)"
  using assms by (simp add: add_l0_page_def L0_LIMIT_def cm_get_search search_pages_Cons
      split: option.split)

theorem add_l0_page_newest_wins_witness:
  "cm_get (add_l0_page (\<lambda>b. b) (page_push [1] [5] False (page_new 0)) cm_new) [1] =
     resolve (page_entry (page_push [1] [5] False (page_new 0)) [1]) (cm_get cm_new [1])"
  by (rule add_l0_page_newest_wins) (simp add: cm_new_def)

text \<open>
  (C23) The flush that fills L0 triggers a merge, and afterwards a read returns the record of
  the oldest of the four L0 pages that has the key, not of the newest; only then of L1 and L2.
  Promotion of an oversized L1 to L2 does not change any read.
\<close>

theorem l0_compaction_oldest_wins:
  assumes "cm_ok cm" "page_ok p" "length (cm_l0 cm) = 3"
  shows "cm_get (add_l0_page deflate p cm) k =
    resolve (search_pages (cm_l0 cm @ [p] @ cm_l1 cm @ cm_l2 cm) k) None"
proof -
  have "cm_ok (cm\<lparr>cm_l0 := cm_l0 cm @ [p]\<rparr>)"
    using assms by (auto simp: cm_ok_def cm_pages_ok_def)
  from cm_get_compact_l0 [OF this] assms(3) show ?thesis
    by (simp add: add_l0_page_def L0_LIMIT_def)
qed

definition put_page :: "bytes \<Rightarrow> bytes \<Rightarrow> page" where
  "put_page k v = page_push k v False (page_new 0)"

lemma page_ok_put_page [simp]: "page_ok (put_page k v)"
  by (simp add: put_page_def page_ok_def page_push_def page_new_def)

lemma page_entry_put_page [simp]: "page_entry (put_page k v) k' = (if k' = k then Some (Some v) else None)"
  by (simp add: page_entry_map_of) (simp add: put_page_def page_push_def page_new_def record_entry_def)

definition three_writes :: compaction_manager where
  "three_writes = cm_new\<lparr>cm_l0 := [put_page [1] [10], put_page [1] [11], put_page [1] [12]]\<rparr>"

theorem l0_compaction_oldest_wins_witness:
  "cm_get three_writes [1] = Some [12] \<and>
   cm_get (add_l0_page (\<lambda>b. b) (put_page [1] [13]) three_writes) [1] = Some [10]"
proof -
  have ok: "cm_ok three_writes" "length (cm_l0 three_writes) = 3"
    by (simp_all add: three_writes_def cm_ok_def cm_pages_ok_def cm_new_def)
  from l0_compaction_oldest_wins [OF ok(1) page_ok_put_page ok(2), of "\<lambda>b. b" "[1]" "[13]" "[1]"]
  show ?thesis
    by (simp add: three_writes_def cm_new_def search_pages_Cons cm_get_search)
qed

text \<open>
  A merge of L0 changes no read of a key that at most one L0 page mentions.
\<close>

theorem l0_compaction_preserves_single:
  assumes "cm_ok cm" "length (filter (\<lambda>p. page_entry p k \<noteq> None) (cm_l0 cm)) \<le> 1"
  shows "cm_get (compact_l0_to_l1 deflate cm) k = cm_get cm k"
proof -
  have "rev (cm_l1 cm) = cm_l1 cm" "rev (cm_l2 cm) = cm_l2 cm"
    using assms by (auto simp: cm_ok_def intro: rev_short)
  then show ?thesis
    unfolding cm_get_compact_l0 [OF assms(1)] cm_get_search [of cm] resolve_search_append
      search_pages_rev_single [OF assms(2)] by simp
qed

theorem l0_compaction_preserves_single_witness:
  "cm_get (compact_l0_to_l1 (\<lambda>b. b) (cm_new\<lparr>cm_l0 := [put_page [1] [10], put_page [2] [20]]\<rparr>)) [2] =
     cm_get (cm_new\<lparr>cm_l0 := [put_page [1] [10], put_page [2] [20]]\<rparr>) [2]"
  by (rule l0_compaction_preserves_single)
    (simp_all add: cm_ok_def cm_pages_ok_def cm_new_def)

end
