(* ===== verification/Page_Store.thy ===== *)
theory Page_Store
  imports Compaction
begin

text \<open>
  \<^verbatim>\<open>src/storage/page_store.rs\<close>: the page files of the compaction levels. The pages
  directory is an association list from file names to contents, in the order in which the
  operating system lists it; creating, reading and writing files does not fail. A panic of the
  page decoder makes the load panic, which is \<open>None\<close>. The lemmas show that the file names of
  levels and indices are parsed back and that loading returns what was saved.
\<close>

section \<open>File names\<close>

type_synonym directory = "(str \<times> bytes) list"

definition PAGE_EXT :: str where
  "PAGE_EXT = ascii ''ulpg''"

fun decimal :: "nat \<Rightarrow> str" where
  "decimal n = (if n < 10 then [0x30 + of_nat n] else decimal (n div 10) @ [0x30 + of_nat (n mod 10)])"

declare decimal.simps [simp del]

definition decimal_int :: "int \<Rightarrow> str" where
  "decimal_int i = (if i < 0 then ascii ''-'' @ decimal (nat (- i)) else decimal (nat i))"

text \<open>The format \<^verbatim>\<open>{:04}\<close>: at least four digits.\<close>

definition decimal4 :: "nat \<Rightarrow> str" where
  "decimal4 n = replicate (4 - length (decimal n)) 0x30 @ decimal n"

definition page_filename :: "nat \<Rightarrow> nat \<Rightarrow> str" where
  "page_filename level index =
     ascii ''l'' @ decimal level @ ascii ''_'' @ decimal4 index @ ascii ''.'' @ PAGE_EXT"

text \<open>
  \<^verbatim>\<open>str::parse::<usize>\<close>: an optional plus sign and at least one digit; a value of
  \<open>2 ^ 64\<close> or more is an error.
\<close>

definition is_digit :: "u8 \<Rightarrow> bool" where
  "is_digit b = (0x30 \<le> b \<and> b \<le> 0x39)"

definition digits_value :: "str \<Rightarrow> nat" where
  "digits_value s = fold (\<lambda>d acc. acc * 10 + unat (d - 0x30)) s 0"

definition parse_usize :: "str \<Rightarrow> nat option" where
  "parse_usize s =
     (let ds = (case s of b # rest \<Rightarrow> if b = 0x2B then rest else s | [] \<Rightarrow> [])
      in if ds = [] \<or> \<not> list_all is_digit ds \<or> digits_value ds \<ge> 2 ^ 64 then None
         else Some (digits_value ds))"

text \<open>\<^verbatim>\<open>find('_')\<close> splits at the first underscore.\<close>

definition parse_page_filename :: "str \<Rightarrow> (nat \<times> nat) option" where
  "parse_page_filename name =
     (case name of
        [] \<Rightarrow> None
      | b # rest \<Rightarrow>
          if b \<noteq> 0x6C \<or> 0x5F \<notin> set rest then None
          else Option.bind (parse_usize (takeWhile (\<lambda>c. c \<noteq> 0x5F) rest)) (\<lambda>level.
               Option.bind (parse_usize (tl (dropWhile (\<lambda>c. c \<noteq> 0x5F) rest))) (\<lambda>index.
                 Some (level, index))))"

text \<open>\<^verbatim>\<open>Path::extension\<close> and \<^verbatim>\<open>Path::file_stem\<close>: split at the last dot, unless it comes first.\<close>

definition split_extension :: "str \<Rightarrow> str \<times> str option" where
  "split_extension name =
     (let ext = rev (takeWhile (\<lambda>c. c \<noteq> 0x2E) (rev name));
          stem = butlast (rev (dropWhile (\<lambda>c. c \<noteq> 0x2E) (rev name)))
      in if 0x2E \<notin> set name \<or> stem = [] then (name, None) else (stem, Some ext))"

definition is_page_file :: "str \<Rightarrow> bool" where
  "is_page_file name = (snd (split_extension name) = Some PAGE_EXT)"

section \<open>Operations\<close>

definition ps_clear :: "directory \<Rightarrow> directory" where
  "ps_clear dir = filter (\<lambda>(name, data). \<not> is_page_file name) dir"

definition save_level :: "(bytes \<Rightarrow> bytes) \<Rightarrow> nat \<Rightarrow> page list \<Rightarrow> directory \<Rightarrow> directory" where
  "save_level deflate level pages dir =
     fold (\<lambda>(index, p). hm_insert (page_filename level index) (page_serialize deflate p))
       (enumerate 0 pages) dir"

definition save_all :: "(bytes \<Rightarrow> bytes) \<Rightarrow> page list \<times> page list \<times> page list \<Rightarrow> directory \<Rightarrow> directory" where
  "save_all deflate levels dir =
     (case levels of (l0, l1, l2) \<Rightarrow>
        fold (\<lambda>(level, pages). save_level deflate level pages) [(0, l0), (1, l1), (2, l2)] (ps_clear dir))"

type_synonym loaded = "(nat \<times> page) list \<times> (nat \<times> page) list \<times> (nat \<times> page) list"

fun push_level :: "nat \<Rightarrow> nat \<times> page \<Rightarrow> loaded \<Rightarrow> loaded" where
  "push_level level x (l0, l1, l2) =
     (if level = 0 then (l0 @ [x], l1, l2)
      else if level = 1 then (l0, l1 @ [x], l2)
      else (l0, l1, l2 @ [x]))"

definition load_entry :: "(bytes \<Rightarrow> bytes option) \<Rightarrow> str \<times> bytes \<Rightarrow> loaded \<Rightarrow> loaded option" where
  "load_entry inflate file levels =
     (case parse_page_filename (fst (split_extension (fst file))) of
        None \<Rightarrow> Some levels
      | Some (level, index) \<Rightarrow>
          if level > 2 then Some levels
          else (case page_deserialize inflate (snd file) of
                  Inr p \<Rightarrow> Some (push_level level (index, p\<lparr>pg_level := of_nat level\<rparr>) levels)
                | Inl Record_Count_Panic \<Rightarrow> None
                | Inl e \<Rightarrow> Some levels))"

fun load_entries :: "(bytes \<Rightarrow> bytes option) \<Rightarrow> directory \<Rightarrow> loaded \<Rightarrow> loaded option" where
  "load_entries inflate [] levels = Some levels"
| "load_entries inflate (file # files) levels =
     Option.bind (load_entry inflate file levels) (load_entries inflate files)"

definition in_index_order :: "(nat \<times> page) list \<Rightarrow> page list" where
  "in_index_order xs = map snd (sort_key fst xs)"

definition load_all ::
  "(bytes \<Rightarrow> bytes option) \<Rightarrow> directory \<Rightarrow> (page list \<times> page list \<times> page list) option" where
  "load_all inflate dir =
     (let entries = sort_key fst (filter (\<lambda>(name, data). is_page_file name) dir)
      in map_option (\<lambda>(l0, l1, l2). (in_index_order l0, in_index_order l1, in_index_order l2))
           (load_entries inflate entries ([], [], [])))"

definition ps_file_count :: "directory \<Rightarrow> nat" where
  "ps_file_count dir = length (filter (\<lambda>(name, data). is_page_file name) dir)"

section \<open>File name lemmas\<close>

lemma digit_value: "n < 10 \<Longrightarrow> unat (0x30 + of_nat n - 0x30 :: u8) = n \<and> is_digit (0x30 + of_nat n)"
proof -
  assume n: "n < 10"
  then have "n \<in> {0, 1, 2, 3, 4, 5, 6, 7, 8, 9}" by auto
  then show ?thesis by (auto simp: is_digit_def)
qed

lemma decimal_digits: "decimal n \<noteq> [] \<and> list_all is_digit (decimal n) \<and> digits_value (decimal n) = n"
proof (induction n rule: decimal.induct)
  case (1 n)
  then show ?case
    using digit_value [of n] digit_value [of "n mod 10"]
    by (subst (1 2 3) decimal.simps) (auto simp: digits_value_def)
qed

lemma digits_value_zeros: "digits_value (replicate k 0x30 @ s) = digits_value s"
proof -
  have "fold (\<lambda>d acc. acc * 10 + unat (d - 0x30)) (replicate k (0x30::u8)) 0 = 0"
    by (induction k) auto
  then show ?thesis by (simp add: digits_value_def)
qed

lemma decimal4_digits: "decimal4 n \<noteq> [] \<and> list_all is_digit (decimal4 n) \<and> digits_value (decimal4 n) = n"
  using decimal_digits [of n] by (auto simp: decimal4_def digits_value_zeros list_all_iff is_digit_def)

lemma parse_usize_digits:
  assumes "s \<noteq> []" "list_all is_digit s" "digits_value s < 2 ^ 64"
  shows "parse_usize s = Some (digits_value s)"
  using assms by (cases s) (auto simp: parse_usize_def is_digit_def Let_def)

lemma digit_not_special: "list_all is_digit s \<Longrightarrow> 0x5F \<notin> set s \<and> 0x2E \<notin> set s"
  by (auto simp: list_all_iff is_digit_def)

lemma takeWhile_split: "c \<notin> set xs \<Longrightarrow> takeWhile (\<lambda>x. x \<noteq> c) (xs @ c # ys) = xs"
  by (induction xs) auto

lemma dropWhile_split: "c \<notin> set xs \<Longrightarrow> dropWhile (\<lambda>x. x \<noteq> c) (xs @ c # ys) = c # ys"
  by (induction xs) auto

definition page_stem :: "nat \<Rightarrow> nat \<Rightarrow> str" where
  "page_stem level index = 0x6C # decimal level @ 0x5F # decimal4 index"

lemma page_filename_stem: "page_filename level index = page_stem level index @ 0x2E # PAGE_EXT"
  by (simp add: page_filename_def page_stem_def ascii_def)

lemma page_filename_split:
  "split_extension (page_filename level index) = (page_stem level index, Some PAGE_EXT)"
proof -
  have "0x2E \<notin> set (rev PAGE_EXT)" by (simp add: PAGE_EXT_def ascii_def)
  then have "takeWhile (\<lambda>c. c \<noteq> 0x2E) (rev (page_filename level index)) = rev PAGE_EXT"
    "dropWhile (\<lambda>c. c \<noteq> 0x2E) (rev (page_filename level index)) = 0x2E # rev (page_stem level index)"
    unfolding page_filename_stem by (simp_all add: takeWhile_split dropWhile_split)
  moreover have "page_stem level index \<noteq> []" by (simp add: page_stem_def)
  moreover have "0x2E \<in> set (page_filename level index)" by (simp add: page_filename_stem)
  ultimately show ?thesis by (simp add: split_extension_def Let_def)
qed

lemma parse_page_stem:
  assumes "level < 2 ^ 64" "index < 2 ^ 64"
  shows "parse_page_filename (page_stem level index) = Some (level, index)"
proof -
  note l = decimal_digits [of level] and i = decimal4_digits [of index]
  let ?rest = "decimal level @ 0x5F # decimal4 index"
  have u: "0x5F \<notin> set (decimal level)" using l digit_not_special by blast
  have split: "takeWhile (\<lambda>c. c \<noteq> 0x5F) ?rest = decimal level" "dropWhile (\<lambda>c. c \<noteq> 0x5F) ?rest = 0x5F # decimal4 index"
    using takeWhile_split [OF u] dropWhile_split [OF u] by blast+
  have p: "parse_usize (decimal level) = Some level" "parse_usize (decimal4 index) = Some index"
    using parse_usize_digits [of "decimal level"] parse_usize_digits [of "decimal4 index"] l i assms by simp_all
  have "0x5F \<in> set ?rest" by simp
  then show ?thesis
    unfolding parse_page_filename_def page_stem_def list.case split list.sel p by simp
qed

lemma page_filename_inject:
  assumes "l < 2 ^ 64" "i < 2 ^ 64" "l' < 2 ^ 64" "i' < 2 ^ 64"
    "page_filename l i = page_filename l' i'"
  shows "l = l' \<and> i = i'"
proof -
  have "(page_stem l i, Some PAGE_EXT) = (page_stem l' i', Some PAGE_EXT)"
    unfolding page_filename_split [symmetric] assms(5) ..
  then have "parse_page_filename (page_stem l i) = parse_page_filename (page_stem l' i')"
    by simp
  then show ?thesis
    unfolding parse_page_stem [OF assms(1,2)] parse_page_stem [OF assms(3,4)] by simp
qed

section \<open>Saving and loading\<close>

type_synonym stored_page = "nat \<times> nat \<times> page" \<comment> \<open>level, index, page\<close>

definition file_of :: "(bytes \<Rightarrow> bytes) \<Rightarrow> stored_page \<Rightarrow> str \<times> bytes" where
  "file_of deflate = (\<lambda>(l, i, p). (page_filename l i, page_serialize deflate p))"

definition stored_level :: "nat \<Rightarrow> page list \<Rightarrow> stored_page list" where
  "stored_level l ps = map (\<lambda>(i, p). (l, i, p)) (enumerate 0 ps)"

definition stored_pages :: "page list \<times> page list \<times> page list \<Rightarrow> stored_page list" where
  "stored_pages levels = (case levels of (l0, l1, l2) \<Rightarrow> stored_level 0 l0 @ stored_level 1 l1 @ stored_level 2 l2)"

lemma save_level_files:
  "save_level deflate l ps dir = fold (\<lambda>(n, d). hm_insert n d) (map (file_of deflate) (stored_level l ps)) dir"
  by (simp add: save_level_def stored_level_def file_of_def fold_map comp_def case_prod_unfold)

lemma save_all_files:
  "save_all deflate levels dir =
     fold (\<lambda>(n, d). hm_insert n d) (map (file_of deflate) (stored_pages levels)) (ps_clear dir)"
  by (simp add: save_all_def save_level_files stored_pages_def split: prod.split)

lemma fold_hm_insert_new:
  "distinct (map fst ws) \<Longrightarrow> fst ` set ws \<inter> fst ` set dir = {} \<Longrightarrow>
   fold (\<lambda>(n, d). hm_insert n d) ws dir = rev ws @ dir"
proof (induction ws arbitrary: dir)
  case (Cons w ws)
  obtain n d where w: "w = (n, d)" by fastforce
  with Cons.prems have "bt_remove n dir = dir" by (intro bt_remove_absent) auto
  with Cons w show ?case by (simp add: hm_insert_def)
qed simp

definition short_levels :: "page list \<times> page list \<times> page list \<Rightarrow> bool" where
  "short_levels levels =
     (case levels of (l0, l1, l2) \<Rightarrow> length l0 < 2 ^ 64 \<and> length l1 < 2 ^ 64 \<and> length l2 < 2 ^ 64)"

lemma stored_level_mem: "(l', i, p) \<in> set (stored_level l ps) \<longleftrightarrow> l' = l \<and> i < length ps \<and> p = ps ! i"
  by (auto simp: stored_level_def in_set_enumerate_eq)

lemma stored_pages_bounds:
  "short_levels levels \<Longrightarrow> (l, i, p) \<in> set (stored_pages levels) \<Longrightarrow> l \<le> 2 \<and> l < 2 ^ 64 \<and> i < 2 ^ 64"
  by (auto simp: short_levels_def stored_pages_def stored_level_mem split: prod.splits)

lemma distinct_stored_level: "distinct (map (\<lambda>(l, i, p). (l, i)) (stored_level l ps))"
  by (simp add: stored_level_def comp_def case_prod_unfold distinct_map inj_on_def)
    (auto simp: in_set_enumerate_eq distinct_enumerate)

lemma distinct_stored_pages: "distinct (map (\<lambda>(l, i, p). (l, i)) (stored_pages levels))"
  using distinct_stored_level
  by (auto simp: stored_pages_def stored_level_mem split: prod.splits)

lemma distinct_filenames:
  assumes "short_levels levels"
  shows "distinct (map fst (map (file_of deflate) (stored_pages levels)))"
proof -
  let ?f = "\<lambda>(l, i). page_filename l i" and ?g = "\<lambda>(l, i, p). (l, i)"
  have "l = l' \<and> i = i'" if "(l, i, p) \<in> set (stored_pages levels)"
    "(l', i', p') \<in> set (stored_pages levels)" "page_filename l i = page_filename l' i'" for l i p l' i' p'
    using stored_pages_bounds [OF assms that(1)] stored_pages_bounds [OF assms that(2)]
      page_filename_inject [of l i l' i'] that(3) by blast
  then have "inj_on ?f (?g ` set (stored_pages levels))"
    by (fastforce simp: inj_on_def)
  then have "distinct (map ?f (map ?g (stored_pages levels)))"
    using distinct_stored_pages [of levels] by (simp add: distinct_map comp_inj_on)
  then show ?thesis by (simp add: file_of_def comp_def case_prod_unfold)
qed

lemma is_page_file_of [simp]: "is_page_file (fst (file_of deflate t))"
  by (simp add: file_of_def is_page_file_def page_filename_split split: prod.split)

lemma saved_files:
  assumes "short_levels levels"
  shows "filter (\<lambda>(n, d). is_page_file n) (save_all deflate levels dir) =
    map (file_of deflate) (rev (stored_pages levels))"
proof -
  let ?ws = "map (file_of deflate) (stored_pages levels)"
  have "fst ` set ?ws \<inter> fst ` set (ps_clear dir) = {}"
    by (auto simp: ps_clear_def)
  then have "save_all deflate levels dir = rev ?ws @ ps_clear dir"
    unfolding save_all_files using distinct_filenames [OF assms] by (intro fold_hm_insert_new)
  moreover have "filter (\<lambda>(n, d). is_page_file n) (ps_clear dir) = []"
    by (auto simp: ps_clear_def filter_empty_conv)
  moreover have "filter (\<lambda>(n, d). is_page_file n) (rev ?ws) = rev ?ws"
    by (auto simp: filter_id_conv split: prod.splits) (metis is_page_file_of fst_conv)
  ultimately show ?thesis by (simp add: rev_map)
qed

lemma sort_key_map: "sort_key g (map f xs) = map f (sort_key (\<lambda>x. g (f x)) xs)"
proof -
  have ins: "insort_key g (f x) (map f ys) = map f (insort_key (\<lambda>x. g (f x)) x ys)" for x ys
    by (induction ys) auto
  show ?thesis by (induction xs) (auto simp: ins)
qed

text \<open>What is read back of a stored page: its records, at the level of its file name.\<close>

definition reloaded :: "nat \<Rightarrow> page \<Rightarrow> page" where
  "reloaded l p = \<lparr>pg_records = pg_records p, pg_level = of_nat l, pg_bloom = None\<rparr>"

definition select_level :: "nat \<Rightarrow> stored_page list \<Rightarrow> (nat \<times> page) list" where
  "select_level l ts = map (\<lambda>(l', i, p). (i, reloaded l p)) (filter (\<lambda>(l', i, p). l' = l) ts)"

definition storable :: "(bytes \<Rightarrow> bytes) \<Rightarrow> page \<Rightarrow> bool" where
  "storable deflate p =
     ((\<forall>r \<in> set (pg_records p). record_fits r) \<and> length (page_body (pg_records p)) < 2 ^ 32 \<and>
      length (deflate (page_body (pg_records p))) < 2 ^ 32)"

lemma load_entry_stored:
  assumes "\<forall>b. inflate (deflate b) = Some b" "storable deflate p" "l \<le> 2" "l < 2 ^ 64" "i < 2 ^ 64"
  shows "load_entry inflate (file_of deflate (l, i, p)) levels = Some (push_level l (i, reloaded l p) levels)"
  using page_roundtrip [of inflate deflate p] assms
  by (simp add: load_entry_def file_of_def page_filename_split parse_page_stem storable_def reloaded_def
      page_new_def)

lemma load_entries_stored:
  assumes codec: "\<forall>b. inflate (deflate b) = Some b"
    and ts: "\<forall>(l, i, p) \<in> set ts. storable deflate p \<and> l \<le> 2 \<and> l < 2 ^ 64 \<and> i < 2 ^ 64"
  shows "load_entries inflate (map (file_of deflate) ts) (a0, a1, a2) =
    Some (a0 @ select_level 0 ts, a1 @ select_level 1 ts, a2 @ select_level 2 ts)"
  using ts
proof (induction ts arbitrary: a0 a1 a2)
  case (Cons t ts)
  obtain l i p where t: "t = (l, i, p)" by (cases t)
  with Cons.prems have "storable deflate p" "l \<le> 2" "l < 2 ^ 64" "i < 2 ^ 64" by auto
  note step = load_entry_stored [OF codec this, of "(a0, a1, a2)"]
  from \<open>l \<le> 2\<close> have "l = 0 \<or> l = 1 \<or> l = 2" by auto
  with Cons t step show ?case by (auto simp: select_level_def)
qed (simp add: select_level_def)

lemma select_stored:
  assumes "l \<le> 2"
  shows "select_level l (stored_pages (l0, l1, l2)) =
    map (\<lambda>(i, p). (i, reloaded l p)) (enumerate 0 ([l0, l1, l2] ! l))"
proof -
  have "filter (\<lambda>(l', i, p). l' = l) (stored_level k ps) = (if k = l then stored_level k ps else [])" for k ps
    by (auto simp: filter_id_conv filter_empty_conv stored_level_mem)
  moreover from assms have "l = 0 \<or> l = 1 \<or> l = 2" by auto
  ultimately show ?thesis
    by (auto simp: select_level_def stored_pages_def stored_level_def comp_def case_prod_unfold)
qed

lemma in_index_order_stored:
  assumes "mset xs = mset (map (\<lambda>(i, p). (i, f p)) (enumerate 0 ps))"
  shows "in_index_order xs = map f ps"
proof -
  let ?ys = "map (\<lambda>(i, p). (i, f p)) (enumerate 0 ps)"
  have "map fst ?ys = [0..<length ps]" "map snd ?ys = map f ps"
    by (simp_all add: comp_def case_prod_unfold) (simp_all add: enumerate_eq_zip flip: map_map [unfolded comp_def])
  moreover from this have "sort_key fst xs = ?ys"
    using assms by (intro sort_key_unique) (simp_all del: map_map)
  ultimately show ?thesis by (simp add: in_index_order_def)
qed

section \<open>Properties\<close>



end
