(* ===== verification/Bg_Compaction.thy ===== *)
theory Bg_Compaction
  imports Page_Store
begin

text \<open>
  \<^verbatim>\<open>src/storage/bg_compaction.rs\<close>: the worker thread that takes flushed pages from a
  channel, adds them to the compaction levels and saves all pages. The state is the channel's
  content, the levels behind their lock, and the pages directory; one worker step handles one
  message while it holds the lock. The channel is unbounded and its receiver lives as long as
  the engine, so that a submit does not fail.
\<close>

section \<open>Definitions\<close>

record compactor =
  bg_queue :: "page list"
  bg_cm :: compaction_manager
  bg_dir :: "directory option"

definition bg_new :: "directory option \<Rightarrow> compactor" where
  "bg_new dir = \<lparr>bg_queue = [], bg_cm = cm_new, bg_dir = dir\<rparr>"

definition bg_submit :: "page \<Rightarrow> compactor \<Rightarrow> compactor" where
  "bg_submit p c = c\<lparr>bg_queue := bg_queue c @ [p]\<rparr>"

definition all_pages :: "compaction_manager \<Rightarrow> page list \<times> page list \<times> page list" where
  "all_pages cm = (cm_l0 cm, cm_l1 cm, cm_l2 cm)"

definition bg_worker :: "(bytes \<Rightarrow> bytes) \<Rightarrow> compactor \<Rightarrow> compactor" where
  "bg_worker deflate c =
     (case bg_queue c of
        [] \<Rightarrow> c
      | p # rest \<Rightarrow>
          (let cm = add_l0_page deflate p (bg_cm c)
           in \<lparr>bg_queue = rest, bg_cm = cm, bg_dir = map_option (save_all deflate (all_pages cm)) (bg_dir c)\<rparr>))"

text \<open>
  Shutting down sends the last message and joins the thread, which handles everything queued
  before it.
\<close>

definition bg_drain :: "(bytes \<Rightarrow> bytes) \<Rightarrow> compactor \<Rightarrow> compactor" where
  "bg_drain deflate c = (bg_worker deflate ^^ length (bg_queue c)) c"

section \<open>Lemmas\<close>

lemma bg_worker_queue: "bg_queue (bg_worker deflate c) = tl (bg_queue c)"
  by (simp add: bg_worker_def Let_def split: list.split)

lemma bg_worker_cm:
  "bg_cm (bg_worker deflate c) =
     (case bg_queue c of [] \<Rightarrow> bg_cm c | p # rest \<Rightarrow> add_l0_page deflate p (bg_cm c))"
  by (simp add: bg_worker_def Let_def split: list.split)

lemma bg_iterate:
  "n \<le> length (bg_queue c) \<Longrightarrow>
   bg_queue ((bg_worker deflate ^^ n) c) = drop n (bg_queue c) \<and>
   bg_cm ((bg_worker deflate ^^ n) c) = fold (add_l0_page deflate) (take n (bg_queue c)) (bg_cm c)"
proof (induction n)
  case (Suc n)
  then have "drop n (bg_queue c) = bg_queue c ! n # drop (Suc n) (bg_queue c)"
    by (simp add: Cons_nth_drop_Suc)
  with Suc show ?case
    by (simp add: bg_worker_queue bg_worker_cm take_Suc_conv_app_nth)
qed simp

lemma bg_drain_state:
  "bg_queue (bg_drain deflate c) = []"
  "bg_cm (bg_drain deflate c) = fold (add_l0_page deflate) (bg_queue c) (bg_cm c)"
  using bg_iterate [of "length (bg_queue c)" c deflate] by (simp_all add: bg_drain_def)

end
