(* ===== verification/Hamt.thy ===== *)
theory Hamt
  imports Fnv
begin

text \<open>
  \<^verbatim>\<open>src/tx/hamt.rs\<close>: the persistent hash array mapped trie. A node owns its children, so
  that sharing through \<^verbatim>\<open>Arc\<close> is value sharing: old roots are old values. Shifts are
  those of a release build, where the shift amount is taken modulo the width. Insertion
  recurses without bound when two different keys have the same 64-bit hash, so it is a partial
  function and \<open>None\<close> means that the call does not return. An index into the children that is
  out of range panics in Rust; \<open>sparse_index_lt\<close> shows that it does not happen on well-formed
  nodes. The lemmas show that a trie is the finite map of its leaves, for every operation, and
  exactly when insertion returns.
\<close>

section \<open>Nodes\<close>

definition BITS_PER_LEVEL :: nat where
  "BITS_PER_LEVEL = 5"

definition BRANCHING :: nat where
  "BRANCHING = 2 ^ BITS_PER_LEVEL"

definition MASK :: u64 where
  "MASK = of_nat BRANCHING - 1"

datatype node =
    Leaf u64 bytes bytes
  | Branch u32 "node list"

definition bit_index :: "u64 \<Rightarrow> nat \<Rightarrow> nat" where
  "bit_index hash level = unat (drop_bit (level * BITS_PER_LEVEL mod 64) hash AND MASK)"

definition count_ones :: "u32 \<Rightarrow> nat" where
  "count_ones w = length (filter (bit w) [0..<32])"

definition sparse_index :: "u32 \<Rightarrow> nat \<Rightarrow> nat" where
  "sparse_index bitmap b = (let m = push_bit b 1 - 1 in count_ones (bitmap AND m))"

lemma size_child [termination_simp]: "i < length cs \<Longrightarrow> size (cs ! i) < Suc (size_list size cs)"
  using size_list_estimation' [OF nth_mem order_refl] by (metis less_Suc_eq_le)

fun node_get :: "node \<Rightarrow> u64 \<Rightarrow> bytes \<Rightarrow> nat \<Rightarrow> bytes option" where
  "node_get (Leaf h k value) hash key level = (if k = key then Some value else None)"
| "node_get (Branch bitmap children) hash key level =
     (let b = bit_index hash level; flag = push_bit b 1
      in if bitmap AND flag = 0 then None
         else let idx = sparse_index bitmap b
              in if idx < length children then node_get (children ! idx) hash key (level + 1)
                 else None)"

partial_function (option) insert_node ::
  "node option \<Rightarrow> u64 \<Rightarrow> bytes \<Rightarrow> bytes \<Rightarrow> nat \<Rightarrow> node option" where
  "insert_node nd hash key value level =
     (case nd of
        None \<Rightarrow> Some (Leaf hash key value)
      | Some n \<Rightarrow>
        (case n of
           Leaf existing_hash existing_key existing_value \<Rightarrow>
             if existing_key = key then Some (Leaf hash key value)
             else
               (let old_bit = bit_index existing_hash level; new_bit = bit_index hash level
                in if old_bit = new_bit
                   then Option.bind (insert_node (Some n) hash key value (level + 1))
                     (\<lambda>deeper. Some (Branch (push_bit old_bit 1) [deeper]))
                   else let new_leaf = Leaf hash key value
                        in Some (Branch (push_bit old_bit 1 OR push_bit new_bit 1)
                             (if old_bit < new_bit then [n, new_leaf] else [new_leaf, n])))
         | Branch bitmap children \<Rightarrow>
             (let b = bit_index hash level; flag = push_bit b 1; idx = sparse_index bitmap b
              in if bitmap AND flag = 0
                 then Some (Branch (bitmap OR flag)
                        (take idx children @ Leaf hash key value # drop idx children))
                 else Option.bind (insert_node (Some (children ! idx)) hash key value (level + 1))
                        (\<lambda>child. Some (Branch bitmap (children[idx := child]))))))"

fun remove_node :: "node \<Rightarrow> u64 \<Rightarrow> bytes \<Rightarrow> nat \<Rightarrow> node option" where
  "remove_node (Leaf h k v) hash key level = (if k = key then None else Some (Leaf h k v))"
| "remove_node (Branch bitmap children) hash key level =
     (let b = bit_index hash level; flag = push_bit b 1
      in if bitmap AND flag = 0 then Some (Branch bitmap children)
         else let idx = sparse_index bitmap b
              in if idx < length children
                 then (case remove_node (children ! idx) hash key (level + 1) of
                         None \<Rightarrow>
                           if length children = 1 then None
                           else Some (Branch (bitmap AND NOT flag)
                                  (take idx children @ drop (Suc idx) children))
                       | Some child \<Rightarrow> Some (Branch bitmap (children[idx := child])))
                 else None)"

fun collect_leaves :: "node \<Rightarrow> (bytes \<times> bytes) list" where
  "collect_leaves (Leaf h k v) = [(k, v)]"
| "collect_leaves (Branch bitmap children) = concat (map collect_leaves children)"

section \<open>The map\<close>

record hamt =
  hamt_root :: "node option"
  hamt_len :: nat

definition hamt_new :: hamt where
  "hamt_new = \<lparr>hamt_root = None, hamt_len = 0\<rparr>"

definition hamt_get :: "hamt \<Rightarrow> bytes \<Rightarrow> bytes option" where
  "hamt_get h key =
     (case hamt_root h of None \<Rightarrow> None | Some n \<Rightarrow> node_get n (fnv1a key) key 0)"

definition hamt_put :: "bytes \<Rightarrow> bytes \<Rightarrow> hamt \<Rightarrow> hamt option" where
  "hamt_put key value h =
     (let hash = fnv1a key; existed = (hamt_get h key \<noteq> None)
      in Option.bind (insert_node (hamt_root h) hash key value 0)
           (\<lambda>new_root. Some \<lparr>hamt_root = Some new_root,
              hamt_len = (if existed then hamt_len h else hamt_len h + 1)\<rparr>))"

definition hamt_delete :: "bytes \<Rightarrow> hamt \<Rightarrow> hamt" where
  "hamt_delete key h =
     (if hamt_get h key = None then h
      else let hash = fnv1a key;
               new_root = (case hamt_root h of None \<Rightarrow> None | Some n \<Rightarrow> remove_node n hash key 0)
           in \<lparr>hamt_root = new_root, hamt_len = hamt_len h - 1\<rparr>)"

definition hamt_snapshot :: "hamt \<Rightarrow> hamt" where
  "hamt_snapshot h = h"

definition hamt_iter :: "hamt \<Rightarrow> (bytes \<times> bytes) list" where
  "hamt_iter h = (case hamt_root h of None \<Rightarrow> [] | Some n \<Rightarrow> collect_leaves n)"

definition hamt_merge_from :: "hamt \<Rightarrow> hamt \<Rightarrow> hamt option" where
  "hamt_merge_from h other = put_all hamt_put (hamt_iter other) h"

section \<open>Sparse child arrays\<close>

lemma MASK_31: "MASK = 31"
  by (simp add: MASK_def BRANCHING_def BITS_PER_LEVEL_def)

lemma bit_index_less: "bit_index h l < 32"
proof -
  have "drop_bit n h AND 31 < 32" for n
    using and_mask_less_size [of 5 "drop_bit n h"] by (simp add: mask_eq_exp_minus_1 word_size)
  then show ?thesis
    by (simp add: bit_index_def MASK_31 word_less_nat_alt)
qed

definition bits_of :: "u32 \<Rightarrow> nat list" where
  "bits_of w = filter (bit w) [0..<32]"

lemma count_ones_bits: "count_ones w = length (bits_of w)"
  by (simp add: count_ones_def bits_of_def)

lemma upt_split: "b < n \<Longrightarrow> [0..<n] = [0..<b] @ b # [Suc b..<n]"
  by (induction n) (auto simp: less_Suc_eq)

lemma sparse_index_filter: "b < 32 \<Longrightarrow> sparse_index w b = length (filter (bit w) [0..<b])"
proof -
  assume b: "b < 32"
  have "push_bit b (1::u32) - 1 = mask b"
    by (simp add: mask_eq_exp_minus_1 push_bit_of_1)
  then have and_mask: "bit (w AND (push_bit b 1 - 1)) = (\<lambda>i. bit w i \<and> i < b)"
    using b by (auto simp: fun_eq_iff bit_and_iff bit_mask_iff dest: bit_imp_possible_bit)
  have "filter (\<lambda>i. bit w i \<and> i < b) [0..<32] = filter (bit w) [0..<b]"
    unfolding upt_split [OF b] by (auto simp: filter_empty_conv intro!: filter_cong)
  then show ?thesis
    unfolding sparse_index_def count_ones_def Let_def and_mask by simp
qed

lemma flag_clear_iff [simp]: "(w::u32) AND 2 ^ b = 0 \<longleftrightarrow> \<not> bit w b"
  by (rule and_exp_eq_0_iff_not_bit)

text \<open>A set bit splits the list of set bits at its sparse index, a clear bit inserts there.\<close>

lemma bits_split_set:
  assumes "b < 32" "bit w b"
  obtains as bs where "bits_of w = as @ b # bs" "length as = sparse_index w b"
    "bits_of (w AND NOT (push_bit b 1)) = as @ bs" "b \<notin> set as" "b \<notin> set bs"
proof
  let ?as = "filter (bit w) [0..<b]" and ?bs = "filter (bit w) [Suc b..<32]"
  show "bits_of w = ?as @ b # ?bs"
    using assms by (simp add: bits_of_def upt_split)
  show "length ?as = sparse_index w b"
    using assms by (simp add: sparse_index_filter)
  have "bit (w AND NOT (push_bit b 1)) i \<longleftrightarrow> bit w i \<and> i \<noteq> b" if "i < 32" for i
    using that by (auto simp: bit_simps)
  then show "bits_of (w AND NOT (push_bit b 1)) = ?as @ ?bs"
    using assms by (simp add: bits_of_def upt_split) (auto intro!: arg_cong2 [where f = append] filter_cong)
  show "b \<notin> set ?as" "b \<notin> set ?bs" by auto
qed

lemma bits_split_clear:
  assumes "b < 32" "\<not> bit w b"
  obtains as bs where "bits_of w = as @ bs" "length as = sparse_index w b"
    "bits_of (w OR push_bit b 1) = as @ b # bs" "b \<notin> set as" "b \<notin> set bs"
proof
  let ?as = "filter (bit w) [0..<b]" and ?bs = "filter (bit w) [Suc b..<32]"
  show "bits_of w = ?as @ ?bs"
    using assms by (simp add: bits_of_def upt_split)
  show "length ?as = sparse_index w b"
    using assms by (simp add: sparse_index_filter)
  have "bit (w OR push_bit b 1) i \<longleftrightarrow> bit w i \<or> i = b" if "i < 32" for i
    using that by (auto simp: bit_simps)
  then show "bits_of (w OR push_bit b 1) = ?as @ b # ?bs"
    using assms by (simp add: bits_of_def upt_split) (auto intro!: arg_cong2 [where f = append] filter_cong)
  show "b \<notin> set ?as" "b \<notin> set ?bs" by auto
qed

lemma bits_of_single: "b < 32 \<Longrightarrow> bits_of (push_bit b 1) = [b]"
proof -
  assume b: "b < 32"
  have "bits_of 0 = []" by (simp add: bits_of_def)
  then show ?thesis
    using bits_split_clear [OF b, of 0] by (metis append_is_Nil_conv append_Nil bit_0_eq bot_apply bot_bool_def or.left_neutral)
qed

lemma bits_of_pair:
  assumes "a < b" "b < 32"
  shows "bits_of (push_bit a 1 OR push_bit b 1) = [a, b]"
proof -
  have "bit (push_bit a 1 OR push_bit b 1 :: u32) i \<longleftrightarrow> i = a \<or> i = b" if "i < 32" for i
    using that assms by (auto simp: bit_simps)
  then have "bits_of (push_bit a 1 OR push_bit b 1) = filter (\<lambda>i. i = a \<or> i = b) [0..<32]"
    unfolding bits_of_def by (intro filter_cong) auto
  also have "\<dots> = filter (\<lambda>i. i = a \<or> i = b) ([0..<a] @ a # [Suc a..<b] @ b # [Suc b..<32])"
    using assms upt_split [of b] upt_add_eq_append [of 0 a "b - a"] upt_conv_Cons [of a b] by simp
  also have "\<dots> = [a, b]"
    using assms by (simp add: filter_empty_conv)
  finally show ?thesis .
qed

section \<open>Well-formed nodes\<close>

definition node_keys :: "node \<Rightarrow> bytes set" where
  "node_keys n = fst ` set (collect_leaves n)"

lemma node_keys_simps [simp]:
  "node_keys (Leaf h k v) = {k}"
  "node_keys (Branch w cs) = (\<Union>c \<in> set cs. node_keys c)"
  by (auto simp: node_keys_def)

text \<open>
  A leaf stores the hash of its key. A branch has one child per set bit, in bit order, and all
  keys below a child select that child's bit at the branch's level.
\<close>

fun node_ok :: "nat \<Rightarrow> node \<Rightarrow> bool" where
  "node_ok l (Leaf h k v) = (h = fnv1a k)"
| "node_ok l (Branch w cs) =
     (cs \<noteq> [] \<and>
      list_all2 (\<lambda>b c. node_ok (Suc l) c \<and> (\<forall>k \<in> node_keys c. bit_index (fnv1a k) l = b)) (bits_of w) cs)"

definition child_ok :: "nat \<Rightarrow> nat \<Rightarrow> node \<Rightarrow> bool" where
  "child_ok l b c = (node_ok (Suc l) c \<and> (\<forall>k \<in> node_keys c. bit_index (fnv1a k) l = b))"

lemma node_ok_Branch: "node_ok l (Branch w cs) \<longleftrightarrow> cs \<noteq> [] \<and> list_all2 (child_ok l) (bits_of w) cs"
  by (simp add: child_ok_def [abs_def])

declare node_ok.simps(2) [simp del]

lemma sparse_index_lt:
  "node_ok l (Branch w cs) \<Longrightarrow> b < 32 \<Longrightarrow> bit w b \<Longrightarrow> sparse_index w b < length cs"
  by (elim bits_split_set [of b w]) (auto simp: node_ok_Branch dest!: list_all2_lengthD)

text \<open>The child of a set bit, and the children before and after it.\<close>

lemma branch_child:
  assumes "node_ok l (Branch w cs)" "b < 32" "bit w b"
  obtains as bs xs c ys where "bits_of w = as @ b # bs" "cs = xs @ c # ys"
    "sparse_index w b = length xs" "list_all2 (child_ok l) as xs" "child_ok l b c"
    "list_all2 (child_ok l) bs ys" "bits_of (w AND NOT (push_bit b 1)) = as @ bs"
    "b \<notin> set as" "b \<notin> set bs"
proof -
  from bits_split_set [OF assms(2,3)] obtain as bs where bits: "bits_of w = as @ b # bs"
    "length as = sparse_index w b" "bits_of (w AND NOT (push_bit b 1)) = as @ bs"
    "b \<notin> set as" "b \<notin> set bs" .
  from assms(1) have "list_all2 (child_ok l) (as @ b # bs) cs"
    by (simp add: node_ok_Branch bits)
  then obtain xs c ys where "cs = xs @ c # ys" "length xs = length as"
    "list_all2 (child_ok l) as xs" "child_ok l b c" "list_all2 (child_ok l) bs ys"
    by (auto simp: list_all2_append1 list_all2_Cons1)
  with bits that show thesis by metis
qed

lemma branch_gap:
  assumes "node_ok l (Branch w cs)" "b < 32" "\<not> bit w b"
  obtains as bs xs ys where "bits_of w = as @ bs" "cs = xs @ ys" "sparse_index w b = length xs"
    "list_all2 (child_ok l) as xs" "list_all2 (child_ok l) bs ys"
    "bits_of (w OR push_bit b 1) = as @ b # bs" "b \<notin> set as" "b \<notin> set bs"
proof -
  from bits_split_clear [OF assms(2,3)] obtain as bs where bits: "bits_of w = as @ bs"
    "length as = sparse_index w b" "bits_of (w OR push_bit b 1) = as @ b # bs"
    "b \<notin> set as" "b \<notin> set bs" .
  from assms(1) have "list_all2 (child_ok l) (as @ bs) cs"
    by (simp add: node_ok_Branch bits)
  then obtain xs ys where "cs = xs @ ys" "length xs = length as"
    "list_all2 (child_ok l) as xs" "list_all2 (child_ok l) bs ys"
    by (auto simp: list_all2_append1)
  with bits that show thesis by metis
qed

text \<open>A key is not below a child of another bit.\<close>

lemma other_children:
  assumes "list_all2 (child_ok l) as xs" "bit_index (fnv1a k) l \<notin> set as"
  shows "k \<notin> (\<Union>c \<in> set xs. node_keys c)"
  using assms by (induction rule: list_all2_induct) (auto simp: child_ok_def)

lemma leaves_None: "k \<notin> (\<Union>c \<in> set xs. node_keys c) \<Longrightarrow> map_of (concat (map collect_leaves xs)) k = None"
  by (auto simp: map_of_eq_None_iff node_keys_def)

lemma map_of_leaves_child:
  assumes "k \<notin> (\<Union>c \<in> set xs. node_keys c)" "k \<notin> (\<Union>c \<in> set ys. node_keys c)"
  shows "map_of (concat (map collect_leaves (xs @ c # ys))) k = map_of (collect_leaves c) k"
  using leaves_None [OF assms(1)] leaves_None [OF assms(2)]
  by (simp add: map_add_def split: option.split)

section \<open>Lookup\<close>

lemma node_get_leaves:
  "node_ok l n \<Longrightarrow> node_get n (fnv1a k) k l = map_of (collect_leaves n) k"
proof (induction n "fnv1a k" k l rule: node_get.induct)
  case (2 w cs key level)
  let ?b = "bit_index (fnv1a key) level"
  have b: "?b < 32" by (rule bit_index_less)
  show ?case
  proof (cases "bit w ?b")
    case False
    from branch_gap [OF 2(2) b False] obtain as bs xs ys where
      "cs = xs @ ys" "list_all2 (child_ok level) as xs" "list_all2 (child_ok level) bs ys"
      "?b \<notin> set as" "?b \<notin> set bs" .
    then have "map_of (collect_leaves (Branch w cs)) key = None"
      using leaves_None [of key "xs @ ys"] other_children [of level as xs key]
        other_children [of level bs ys key] by auto
    with False show ?thesis by (simp add: Let_def)
  next
    case True
    from branch_child [OF 2(2) b True] obtain as bs xs c ys where
      split: "cs = xs @ c # ys" "sparse_index w ?b = length xs" "child_ok level ?b c"
      "list_all2 (child_ok level) as xs" "list_all2 (child_ok level) bs ys"
      "?b \<notin> set as" "?b \<notin> set bs" .
    then have "map_of (collect_leaves (Branch w cs)) key = map_of (collect_leaves c) key"
      using map_of_leaves_child other_children by (metis collect_leaves.simps(2))
    moreover have "node_get c (fnv1a key) key (level + 1) = map_of (collect_leaves c) key"
      using 2(1) [OF refl refl _ refl] True split
      by (simp add: child_ok_def nth_append)
    ultimately show ?thesis
      using True split by (simp add: Let_def nth_append)
  qed
qed auto

lemma node_keys_distinct: "node_ok l n \<Longrightarrow> distinct (map fst (collect_leaves n))"
proof (induction n arbitrary: l)
  case (Branch w cs)
  then have "list_all2 (child_ok l) (bits_of w) cs" by (simp add: node_ok_Branch)
  moreover have "distinct (bits_of w)" by (simp add: bits_of_def)
  ultimately have "distinct (map fst (concat (map collect_leaves cs)))"
    using Branch.IH
  proof (induction rule: list_all2_induct)
    case (Cons b bs c cs)
    have "k \<notin> node_keys c" if "k \<in> (\<Union>c \<in> set cs. node_keys c)" for k
      using that other_children [OF Cons(2), of k] Cons(1,4) by (auto simp: child_ok_def)
    then have "set (map fst (collect_leaves c)) \<inter> set (map fst (concat (map collect_leaves cs))) = {}"
      by (force simp: node_keys_def)
    moreover have "distinct (map fst (concat (map collect_leaves cs)))"
      using Cons.IH Cons.prems by (meson distinct.simps(2) list.set_intros(2))
    moreover have "distinct (map fst (collect_leaves c))"
      using Cons.hyps(1) Cons.prems(2) [of c "Suc l"] by (simp add: child_ok_def)
    ultimately show ?case by (simp only: list.map concat.simps map_append distinct_append)
  qed simp
  then show ?case by simp
qed simp

section \<open>Insertion\<close>

lemma node_keys_dom: "node_keys n = dom (map_of (collect_leaves n))"
  by (simp add: node_keys_def dom_map_of_conv_image_fst)

text \<open>\<open>y\<close> holds the pairs \<open>ls\<close> with \<open>k\<close> set to \<open>v\<close>.\<close>

definition inserted :: "nat \<Rightarrow> bytes \<Rightarrow> bytes \<Rightarrow> (bytes \<times> bytes) list \<Rightarrow> node \<Rightarrow> bool" where
  "inserted l k v ls y = (node_ok l y \<and> map_of (collect_leaves y) = (map_of ls)(k \<mapsto> v))"

lemma inserted_keys: "inserted l k v ls y \<Longrightarrow> node_keys y = insert k (fst ` set ls)"
  by (simp add: inserted_def node_keys_dom dom_map_of_conv_image_fst)

lemma map_of_replace_child:
  assumes "k \<notin> (\<Union>c \<in> set xs. node_keys c)" "map_of (collect_leaves c') = (map_of (collect_leaves c))(k := e)"
    "e = None \<longrightarrow> k \<notin> (\<Union>c \<in> set ys. node_keys c)"
  shows "map_of (concat (map collect_leaves (xs @ c' # ys))) =
    (map_of (concat (map collect_leaves (xs @ c # ys))))(k := e)"
  using leaves_None [OF assms(1)] assms(2) leaves_None [of k ys] assms(3)
  by (auto simp: fun_eq_iff map_add_def split: option.split)

lemma insert_in_child:
  assumes "node_ok l (Branch w cs)" "b = bit_index (fnv1a k) l" "bit w b"
    "inserted (Suc l) k v (collect_leaves (cs ! sparse_index w b)) c'"
  shows "inserted l k v (collect_leaves (Branch w cs)) (Branch w (cs[sparse_index w b := c']))"
proof -
  have "b < 32" by (simp add: assms(2) bit_index_less)
  from branch_child [OF assms(1) this assms(3)] obtain as bs xs c ys where
    split: "bits_of w = as @ b # bs" "cs = xs @ c # ys" "sparse_index w b = length xs"
    "list_all2 (child_ok l) as xs" "child_ok l b c" "list_all2 (child_ok l) bs ys" "b \<notin> set as" .
  then have c': "inserted (Suc l) k v (collect_leaves c) c'" and upd: "cs[sparse_index w b := c'] = xs @ c' # ys"
    using assms(4) by simp_all
  then have "child_ok l b c'"
    using split(5) inserted_keys [OF c'] by (auto simp: child_ok_def inserted_def assms(2) node_keys_def)
  then have "node_ok l (Branch w (xs @ c' # ys))"
    using split by (simp add: node_ok_Branch list_all2_appendI)
  moreover have "k \<notin> (\<Union>c \<in> set xs. node_keys c)"
    using other_children [OF split(4)] split(7) assms(2) by blast
  ultimately show ?thesis
    unfolding inserted_def upd using map_of_replace_child [of k xs c' c "Some v" ys] c' split(2)
    by (simp add: inserted_def)
qed

lemma insert_new_child:
  assumes "node_ok l (Branch w cs)" "b = bit_index (fnv1a k) l" "\<not> bit w b"
  shows "inserted l k v (collect_leaves (Branch w cs))
    (Branch (w OR push_bit b 1) (take (sparse_index w b) cs @ Leaf (fnv1a k) k v # drop (sparse_index w b) cs))"
proof -
  have "b < 32" by (simp add: assms(2) bit_index_less)
  from branch_gap [OF assms(1) this assms(3)] obtain as bs xs ys where
    split: "cs = xs @ ys" "sparse_index w b = length xs"
    "list_all2 (child_ok l) as xs" "list_all2 (child_ok l) bs ys"
    "bits_of (w OR push_bit b 1) = as @ b # bs" "b \<notin> set as" .
  have "child_ok l b (Leaf (fnv1a k) k v)"
    by (simp add: child_ok_def assms(2))
  then have "node_ok l (Branch (w OR push_bit b 1) (xs @ Leaf (fnv1a k) k v # ys))"
    unfolding node_ok_Branch split(5) using split(3,4) by (simp add: list_all2_appendI)
  moreover have "map_of (concat (map collect_leaves xs)) k = None"
    using other_children [OF split(3)] split(6) assms(2) by (intro leaves_None) blast
  then have "map_of (concat (map collect_leaves (xs @ Leaf (fnv1a k) k v # ys))) =
      (map_of (concat (map collect_leaves (xs @ ys))))(k \<mapsto> v)"
    by (auto simp: fun_eq_iff map_add_def split: option.split)
  ultimately show ?thesis
    by (simp add: inserted_def split(1,2))
qed

lemma insert_deeper:
  assumes "bit_index (fnv1a k') l = b" "bit_index (fnv1a k) l = b" "inserted (Suc l) k v [(k', v')] d"
  shows "inserted l k v [(k', v')] (Branch (push_bit b 1) [d])"
proof -
  have "b < 32" using assms(1) bit_index_less by blast
  then have "bits_of (push_bit b 1) = [b]" by (rule bits_of_single)
  then show ?thesis
    using assms inserted_keys [OF assms(3)]
    by (simp add: inserted_def node_ok_Branch child_ok_def del: push_bit_of_1)
qed

lemma insert_pair:
  assumes "a = bit_index (fnv1a k') l" "b = bit_index (fnv1a k) l" "a \<noteq> b" "k' \<noteq> k"
  shows "inserted l k v [(k', v')] (Branch (push_bit a 1 OR push_bit b 1)
    (if a < b then [Leaf (fnv1a k') k' v', Leaf (fnv1a k) k v] else [Leaf (fnv1a k) k v, Leaf (fnv1a k') k' v']))"
proof -
  have "a < 32" "b < 32" by (simp_all add: assms(1,2) bit_index_less)
  then have "bits_of (push_bit a 1 OR push_bit b 1) = (if a < b then [a, b] else [b, a])"
    using bits_of_pair [of a b] bits_of_pair [of b a] assms(3) or.commute [of "push_bit a 1" "push_bit b (1::u32)"]
    by (cases "a < b") simp_all
  then show ?thesis
    using assms by (auto simp: inserted_def node_ok_Branch child_ok_def fun_eq_iff simp del: push_bit_of_1)
qed

definition insert_spec :: "node option \<Rightarrow> u64 \<Rightarrow> bytes \<Rightarrow> bytes \<Rightarrow> nat \<Rightarrow> node \<Rightarrow> bool" where
  "insert_spec nd hash k v l y =
     (hash = fnv1a k \<longrightarrow> (case nd of None \<Rightarrow> True | Some n \<Rightarrow> node_ok l n) \<longrightarrow>
      inserted l k v (case nd of None \<Rightarrow> [] | Some n \<Rightarrow> collect_leaves n) y)"

lemma insert_spec_leaf:
  assumes IH: "\<And>nd hash k v l y. ins nd hash k v l = Some y \<Longrightarrow> insert_spec nd hash k v l y"
    and k: "k' \<noteq> k" "bit_index h l = bit_index hash l"
    and d: "ins (Some (Leaf h k' v')) hash k v (l + 1) = Some d"
  shows "insert_spec (Some (Leaf h k' v')) hash k v l (Branch (push_bit (bit_index h l) 1) [d])"
  using IH [OF d] k insert_deeper [of k' l "bit_index h l" k v v' d]
  by (auto simp: insert_spec_def)

lemma insert_spec_branch:
  assumes IH: "\<And>nd hash k v l y. ins nd hash k v l = Some y \<Longrightarrow> insert_spec nd hash k v l y"
    and b: "bit w (bit_index hash l)"
    and c: "ins (Some (cs ! sparse_index w (bit_index hash l))) hash k v (l + 1) = Some c"
  shows "insert_spec (Some (Branch w cs)) hash k v l
    (Branch w (cs[sparse_index w (bit_index hash l) := c]))"
proof -
  let ?i = "sparse_index w (bit_index hash l)"
  have "node_ok (Suc l) (cs ! ?i)" if "node_ok l (Branch w cs)"
    by (rule branch_child [OF that bit_index_less b]) (simp add: child_ok_def)
  with IH [OF c] insert_in_child [of l w cs "bit_index hash l" k v c] b show ?thesis
    by (auto simp: insert_spec_def simp del: collect_leaves.simps)
qed

lemma insert_node_spec: "insert_node nd hash k v l = Some y \<Longrightarrow> insert_spec nd hash k v l y"
proof (rule insert_node.raw_induct [of insert_spec], goal_cases)
  case (1 ins nd hash k v l y)
  note IH = 1(2) and body = 1(3)
  show ?case
  proof (cases nd)
    case None
    with body show ?thesis by (auto simp: insert_spec_def inserted_def)
  next
    case n: (Some n)
    show ?thesis
    proof (cases n)
      case (Leaf h k' v')
      consider "k' = k" | "k' \<noteq> k" "bit_index h l = bit_index hash l" | "k' \<noteq> k" "bit_index h l \<noteq> bit_index hash l"
        by blast
      then show ?thesis
      proof cases
        case 1
        with body n Leaf show ?thesis by (auto simp: insert_spec_def inserted_def)
      next
        case 2
        with body n Leaf insert_spec_leaf [OF IH 2] show ?thesis
          by (auto simp: Let_def bind_eq_Some_conv)
      next
        case 3
        with body n Leaf insert_pair [of "bit_index h l" k' l "bit_index hash l" k v v']
        show ?thesis by (auto simp: Let_def insert_spec_def)
      qed
    next
      case (Branch w cs)
      show ?thesis
      proof (cases "bit w (bit_index hash l)")
        case False
        with body n Branch insert_new_child [of l w cs "bit_index hash l" k v] show ?thesis
          by (auto simp: Let_def insert_spec_def)
      next
        case True
        with body n Branch insert_spec_branch [OF IH True] show ?thesis
          by (auto simp: Let_def bind_eq_Some_conv)
      qed
    qed
  qed
qed

section \<open>When insertion returns\<close>

text \<open>Two different hashes select different children at some level, however deep we start.\<close>

lemma bit_index_bit: "bit (of_nat (bit_index h l) :: u64) 0 \<longleftrightarrow> bit h (l * BITS_PER_LEVEL mod 64)"
  by (simp add: bit_index_def MASK_31 bit_0 even_and_iff flip: bit_iff_odd_drop_bit)

lemma hashes_differ:
  assumes "h \<noteq> h'"
  obtains l' where "l \<le> l'" "bit_index h l' \<noteq> bit_index h' l'"
proof -
  from assms obtain i where i: "i < 64" "bit h i \<noteq> bit h' i"
    using bit_word_eqI [of h h'] by auto
  let ?l = "13 * i + 64 * l"
  have "?l * BITS_PER_LEVEL = i + 64 * (i + 5 * l)"
    by (simp add: BITS_PER_LEVEL_def algebra_simps)
  then have "?l * BITS_PER_LEVEL mod 64 = i"
    using i(1) by (metis mod_less mod_mult_self2)
  with i(2) have "bit_index h ?l \<noteq> bit_index h' ?l"
    using bit_index_bit [of h ?l] bit_index_bit [of h' ?l] by metis
  then show thesis by (intro that [of ?l]) auto
qed

lemma insert_leaf_returns:
  assumes "fnv1a k' \<noteq> hash"
  shows "\<exists>y. insert_node (Some (Leaf (fnv1a k') k' v')) hash k v l = Some y"
proof -
  from hashes_differ [OF assms] obtain l' where "l \<le> l'" "bit_index (fnv1a k') l' \<noteq> bit_index hash l'" .
  then show ?thesis
  proof (induction rule: inc_induct)
    case base
    then show ?case by (subst insert_node.simps) (simp add: Let_def)
  next
    case (step m)
    then obtain y where "insert_node (Some (Leaf (fnv1a k') k' v')) hash k v (Suc m) = Some y" by blast
    then show ?case by (subst insert_node.simps) (simp add: Let_def)
  qed
qed

lemma insert_node_returns:
  "node_ok l n \<Longrightarrow> \<forall>k' \<in> node_keys n. k' \<noteq> k \<longrightarrow> fnv1a k' \<noteq> fnv1a k \<Longrightarrow>
   \<exists>y. insert_node (Some n) (fnv1a k) k v l = Some y"
proof (induction n arbitrary: l)
  case (Leaf h k' v')
  then show ?case
    using insert_leaf_returns [of k' "fnv1a k" v' k v l]
    by (cases "k' = k") (auto simp: insert_node.simps)
next
  case (Branch w cs)
  let ?b = "bit_index (fnv1a k) l"
  show ?case
  proof (cases "bit w ?b")
    case False
    then show ?thesis by (subst insert_node.simps) (simp add: Let_def)
  next
    case True
    from branch_child [OF Branch.prems(1) bit_index_less True] obtain xs c ys where
      c: "cs = xs @ c # ys" "sparse_index w ?b = length xs" "child_ok l ?b c" .
    then obtain y where "insert_node (Some c) (fnv1a k) k v (Suc l) = Some y"
      using Branch.IH [of c "Suc l"] Branch.prems(2) by (auto simp: child_ok_def)
    with True c show ?thesis
      by (subst insert_node.simps) (simp add: Let_def)
  qed
qed

text \<open>A stored key with the hash of the new one, and different from it, makes insertion recurse forever.\<close>

definition no_clash :: "node option \<Rightarrow> u64 \<Rightarrow> bytes \<Rightarrow> bytes \<Rightarrow> nat \<Rightarrow> node \<Rightarrow> bool" where
  "no_clash nd hash k v l y = (\<forall>k' v'. nd = Some (Leaf hash k' v') \<longrightarrow> k' = k)"

lemma insert_leaf_clash: "insert_node nd hash k v l = Some y \<Longrightarrow> no_clash nd hash k v l y"
  by (rule insert_node.raw_induct [of no_clash])
    (auto simp: no_clash_def Let_def bind_eq_Some_conv split: option.splits node.splits if_splits)

lemma insert_node_clash:
  "node_ok l n \<Longrightarrow> insert_node (Some n) (fnv1a k) k v l = Some y \<Longrightarrow> k' \<in> node_keys n \<Longrightarrow>
   fnv1a k' = fnv1a k \<Longrightarrow> k' = k"
proof (induction n arbitrary: l y)
  case (Leaf h k1 v1)
  then show ?case
    using insert_leaf_clash [OF Leaf.prems(2)] by (auto simp: no_clash_def)
next
  case (Branch w cs)
  let ?b = "bit_index (fnv1a k) l"
  show ?case
  proof (cases "bit w ?b")
    case False
    from branch_gap [OF Branch.prems(1) bit_index_less False] obtain as bs xs ys where
      "cs = xs @ ys" "list_all2 (child_ok l) as xs" "list_all2 (child_ok l) bs ys"
      "?b \<notin> set as" "?b \<notin> set bs" .
    with Branch.prems(3,4) other_children [of l as xs k'] other_children [of l bs ys k'] show ?thesis
      by auto
  next
    case True
    from branch_child [OF Branch.prems(1) bit_index_less True] obtain as bs xs c ys where
      c: "cs = xs @ c # ys" "sparse_index w ?b = length xs" "child_ok l ?b c"
      "list_all2 (child_ok l) as xs" "list_all2 (child_ok l) bs ys" "?b \<notin> set as" "?b \<notin> set bs" .
    with Branch.prems(3,4) other_children [of l as xs k'] other_children [of l bs ys k']
    have "k' \<in> node_keys c" by auto
    moreover obtain z where "insert_node (Some c) (fnv1a k) k v (Suc l) = Some z"
      using Branch.prems(2) True c(1,2)
      by (subst (asm) insert_node.simps) (auto simp: Let_def bind_eq_Some_conv)
    ultimately show ?thesis
      using Branch.IH [of c "Suc l" z] Branch.prems(4) c(1,3) by (auto simp: child_ok_def)
  qed
qed

section \<open>Removal\<close>

lemma remove_node_leaves:
  "node_ok l n \<Longrightarrow>
   (case remove_node n (fnv1a k) k l of
      None \<Rightarrow> node_keys n \<subseteq> {k}
    | Some y \<Rightarrow> node_ok l y \<and> map_of (collect_leaves y) = (map_of (collect_leaves n))(k := None))"
proof (induction n "fnv1a k" k l rule: remove_node.induct)
  case (1 h k' v' key level)
  then show ?case by auto
next
  case (2 w cs key l)
  let ?b = "bit_index (fnv1a key) l"
  show ?case
  proof (cases "bit w ?b")
    case False
    from branch_gap [OF 2(2) bit_index_less False] obtain as bs xs ys where
      "cs = xs @ ys" "list_all2 (child_ok l) as xs" "list_all2 (child_ok l) bs ys"
      "?b \<notin> set as" "?b \<notin> set bs" .
    then have "map_of (concat (map collect_leaves cs)) key = None"
      using leaves_None [of key "xs @ ys"] other_children [of l as xs key]
        other_children [of l bs ys key] by auto
    with False 2(2) show ?thesis by (simp add: Let_def fun_upd_idem)
  next
    case True
    from branch_child [OF 2(2) bit_index_less True] obtain as bs xs c ys where
      c: "cs = xs @ c # ys" "sparse_index w ?b = length xs" "child_ok l ?b c"
      "list_all2 (child_ok l) as xs" "list_all2 (child_ok l) bs ys"
      "bits_of w = as @ ?b # bs" "bits_of (w AND NOT (push_bit ?b 1)) = as @ bs"
      "?b \<notin> set as" "?b \<notin> set bs" .
    have k: "key \<notin> (\<Union>c \<in> set xs. node_keys c)" "key \<notin> (\<Union>c \<in> set ys. node_keys c)"
      using other_children c by blast+
    have ci: "cs ! sparse_index w ?b = c" by (simp add: c(1,2))
    have IH: "case remove_node c (fnv1a key) key (l + 1) of
        None \<Rightarrow> node_keys c \<subseteq> {key}
      | Some y \<Rightarrow> node_ok (Suc l) y \<and> map_of (collect_leaves y) = (map_of (collect_leaves c))(key := None)"
      using 2(1) [OF refl refl _ refl, unfolded ci] True c
      by (simp add: child_ok_def split: option.splits)
    show ?thesis
    proof (cases "remove_node c (fnv1a key) key (l + 1)")
      case None
      then have "node_keys c \<subseteq> {key}" using IH by simp
      then have "map_of (concat (map collect_leaves (xs @ ys))) =
          (map_of (concat (map collect_leaves (xs @ c # ys))))(key := None)"
        using leaves_None [OF k(1)] leaves_None [OF k(2)]
        by (auto simp: fun_eq_iff map_add_def node_keys_dom split: option.split)
      moreover have "node_ok l (Branch (w AND NOT (push_bit ?b 1)) (xs @ ys))" if "xs @ ys \<noteq> []"
        unfolding node_ok_Branch c(7) using that c(4,5) by (simp add: list_all2_appendI)
      ultimately show ?thesis
        using None True c(1,2) \<open>node_keys c \<subseteq> {key}\<close> by (auto simp: Let_def)
    next
      case (Some c')
      then have c': "node_ok (Suc l) c'"
        "map_of (collect_leaves c') = (map_of (collect_leaves c))(key := None)"
        using IH by simp_all
      then have "child_ok l ?b c'"
        using c(3) by (auto simp: child_ok_def node_keys_dom)
      then have "node_ok l (Branch w (xs @ c' # ys))"
        using c by (simp add: node_ok_Branch list_all2_appendI)
      moreover have "map_of (concat (map collect_leaves (xs @ c' # ys))) =
          (map_of (concat (map collect_leaves (xs @ c # ys))))(key := None)"
        using map_of_replace_child [OF k(1) c'(2)] k(2) by blast
      ultimately show ?thesis
        using Some True c(1,2) by (simp add: Let_def)
    qed
  qed
qed

section \<open>The map interface\<close>

definition hamt_ok :: "hamt \<Rightarrow> bool" where
  "hamt_ok h = ((case hamt_root h of None \<Rightarrow> True | Some n \<Rightarrow> node_ok 0 n) \<and>
     hamt_len h = length (hamt_iter h))"

lemma hamt_get_iter: "hamt_ok h \<Longrightarrow> hamt_get h = map_of (hamt_iter h)"
  by (rule ext) (simp add: hamt_ok_def hamt_get_def hamt_iter_def node_get_leaves split: option.splits)

lemma hamt_iter_distinct: "hamt_ok h \<Longrightarrow> distinct (map fst (hamt_iter h))"
  by (auto simp: hamt_ok_def hamt_iter_def intro: node_keys_distinct split: option.splits)

lemma dom_subset_single: "dom m \<subseteq> {k} \<Longrightarrow> m(k := None) = Map.empty"
  by (rule ext) (use domIff in fastforce)

lemma length_iter_card: "distinct (map fst xs) \<Longrightarrow> length xs = card (dom (map_of xs))"
  by (simp add: dom_map_of_conv_image_fst distinct_card flip: set_map)

lemma hamt_put_inserted:
  assumes "hamt_ok h" "hamt_put k v h = Some h'"
  shows "hamt_ok h'" "hamt_get h' = (hamt_get h)(k \<mapsto> v)"
proof -
  from assms(2) obtain y where y: "insert_node (hamt_root h) (fnv1a k) k v 0 = Some y"
    "h' = \<lparr>hamt_root = Some y, hamt_len = (if hamt_get h k \<noteq> None then hamt_len h else hamt_len h + 1)\<rparr>"
    by (auto simp: hamt_put_def Let_def bind_eq_Some_conv)
  have "inserted 0 k v (hamt_iter h) y"
    using insert_node_spec [OF y(1)] assms(1)
    by (auto simp: insert_spec_def hamt_ok_def hamt_iter_def split: option.splits)
  then have n: "node_ok 0 y" "map_of (hamt_iter h') = (map_of (hamt_iter h))(k \<mapsto> v)"
    by (simp_all add: inserted_def hamt_iter_def y(2))
  have "length (hamt_iter h') = card (insert k (dom (map_of (hamt_iter h))))"
    using n length_iter_card [of "hamt_iter h'"] node_keys_distinct [OF n(1)]
    by (simp add: hamt_iter_def y(2))
  also have "\<dots> = hamt_len h'"
    using assms(1) length_iter_card [OF hamt_iter_distinct [OF assms(1)]]
    by (simp add: hamt_get_iter y(2) hamt_ok_def card_insert_if finite_dom_map_of domIff)
  finally show "hamt_ok h'"
    using n(1) by (simp add: hamt_ok_def y(2))
  then show "hamt_get h' = (hamt_get h)(k \<mapsto> v)"
    using n(2) assms(1) by (simp add: hamt_get_iter)
qed

lemma hamt_delete_removed:
  assumes "hamt_ok h"
  shows "hamt_ok (hamt_delete k h)" "hamt_get (hamt_delete k h) = (hamt_get h)(k := None)"
proof -
  have "hamt_ok (hamt_delete k h) \<and> hamt_get (hamt_delete k h) = (hamt_get h)(k := None)"
  proof (cases "hamt_get h k")
    case None
    with assms show ?thesis by (simp add: hamt_delete_def fun_upd_idem)
  next
    case (Some v)
    then obtain n where n: "hamt_root h = Some n" by (auto simp: hamt_get_def split: option.splits)
    then have ok: "node_ok 0 n" using assms by (simp add: hamt_ok_def)
    let ?h = "hamt_delete k h"
    have h: "?h = \<lparr>hamt_root = remove_node n (fnv1a k) k 0, hamt_len = hamt_len h - 1\<rparr>"
      using Some n by (simp add: hamt_delete_def)
    have root: "case hamt_root ?h of None \<Rightarrow> True | Some n \<Rightarrow> node_ok 0 n"
      and it: "map_of (hamt_iter ?h) = (map_of (hamt_iter h))(k := None)"
      using remove_node_leaves [OF ok, of k] n
      by (auto simp: h hamt_iter_def node_keys_dom dom_subset_single split: option.splits)
    have "distinct (map fst (hamt_iter ?h))"
      using root by (auto simp: hamt_iter_def intro: node_keys_distinct split: option.splits)
    then have "length (hamt_iter ?h) = card (dom (map_of (hamt_iter h)) - {k})"
      by (simp add: length_iter_card it)
    also have "\<dots> = hamt_len h - 1"
      using Some assms length_iter_card [OF hamt_iter_distinct [OF assms]]
      by (simp add: hamt_get_iter hamt_ok_def card_Diff_singleton_if domIff)
    finally have "hamt_ok ?h" using root by (simp add: hamt_ok_def h)
    then show ?thesis using it assms by (simp add: hamt_get_iter)
  qed
  then show "hamt_ok (hamt_delete k h)" "hamt_get (hamt_delete k h) = (hamt_get h)(k := None)"
    by blast+
qed

interpretation hamt_kv: kv_store hamt_put hamt_get hamt_ok hamt_delete
  by unfold_locales (rule hamt_put_inserted hamt_delete_removed; assumption)+

lemma hamt_ok_new [simp]: "hamt_ok hamt_new" "hamt_get hamt_new k = None"
  by (simp_all add: hamt_ok_def hamt_new_def hamt_iter_def hamt_get_def)

lemma hamt_put_returns:
  assumes "hamt_ok h"
  shows "(\<exists>h'. hamt_put k v h = Some h') \<longleftrightarrow>
    (\<forall>k' v'. (k', v') \<in> set (hamt_iter h) \<longrightarrow> k' \<noteq> k \<longrightarrow> fnv1a k' \<noteq> fnv1a k)"
proof (cases "hamt_root h")
  case None
  then show ?thesis by (simp add: hamt_put_def Let_def insert_node.simps hamt_iter_def)
next
  case (Some n)
  then have ok: "node_ok 0 n" using assms by (simp add: hamt_ok_def)
  have keys: "(\<forall>k' v'. (k', v') \<in> set (hamt_iter h) \<longrightarrow> k' \<noteq> k \<longrightarrow> fnv1a k' \<noteq> fnv1a k) \<longleftrightarrow>
      (\<forall>k' \<in> node_keys n. k' \<noteq> k \<longrightarrow> fnv1a k' \<noteq> fnv1a k)"
    using Some by (auto simp: hamt_iter_def node_keys_def)
  have "(\<exists>h'. hamt_put k v h = Some h') \<longleftrightarrow> (\<exists>y. insert_node (Some n) (fnv1a k) k v 0 = Some y)"
    using Some by (auto simp: hamt_put_def Let_def bind_eq_Some_conv)
  then show ?thesis
    unfolding keys using insert_node_returns [OF ok, of k v] insert_node_clash [OF ok, of k v] by blast
qed

interpretation hamt_hashed: hashed_writer hamt_put hamt_get hamt_ok fnv1a
proof
  fix m k v assume ok: "hamt_ok m" and inj: "inj_on fnv1a (insert k (dom (hamt_get m)))"
  have "k' \<in> dom (hamt_get m)" if "(k', v') \<in> set (hamt_iter m)" for k' v'
    using that ok hamt_iter_distinct [OF ok] by (auto simp: hamt_get_iter)
  with inj show "\<exists>m'. hamt_put k v m = Some m'"
    unfolding hamt_put_returns [OF ok] by (auto simp: inj_on_def)
qed

section \<open>Properties\<close>

datatype hamt_op = HPut bytes bytes | HDelete bytes

fun hamt_do :: "hamt_op \<Rightarrow> hamt \<Rightarrow> hamt option" where
  "hamt_do (HPut k v) h = hamt_put k v h"
| "hamt_do (HDelete k) h = Some (hamt_delete k h)"

fun map_do :: "hamt_op \<Rightarrow> (bytes \<rightharpoonup> bytes) \<Rightarrow> (bytes \<rightharpoonup> bytes)" where
  "map_do (HPut k v) m = m(k \<mapsto> v)"
| "map_do (HDelete k) m = m(k := None)"

primrec hamt_run :: "hamt_op list \<Rightarrow> hamt \<Rightarrow> hamt option" where
  "hamt_run [] h = Some h"
| "hamt_run (op # ops) h = Option.bind (hamt_do op h) (hamt_run ops)"

lemma hamt_do_simulates:
  assumes "hamt_ok h" "hamt_do op h = Some h'"
  shows "hamt_ok h' \<and> hamt_get h' = map_do op (hamt_get h)"
  using assms hamt_kv.put_ok hamt_kv.put_get hamt_kv.delete_ok hamt_kv.delete_get
  by (cases op) auto

lemma hamt_run_simulates:
  "hamt_ok h \<Longrightarrow> hamt_run ops h = Some h' \<Longrightarrow> hamt_ok h' \<and> hamt_get h' = fold map_do ops (hamt_get h)"
proof (induction ops arbitrary: h)
  case (Cons op ops)
  then obtain h1 where "hamt_do op h = Some h1" "hamt_run ops h1 = Some h'"
    by (auto simp: bind_eq_Some_conv)
  with Cons.IH [of h1] hamt_do_simulates [OF Cons.prems(1), of op h1] show ?case by simp
qed simp

text \<open>
  (C5) A trie built by any puts and deletes is the finite map those operations describe: lookups
  agree with the map, iteration yields every pair exactly once, and the stored length is the
  number of keys.
\<close>

theorem hamt_refines_map:
  assumes "hamt_run ops hamt_new = Some h"
  shows "hamt_get h = fold map_do ops Map.empty \<and> map_of (hamt_iter h) = hamt_get h \<and>
    distinct (map fst (hamt_iter h)) \<and> hamt_len h = card (dom (hamt_get h))"
proof -
  have new: "hamt_get hamt_new = Map.empty" by (rule ext) simp
  from hamt_run_simulates [OF hamt_ok_new(1) assms]
  have ok: "hamt_ok h" and get: "hamt_get h = fold map_do ops Map.empty" by (simp_all add: new)
  then show ?thesis
    using hamt_iter_distinct [OF ok] length_iter_card [OF hamt_iter_distinct [OF ok]]
    by (simp add: hamt_get_iter hamt_ok_def)
qed

lemma fnv1a_first_byte: "a \<noteq> b \<Longrightarrow> fnv1a [a] \<noteq> fnv1a [b]"
  using fnv1a_byte_inject [of "[]" a "[]" b] by simp

theorem hamt_refines_map_witness:
  "\<exists>h. hamt_run [HPut [1] [10], HPut [2] [20], HDelete [1]] hamt_new = Some h \<and>
     hamt_get h = fold map_do [HPut [1] [10], HPut [2] [20], HDelete [1]] Map.empty"
proof -
  have "\<exists>h1. hamt_put [1] [10] hamt_new = Some h1"
    by (simp add: hamt_put_returns hamt_new_def hamt_ok_def hamt_iter_def)
  then obtain h1 where h1: "hamt_put [1] [10] hamt_new = Some h1" ..
  then have "hamt_ok h1" "hamt_get h1 = [[1] \<mapsto> [10]]"
    using hamt_put_inserted [OF hamt_ok_new(1) h1] by (auto simp: fun_eq_iff)
  then have "\<exists>h2. hamt_put [2] [20] h1 = Some h2"
    using fnv1a_first_byte [of 1 2]
    by (auto simp: hamt_put_returns hamt_get_iter hamt_iter_distinct split: if_splits
        dest: map_of_is_SomeI [OF hamt_iter_distinct])
  then obtain h2 where "hamt_put [2] [20] h1 = Some h2" ..
  with h1 have "hamt_run [HPut [1] [10], HPut [2] [20], HDelete [1]] hamt_new = Some (hamt_delete [1] h2)"
    by simp
  with hamt_refines_map [OF this] show ?thesis by blast
qed

text \<open>
  (C30) Insertion returns exactly when no other stored key has the same 64-bit hash as the new
  key; with such a key stored it recurses forever.
\<close>

theorem hamt_put_returns_iff:
  assumes "hamt_ok h"
  shows "(\<exists>h'. hamt_put k v h = Some h') \<longleftrightarrow>
    (\<forall>k'. k' \<noteq> k \<and> hamt_get h k' \<noteq> None \<longrightarrow> fnv1a k' \<noteq> fnv1a k)"
proof -
  have "(k', v') \<in> set (hamt_iter h) \<longleftrightarrow> hamt_get h k' = Some v'" for k' v'
    using hamt_iter_distinct [OF assms] by (simp add: hamt_get_iter [OF assms])
  then show ?thesis
    unfolding hamt_put_returns [OF assms] by auto
qed

theorem hamt_put_returns_iff_witness:
  "\<exists>h'. hamt_put [1] [10] hamt_new = Some h'"
  using hamt_put_returns_iff [OF hamt_ok_new(1), of "[1]" "[10]"] by simp

text \<open>
  Merging a branch back writes all its pairs over the target: the result is the target
  overridden by the branch, whatever order the branch is iterated in.
\<close>

theorem hamt_merge_from_overrides:
  assumes "hamt_ok h" "hamt_ok other" "hamt_merge_from h other = Some m"
  shows "hamt_ok m \<and> hamt_get m = hamt_get h ++ hamt_get other"
  using hamt_kv.put_all_ok [OF assms(1)] hamt_kv.put_all_get_distinct [OF assms(1)] assms(2,3)
  by (simp add: hamt_merge_from_def hamt_iter_distinct hamt_get_iter)

theorem hamt_merge_from_overrides_witness:
  "hamt_get hamt_new = hamt_get hamt_new ++ hamt_get hamt_new"
  using hamt_merge_from_overrides [OF hamt_ok_new(1) hamt_ok_new(1), of hamt_new]
  by (simp add: hamt_merge_from_def hamt_iter_def hamt_new_def)

end
