(* ===== verification/Mvcc.thy ===== *)
theory Mvcc
  imports Uldb_Prelude
begin

text \<open>
  \<^verbatim>\<open>src/tx/mvcc.rs\<close>: version chains, transactions and their commit protocol. The chain
  of a key is the list of its versions, newest first. Timestamps and transaction ids count
  calls and are natural numbers. Every method of the store holds its lock throughout and is one
  atomic step; a transaction's commit is a sequence of such steps, modelled twice: as the
  function \<open>tx_commit\<close> that runs them without interruption, and as the step system \<open>mvcc_exec\<close>
  in which the calls of several transactions interleave. The lemmas show snapshot stability
  and safe garbage collection, the order of commit timestamps in every reachable chain, and the
  anomalies that interleaving allows.
\<close>

section \<open>The store\<close>

datatype isolation = ReadCommitted | Snapshot | Serializable

record version =
  ver_value :: bytes
  ver_txn_id :: nat
  ver_commit_ts :: "nat option"

type_synonym chain = "version list"

record mvcc_store =
  ms_chains :: "(str \<times> chain) list"
  ms_ts :: nat

definition mvcc_new :: mvcc_store where
  "mvcc_new = \<lparr>ms_chains = [], ms_ts = 0\<rparr>"

definition next_ts :: "mvcc_store \<Rightarrow> nat \<times> mvcc_store" where
  "next_ts s = (ms_ts s + 1, s\<lparr>ms_ts := ms_ts s + 1\<rparr>)"

definition current_ts :: "mvcc_store \<Rightarrow> nat" where
  "current_ts s = ms_ts s"

definition chain_of :: "mvcc_store \<Rightarrow> str \<Rightarrow> chain" where
  "chain_of s key = (case map_of (ms_chains s) key of None \<Rightarrow> [] | Some c \<Rightarrow> c)"

fun read_chain :: "chain \<Rightarrow> nat \<Rightarrow> bytes option" where
  "read_chain [] snapshot_ts = None"
| "read_chain (v # prev) snapshot_ts =
     (case ver_commit_ts v of
        Some cts \<Rightarrow> if cts \<le> snapshot_ts then Some (ver_value v) else read_chain prev snapshot_ts
      | None \<Rightarrow> read_chain prev snapshot_ts)"

definition mvcc_read :: "mvcc_store \<Rightarrow> str \<Rightarrow> nat \<Rightarrow> bytes option" where
  "mvcc_read s key snapshot_ts = read_chain (chain_of s key) snapshot_ts"

definition write_intent :: "str \<Rightarrow> bytes \<Rightarrow> nat \<Rightarrow> mvcc_store \<Rightarrow> mvcc_store" where
  "write_intent key value txn_id s =
     s\<lparr>ms_chains := hm_insert key
        (\<lparr>ver_value = value, ver_txn_id = txn_id, ver_commit_ts = None\<rparr> # chain_of s key)
        (bt_remove key (ms_chains s))\<rparr>"

definition commit_key :: "str \<Rightarrow> nat \<Rightarrow> nat \<Rightarrow> mvcc_store \<Rightarrow> bool \<times> mvcc_store" where
  "commit_key key txn_id commit_ts s =
     (case map_of (ms_chains s) key of
        Some (ver # prev) \<Rightarrow>
          if ver_txn_id ver = txn_id \<and> ver_commit_ts ver = None
          then (True, s\<lparr>ms_chains := hm_set key (ver\<lparr>ver_commit_ts := Some commit_ts\<rparr> # prev) (ms_chains s)\<rparr>)
          else (False, s)
      | _ \<Rightarrow> (False, s))"

definition abort_key :: "str \<Rightarrow> nat \<Rightarrow> mvcc_store \<Rightarrow> mvcc_store" where
  "abort_key key txn_id s =
     (case map_of (ms_chains s) key of
        Some (ver # prev) \<Rightarrow>
          if ver_txn_id ver = txn_id \<and> ver_commit_ts ver = None
          then (let m = bt_remove key (ms_chains s)
                in s\<lparr>ms_chains := (if prev = [] then m else hm_insert key prev m)\<rparr>)
          else s
      | _ \<Rightarrow> s)"

fun committed_since :: "chain \<Rightarrow> nat \<Rightarrow> bool" where
  "committed_since [] since_ts = False"
| "committed_since (v # prev) since_ts =
     (case ver_commit_ts v of
        Some cts \<Rightarrow> cts > since_ts \<or> committed_since prev since_ts
      | None \<Rightarrow> committed_since prev since_ts)"

definition has_committed_since :: "mvcc_store \<Rightarrow> str \<Rightarrow> nat \<Rightarrow> bool" where
  "has_committed_since s key since_ts = committed_since (chain_of s key) since_ts"

text \<open>The inner loop of \<^verbatim>\<open>gc\<close>: the chain that stays and the number of versions cut off.\<close>

fun gc_chain :: "nat \<Rightarrow> bool \<Rightarrow> chain \<Rightarrow> chain \<times> nat" where
  "gc_chain oldest seen_committed [] = ([], 0)"
| "gc_chain oldest seen_committed (cur # prev) =
     (case ver_commit_ts cur of
        Some cts \<Rightarrow>
          if seen_committed \<and> cts < oldest then ([cur], length prev)
          else (let (kept, removed) = gc_chain oldest True prev in (cur # kept, removed))
      | None \<Rightarrow> (let (kept, removed) = gc_chain oldest seen_committed prev in (cur # kept, removed)))"

definition mvcc_gc :: "nat \<Rightarrow> mvcc_store \<Rightarrow> nat \<times> mvcc_store" where
  "mvcc_gc oldest_active_ts s =
     (sum_list (map (\<lambda>(k, c). snd (gc_chain oldest_active_ts False c)) (ms_chains s)),
      s\<lparr>ms_chains := map (\<lambda>(k, c). (k, fst (gc_chain oldest_active_ts False c))) (ms_chains s)\<rparr>)"

definition version_count :: "mvcc_store \<Rightarrow> nat" where
  "version_count s = sum_list (map (\<lambda>(k, c). length c) (ms_chains s))"

section \<open>Transactions\<close>

record transaction =
  tx_id :: nat
  tx_snapshot_ts :: nat
  tx_isolation :: isolation
  tx_writes :: "(str \<times> bytes) list"
  tx_reads :: "str list"

definition tx_new :: "mvcc_store \<Rightarrow> nat \<Rightarrow> isolation \<Rightarrow> transaction" where
  "tx_new s txn_id isol =
     \<lparr>tx_id = txn_id, tx_snapshot_ts = current_ts s, tx_isolation = isol, tx_writes = [], tx_reads = []\<rparr>"

definition tx_get :: "mvcc_store \<Rightarrow> str \<Rightarrow> transaction \<Rightarrow> bytes option \<times> transaction" where
  "tx_get s key t =
     (case map_of (tx_writes t) key of
        Some val \<Rightarrow> (Some val, t)
      | None \<Rightarrow>
          (let ts = (case tx_isolation t of ReadCommitted \<Rightarrow> current_ts s | _ \<Rightarrow> tx_snapshot_ts t);
               t1 = (if tx_isolation t = Serializable then t\<lparr>tx_reads := tx_reads t @ [key]\<rparr> else t)
           in (mvcc_read s key ts, t1)))"

definition tx_put :: "str \<Rightarrow> bytes \<Rightarrow> transaction \<Rightarrow> transaction" where
  "tx_put key value t = t\<lparr>tx_writes := hm_insert key value (tx_writes t)\<rparr>"

text \<open>The error carries the key named in the message.\<close>

definition tx_commit :: "transaction \<Rightarrow> mvcc_store \<Rightarrow> (str + nat) \<times> mvcc_store" where
  "tx_commit t s =
     (case (if tx_isolation t = Serializable
            then find (\<lambda>key. has_committed_since s key (tx_snapshot_ts t)) (tx_reads t) else None) of
        Some key \<Rightarrow> (Inl key, s)
      | None \<Rightarrow>
          (let s1 = fold (\<lambda>(key, value). write_intent key value (tx_id t)) (tx_writes t) s;
               (commit_ts, s2) = next_ts s1;
               s3 = fold (\<lambda>(key, value) s. snd (commit_key key (tx_id t) commit_ts s)) (tx_writes t) s2
           in (Inr commit_ts, s3)))"

definition tx_abort :: "transaction \<Rightarrow> mvcc_store \<Rightarrow> mvcc_store" where
  "tx_abort t s = s"

record tx_manager =
  tm_store :: mvcc_store
  tm_next_txn_id :: nat

definition tm_begin :: "isolation \<Rightarrow> tx_manager \<Rightarrow> transaction \<times> tx_manager" where
  "tm_begin isol m =
     (let txid = tm_next_txn_id m + 1
      in (tx_new (tm_store m) txid isol, m\<lparr>tm_next_txn_id := txid\<rparr>))"

section \<open>Chains\<close>

definition store_ok :: "mvcc_store \<Rightarrow> bool" where
  "store_ok s = distinct (map fst (ms_chains s))"

lemma chain_of_write_intent [simp]:
  "chain_of (write_intent key value i s) k =
     (if k = key then \<lparr>ver_value = value, ver_txn_id = i, ver_commit_ts = None\<rparr> # chain_of s key
      else chain_of s k)"
  by (simp add: chain_of_def write_intent_def)

lemma commit_key_chain:
  "chain_of (snd (commit_key key i ts s)) k =
     (case chain_of s key of
        v # prev \<Rightarrow>
          if k = key \<and> ver_txn_id v = i \<and> ver_commit_ts v = None
          then v\<lparr>ver_commit_ts := Some ts\<rparr> # prev else chain_of s k
      | [] \<Rightarrow> chain_of s k)"
  by (auto simp: chain_of_def commit_key_def map_of_hm_set image_iff
      split: option.splits list.splits dest: map_of_SomeD) (metis fst_conv map_of_SomeD)+

lemma commit_key_other [simp]: "k \<noteq> key \<Longrightarrow> chain_of (snd (commit_key key i ts s)) k = chain_of s k"
  by (simp add: commit_key_chain split: list.split)

lemma abort_key_chain:
  "chain_of (abort_key key i s) k =
     (case chain_of s key of
        v # prev \<Rightarrow>
          if k = key \<and> ver_txn_id v = i \<and> ver_commit_ts v = None then prev else chain_of s k
      | [] \<Rightarrow> chain_of s k)"
  by (auto simp: chain_of_def abort_key_def Let_def split: option.splits list.splits)

lemma chain_of_gc: "chain_of (snd (mvcc_gc ts s)) k = fst (gc_chain ts False (chain_of s k))"
  by (simp add: chain_of_def mvcc_gc_def map_of_map_snd split: option.split)

lemma clock_frame [simp]:
  "ms_ts (write_intent key value i s) = ms_ts s"
  "ms_ts (snd (commit_key key i ts s)) = ms_ts s"
  "ms_ts (abort_key key i s) = ms_ts s"
  "ms_ts (snd (mvcc_gc ts s)) = ms_ts s"
  by (auto simp: write_intent_def commit_key_def abort_key_def mvcc_gc_def Let_def
      split: option.split list.split)

text \<open>A reader at or above the horizon never looks below the cut.\<close>

lemma read_gc_chain:
  "oldest \<le> ts \<Longrightarrow> read_chain (fst (gc_chain oldest seen c)) ts = read_chain c ts"
  by (induction oldest seen c rule: gc_chain.induct) (auto split: option.splits prod.splits)

lemma gc_chain_count: "length (fst (gc_chain oldest seen c)) + snd (gc_chain oldest seen c) = length c"
  by (induction oldest seen c rule: gc_chain.induct) (auto split: option.splits prod.splits)

lemma read_write_intent [simp]: "mvcc_read (write_intent key value i s) k ts = mvcc_read s k ts"
  by (simp add: mvcc_read_def)

lemma read_commit_key: "ts < cts \<Longrightarrow> mvcc_read (snd (commit_key key i cts s)) k ts = mvcc_read s k ts"
  by (auto simp: mvcc_read_def commit_key_chain split: list.split)

lemma read_abort_key [simp]: "mvcc_read (abort_key key i s) k ts = mvcc_read s k ts"
  by (auto simp: mvcc_read_def abort_key_chain split: list.split)

lemma chain_of_clock [simp]: "chain_of (s\<lparr>ms_ts := n\<rparr>) k = chain_of s k"
  by (simp add: chain_of_def)

lemma read_clock [simp]: "mvcc_read (s\<lparr>ms_ts := n\<rparr>) k ts = mvcc_read s k ts"
  by (simp add: mvcc_read_def)

lemma read_gc: "oldest \<le> ts \<Longrightarrow> mvcc_read (snd (mvcc_gc oldest s)) k ts = mvcc_read s k ts"
  by (simp add: mvcc_read_def chain_of_gc read_gc_chain)

section \<open>The uninterrupted commit\<close>

abbreviation intent :: "transaction \<Rightarrow> bytes \<Rightarrow> version" where
  "intent t v \<equiv> \<lparr>ver_value = v, ver_txn_id = tx_id t, ver_commit_ts = None\<rparr>"

lemma install_chain:
  "distinct (map fst ws) \<Longrightarrow>
   chain_of (fold (\<lambda>(key, value). write_intent key value i) ws s) k =
     (case map_of ws k of
        Some v \<Rightarrow> \<lparr>ver_value = v, ver_txn_id = i, ver_commit_ts = None\<rparr> # chain_of s k
      | None \<Rightarrow> chain_of s k)"
proof (induction ws arbitrary: s)
  case (Cons w ws)
  obtain key v where "w = (key, v)" by fastforce
  moreover from this Cons.prems have "map_of ws key = None" by (simp add: map_of_eq_None_iff)
  ultimately show ?case using Cons by (auto split: option.splits)
qed simp

lemma stamp_chain:
  "distinct (map fst ws) \<Longrightarrow> \<forall>(key, v) \<in> set ws. \<exists>prev. chain_of s key = intent t v # prev \<Longrightarrow>
   chain_of (fold (\<lambda>(key, value) s. snd (commit_key key (tx_id t) cts s)) ws s) k =
     (case map_of ws k of
        Some v \<Rightarrow> (intent t v)\<lparr>ver_commit_ts := Some cts\<rparr> # tl (chain_of s k)
      | None \<Rightarrow> chain_of s k)"
proof (induction ws arbitrary: s)
  case (Cons w ws)
  obtain key v where w: "w = (key, v)" by fastforce
  with Cons.prems obtain prev where prev: "chain_of s key = intent t v # prev" by auto
  let ?s = "snd (commit_key key (tx_id t) cts s)"
  have key: "map_of ws key = None" using Cons.prems(1) w by (simp add: map_of_eq_None_iff)
  then have "key' \<noteq> key" if "(key', v') \<in> set ws" for key' v'
    using that by (force simp: map_of_eq_None_iff)
  then have "\<forall>(key', v) \<in> set ws. \<exists>prev. chain_of ?s key' = intent t v # prev"
    using Cons.prems(2) by auto
  with Cons.IH [of ?s] Cons.prems(1) w prev key show ?case
    by (auto simp: commit_key_chain split: option.split)
qed simp

definition tx_ok :: "transaction \<Rightarrow> bool" where
  "tx_ok t = distinct (map fst (tx_writes t))"

lemma clock_install [simp]:
  "ms_ts (fold (\<lambda>(key, value). write_intent key value i) ws s) = ms_ts s"
  by (induction ws arbitrary: s) auto

lemma clock_stamp [simp]:
  "ms_ts (fold (\<lambda>(key, value) s. snd (commit_key key i cts s)) ws s) = ms_ts s"
  by (induction ws arbitrary: s) auto

lemma tx_commit_chain:
  assumes "tx_ok t" "fst (tx_commit t s) = Inr cts"
  shows "cts = ms_ts s + 1" "ms_ts (snd (tx_commit t s)) = cts"
    "chain_of (snd (tx_commit t s)) k =
      (case map_of (tx_writes t) k of
         Some v \<Rightarrow> (intent t v)\<lparr>ver_commit_ts := Some cts\<rparr> # chain_of s k
       | None \<Rightarrow> chain_of s k)"
proof -
  let ?s1 = "fold (\<lambda>(key, value). write_intent key value (tx_id t)) (tx_writes t) s"
  let ?s2 = "snd (next_ts ?s1)"
  have cts: "cts = ms_ts s + 1" and res: "snd (tx_commit t s) =
      fold (\<lambda>(key, value) s. snd (commit_key key (tx_id t) cts s)) (tx_writes t) ?s2"
    using assms(2) by (auto simp: tx_commit_def Let_def next_ts_def split: option.splits if_splits)
  show "cts = ms_ts s + 1" "ms_ts (snd (tx_commit t s)) = cts"
    using cts res by (simp_all add: next_ts_def)
  have d: "distinct (map fst (tx_writes t))" using assms(1) by (simp add: tx_ok_def)
  have s2: "chain_of ?s2 k =
      (case map_of (tx_writes t) k of Some v \<Rightarrow> intent t v # chain_of s k | None \<Rightarrow> chain_of s k)" for k
    using install_chain [OF d, of "tx_id t" s k] by (simp add: next_ts_def chain_of_def)
  have "\<forall>(key, v) \<in> set (tx_writes t). \<exists>prev. chain_of ?s2 key = intent t v # prev"
    using d by (auto simp: s2)
  from stamp_chain [OF d this] show "chain_of (snd (tx_commit t s)) k =
      (case map_of (tx_writes t) k of
         Some v \<Rightarrow> (intent t v)\<lparr>ver_commit_ts := Some cts\<rparr> # chain_of s k
       | None \<Rightarrow> chain_of s k)"
    by (simp add: res s2 split: option.split)
qed

lemma tx_commit_reads:
  assumes "tx_ok t" "fst (tx_commit t s) = Inr cts"
  shows "mvcc_read (snd (tx_commit t s)) k ts =
    (case map_of (tx_writes t) k of
       Some v \<Rightarrow> if cts \<le> ts then Some v else mvcc_read s k ts
     | None \<Rightarrow> mvcc_read s k ts)"
  using tx_commit_chain(3) [OF assms, of k] by (simp add: mvcc_read_def split: option.split)

section \<open>Interleaved transactions\<close>

text \<open>Where a transaction is in its commit, between two calls of the store.\<close>

datatype tx_pc =
    Running
  | Validate "str list"
  | Install "(str \<times> bytes) list"
  | Stamp nat "str list"
  | Committed nat
  | Conflict str

fun commit_step :: "transaction \<Rightarrow> tx_pc \<Rightarrow> mvcc_store \<Rightarrow> (tx_pc \<times> mvcc_store) option" where
  "commit_step t Running s =
     Some (if tx_isolation t = Serializable then Validate (tx_reads t) else Install (tx_writes t), s)"
| "commit_step t (Validate []) s = Some (Install (tx_writes t), s)"
| "commit_step t (Validate (key # keys)) s =
     Some (if has_committed_since s key (tx_snapshot_ts t) then Conflict key else Validate keys, s)"
| "commit_step t (Install ((key, value) # ws)) s = Some (Install ws, write_intent key value (tx_id t) s)"
| "commit_step t (Install []) s = (let (ts, s1) = next_ts s in Some (Stamp ts (map fst (tx_writes t)), s1))"
| "commit_step t (Stamp ts (key # keys)) s = Some (Stamp ts keys, snd (commit_key key (tx_id t) ts s))"
| "commit_step t (Stamp ts []) s = Some (Committed ts, s)"
| "commit_step t (Committed ts) s = None"
| "commit_step t (Conflict key) s = None"

record mvcc_sys =
  sy_store :: mvcc_store
  sy_next_id :: nat
  sy_txs :: "(transaction \<times> tx_pc) list"
  sy_log :: "(nat \<times> str \<times> bytes option) list"

datatype mvcc_event =
    EBegin isolation
  | EGet nat str
  | EPut nat str bytes
  | ECommit nat
  | EGc nat

definition mvcc_init :: mvcc_sys where
  "mvcc_init = \<lparr>sy_store = mvcc_new, sy_next_id = 0, sy_txs = [], sy_log = []\<rparr>"

text \<open>One event: a call of a running transaction, or the next store call of a commit.\<close>

fun mvcc_exec :: "mvcc_event \<Rightarrow> mvcc_sys \<Rightarrow> mvcc_sys option" where
  "mvcc_exec (EBegin isol) y =
     (let (t, m) = tm_begin isol \<lparr>tm_store = sy_store y, tm_next_txn_id = sy_next_id y\<rparr>
      in Some (y\<lparr>sy_next_id := tm_next_txn_id m, sy_txs := sy_txs y @ [(t, Running)]\<rparr>))"
| "mvcc_exec (EGet i key) y =
     (if i < length (sy_txs y) \<and> snd (sy_txs y ! i) = Running
      then (let (res, t) = tx_get (sy_store y) key (fst (sy_txs y ! i))
            in Some (y\<lparr>sy_txs := (sy_txs y)[i := (t, Running)], sy_log := sy_log y @ [(i, key, res)]\<rparr>))
      else None)"
| "mvcc_exec (EPut i key value) y =
     (if i < length (sy_txs y) \<and> snd (sy_txs y ! i) = Running
      then Some (y\<lparr>sy_txs := (sy_txs y)[i := (tx_put key value (fst (sy_txs y ! i)), Running)]\<rparr>)
      else None)"
| "mvcc_exec (ECommit i) y =
     (if i < length (sy_txs y)
      then (case commit_step (fst (sy_txs y ! i)) (snd (sy_txs y ! i)) (sy_store y) of
              None \<Rightarrow> None
            | Some (pc, s) \<Rightarrow>
                Some (y\<lparr>sy_store := s, sy_txs := (sy_txs y)[i := (fst (sy_txs y ! i), pc)]\<rparr>))
      else None)"
| "mvcc_exec (EGc oldest) y = Some (y\<lparr>sy_store := snd (mvcc_gc oldest (sy_store y))\<rparr>)"

inductive mvcc_step :: "mvcc_sys \<Rightarrow> mvcc_sys \<Rightarrow> bool" where
  "mvcc_exec e y = Some y' \<Longrightarrow> mvcc_step y y'"

inductive_cases mvcc_stepE: "mvcc_step y y'"

primrec mvcc_run :: "mvcc_event list \<Rightarrow> mvcc_sys \<Rightarrow> mvcc_sys option" where
  "mvcc_run [] y = Some y"
| "mvcc_run (e # es) y = Option.bind (mvcc_exec e y) (mvcc_run es)"

lemma mvcc_run_steps: "mvcc_run es y = Some y' \<Longrightarrow> mvcc_step\<^sup>*\<^sup>* y y'"
  by (induction es arbitrary: y)
    (auto simp: bind_eq_Some_conv intro: mvcc_step.intros converse_rtranclp_into_rtranclp)

text \<open>The commit of a transaction, run without interruption.\<close>

definition commit_next :: "transaction \<Rightarrow> tx_pc \<times> mvcc_store \<Rightarrow> tx_pc \<times> mvcc_store \<Rightarrow> bool" where
  "commit_next t c c' = (commit_step t (fst c) (snd c) = Some c')"

lemma commit_nextI: "commit_step t pc s = Some (pc', s') \<Longrightarrow> (commit_next t)\<^sup>*\<^sup>* (pc', s') c \<Longrightarrow>
    (commit_next t)\<^sup>*\<^sup>* (pc, s) c"
  by (rule converse_rtranclp_into_rtranclp [of _ _ "(pc', s')"]) (simp_all add: commit_next_def)

lemma commit_validate:
  "(commit_next t)\<^sup>*\<^sup>* (Validate keys, s)
     (case find (\<lambda>key. has_committed_since s key (tx_snapshot_ts t)) keys of
        Some key \<Rightarrow> (Conflict key, s) | None \<Rightarrow> (Install (tx_writes t), s))"
  by (induction keys) (auto intro: commit_nextI)

lemma commit_install:
  "(commit_next t)\<^sup>*\<^sup>* (Install ws, s)
     (Install [], fold (\<lambda>(key, value). write_intent key value (tx_id t)) ws s)"
  by (induction ws arbitrary: s) (auto intro: commit_nextI)

lemma commit_stamp:
  "(commit_next t)\<^sup>*\<^sup>* (Stamp ts (map fst ws), s)
     (Committed ts, fold (\<lambda>(key, value) s. snd (commit_key key (tx_id t) ts s)) ws s)"
  by (induction ws arbitrary: s) (auto intro: commit_nextI)

lemma commit_from_install:
  "(commit_next t)\<^sup>*\<^sup>* (Install (tx_writes t), s)
     (let s1 = fold (\<lambda>(key, value). write_intent key value (tx_id t)) (tx_writes t) s;
          (ts, s2) = next_ts s1
      in (Committed ts, fold (\<lambda>(key, value) s. snd (commit_key key (tx_id t) ts s)) (tx_writes t) s2))"
proof -
  let ?s1 = "fold (\<lambda>(key, value). write_intent key value (tx_id t)) (tx_writes t) s"
  have "commit_step t (Install []) ?s1 =
      Some (Stamp (fst (next_ts ?s1)) (map fst (tx_writes t)), snd (next_ts ?s1))"
    by (simp add: next_ts_def)
  from commit_nextI [OF this commit_stamp] rtranclp_trans [OF commit_install] show ?thesis
    by (auto simp: Let_def split: prod.split)
qed

lemma tx_commit_runs:
  "(commit_next t)\<^sup>*\<^sup>* (Running, s)
     (case fst (tx_commit t s) of Inl key \<Rightarrow> Conflict key | Inr ts \<Rightarrow> Committed ts, snd (tx_commit t s))"
proof -
  let ?f = "find (\<lambda>key. has_committed_since s key (tx_snapshot_ts t)) (tx_reads t)"
  have start: "(commit_next t)\<^sup>*\<^sup>* (Running, s)
      (case (if tx_isolation t = Serializable then ?f else None) of
         Some key \<Rightarrow> (Conflict key, s) | None \<Rightarrow> (Install (tx_writes t), s))"
    using commit_validate [of t "tx_reads t" s] by (auto intro: commit_nextI)
  show ?thesis
  proof (cases "if tx_isolation t = Serializable then ?f else None")
    case None
    with start have "(commit_next t)\<^sup>*\<^sup>* (Running, s) (Install (tx_writes t), s)" by simp
    from rtranclp_trans [OF this commit_from_install] None show ?thesis
      by (simp add: tx_commit_def Let_def next_ts_def)
  next
    case (Some key)
    with start show ?thesis by (simp add: tx_commit_def)
  qed
qed

section \<open>Snapshots under interleaving\<close>

text \<open>A commit that still has to stamp keys with a timestamp the snapshot includes.\<close>

definition pending_at :: "nat \<Rightarrow> (transaction \<times> tx_pc) list \<Rightarrow> bool" where
  "pending_at ts txs = (\<exists>p \<in> set txs. case snd p of Stamp cts keys \<Rightarrow> cts \<le> ts | _ \<Rightarrow> False)"

definition settled :: "nat \<Rightarrow> mvcc_sys \<Rightarrow> bool" where
  "settled ts y = (ts \<le> ms_ts (sy_store y) \<and> \<not> pending_at ts (sy_txs y))"

fun gc_respects :: "nat \<Rightarrow> mvcc_event \<Rightarrow> bool" where
  "gc_respects ts (EGc oldest) = (oldest \<le> ts)"
| "gc_respects ts e = True"

lemma commit_step_settled:
  assumes "commit_step t pc s = Some (pc', s')" "ts \<le> ms_ts s" "\<forall>cts keys. pc = Stamp cts keys \<longrightarrow> ts < cts"
  shows "ts \<le> ms_ts s' \<and> (\<forall>cts keys. pc' = Stamp cts keys \<longrightarrow> ts < cts) \<and> mvcc_read s' k ts = mvcc_read s k ts"
  using assms
  by (cases "(t, pc, s)" rule: commit_step.cases)
    (auto simp: next_ts_def read_commit_key split: if_splits)

lemma pending_update:
  assumes "\<not> pending_at ts txs" "\<forall>cts keys. pc = Stamp cts keys \<longrightarrow> ts < cts"
  shows "\<not> pending_at ts (txs[i := (t, pc)])"
proof -
  have "\<not> (case pc of Stamp cts keys \<Rightarrow> cts \<le> ts | _ \<Rightarrow> False)"
    using assms(2) by (auto split: tx_pc.split)
  then show ?thesis
    using assms(1) by (auto simp: pending_at_def dest!: set_update_subset_insert [THEN subsetD])
qed

lemma pending_begin [simp]: "pending_at ts (txs @ [(t, Running)]) = pending_at ts txs"
  by (auto simp: pending_at_def)

lemma exec_settled:
  assumes "mvcc_exec e y = Some y'" "settled ts y" "gc_respects ts e"
  shows "settled ts y' \<and> mvcc_read (sy_store y') k ts = mvcc_read (sy_store y) k ts"
proof (cases e)
  case (EBegin isol)
  with assms show ?thesis
    by (auto simp: settled_def Let_def tm_begin_def)
next
  case (EGet i key)
  with assms pending_update [of ts "sy_txs y" Running i] show ?thesis
    by (auto simp: settled_def split: if_splits prod.splits)
next
  case (EPut i key v)
  with assms pending_update [of ts "sy_txs y" Running i] show ?thesis
    by (auto simp: settled_def split: if_splits)
next
  case (ECommit i)
  with assms(1) obtain pc' s' where i: "i < length (sy_txs y)"
    and st: "commit_step (fst (sy_txs y ! i)) (snd (sy_txs y ! i)) (sy_store y) = Some (pc', s')"
    and y': "y' = y\<lparr>sy_store := s', sy_txs := (sy_txs y)[i := (fst (sy_txs y ! i), pc')]\<rparr>"
    by (auto split: if_splits option.splits)
  have "\<forall>cts keys. snd (sy_txs y ! i) = Stamp cts keys \<longrightarrow> ts < cts"
    using assms(2) nth_mem [OF i] by (fastforce simp: settled_def pending_at_def)
  with commit_step_settled [OF st _ this] assms(2) pending_update [of ts "sy_txs y" pc' i "fst (sy_txs y ! i)"]
  show ?thesis
    by (auto simp: settled_def y')
next
  case (EGc oldest)
  with assms show ?thesis
    by (auto simp: settled_def read_gc)
qed

lemma run_settled:
  "mvcc_run es y = Some y' \<Longrightarrow> settled ts y \<Longrightarrow> list_all (gc_respects ts) es \<Longrightarrow>
   mvcc_read (sy_store y') k ts = mvcc_read (sy_store y) k ts"
proof (induction es arbitrary: y)
  case (Cons e es)
  then obtain y1 where "mvcc_exec e y = Some y1" "mvcc_run es y1 = Some y'"
    by (auto simp: bind_eq_Some_conv)
  with Cons exec_settled [of e y y1 ts k] show ?case by auto
qed simp

section \<open>The order of commit timestamps\<close>

definition commit_times :: "chain \<Rightarrow> nat list" where
  "commit_times c = List.map_filter ver_commit_ts c"

lemma commit_times_simps [simp]:
  "commit_times [] = []"
  "commit_times (v # c) = (case ver_commit_ts v of None \<Rightarrow> commit_times c | Some x \<Rightarrow> x # commit_times c)"
  by (simp_all add: commit_times_def split: option.split)

definition chains_ordered :: "mvcc_store \<Rightarrow> bool" where
  "chains_ordered s =
     (\<forall>k. sorted_wrt (>) (commit_times (chain_of s k)) \<and>
          (\<forall>x \<in> set (commit_times (chain_of s k)). x \<le> ms_ts s))"

text \<open>What a transaction that is stamping relies on: its timestamp is above everything below its intents.\<close>

definition stamp_ok :: "mvcc_store \<Rightarrow> nat \<Rightarrow> tx_pc \<Rightarrow> bool" where
  "stamp_ok s i pc =
     (\<forall>cts keys. pc = Stamp cts keys \<longrightarrow> cts \<le> ms_ts s \<and>
        (\<forall>k v prev. chain_of s k = v # prev \<longrightarrow> ver_txn_id v = i \<longrightarrow> ver_commit_ts v = None \<longrightarrow>
           (\<forall>x \<in> set (commit_times prev). x < cts)))"

definition mvcc_inv :: "mvcc_sys \<Rightarrow> bool" where
  "mvcc_inv y =
     (chains_ordered (sy_store y) \<and> distinct (map (\<lambda>p. tx_id (fst p)) (sy_txs y)) \<and>
      (\<forall>p \<in> set (sy_txs y). tx_id (fst p) \<le> sy_next_id y \<and> stamp_ok (sy_store y) (tx_id (fst p)) (snd p)))"

lemma commit_times_append [simp]: "commit_times (c @ d) = commit_times c @ commit_times d"
  by (induction c) (auto split: option.split)

lemma gc_chain_prefix: "\<exists>r. c = fst (gc_chain oldest seen c) @ r"
  by (induction oldest seen c rule: gc_chain.induct) (auto split: option.splits prod.splits)

lemma gc_ordered: "chains_ordered s \<Longrightarrow> chains_ordered (snd (mvcc_gc oldest s))"
proof -
  assume o: "chains_ordered s"
  have "sorted_wrt (>) (commit_times (fst (gc_chain oldest False (chain_of s k)))) \<and>
      (\<forall>x \<in> set (commit_times (fst (gc_chain oldest False (chain_of s k)))). x \<le> ms_ts s)" for k
  proof -
    obtain r where r: "chain_of s k = fst (gc_chain oldest False (chain_of s k)) @ r"
      using gc_chain_prefix by blast
    have "sorted_wrt (>) (commit_times (fst (gc_chain oldest False (chain_of s k)) @ r)) \<and>
        (\<forall>x \<in> set (commit_times (fst (gc_chain oldest False (chain_of s k)) @ r)). x \<le> ms_ts s)"
      using o unfolding chains_ordered_def r [symmetric] by blast
    then show ?thesis by (simp add: sorted_wrt_append)
  qed
  then show ?thesis by (simp add: chains_ordered_def chain_of_gc)
qed

lemma gc_stamp_ok: "stamp_ok s i pc \<Longrightarrow> stamp_ok (snd (mvcc_gc oldest s)) i pc"
proof -
  assume a: "stamp_ok s i pc"
  have tail: "\<exists>r. chain_of s k = v # prev @ r" if "chain_of (snd (mvcc_gc oldest s)) k = v # prev" for k v prev
    using that gc_chain_prefix [of "chain_of s k" oldest False] by (auto simp: chain_of_gc)
  show ?thesis
    unfolding stamp_ok_def clock_frame
  proof (intro allI impI conjI ballI)
    fix cts keys assume "pc = Stamp cts keys"
    with a show "cts \<le> ms_ts s" by (simp add: stamp_ok_def)
  next
    fix cts keys k v prev x
    assume h: "pc = Stamp cts keys" "chain_of (snd (mvcc_gc oldest s)) k = v # prev" "ver_txn_id v = i"
      "ver_commit_ts v = None" "x \<in> set (commit_times prev)"
    obtain r where "chain_of s k = v # prev @ r" using tail [OF h(2)] ..
    with a h(1,3-5) show "x < cts" by (auto simp: stamp_ok_def)
  qed
qed

lemma write_intent_ordered: "chains_ordered s \<Longrightarrow> chains_ordered (write_intent k v i s)"
  by (simp add: chains_ordered_def)

lemma write_intent_stamp_ok: "stamp_ok s j pc \<Longrightarrow> i \<noteq> j \<Longrightarrow> stamp_ok (write_intent k v i s) j pc"
  by (auto simp: stamp_ok_def)

lemma next_ts_ordered: "chains_ordered s \<Longrightarrow> chains_ordered (snd (next_ts s))"
  by (auto simp: chains_ordered_def next_ts_def intro: le_SucI)

lemma next_ts_stamp_ok: "stamp_ok s j pc \<Longrightarrow> stamp_ok (snd (next_ts s)) j pc"
  by (auto simp: stamp_ok_def next_ts_def)

lemma next_ts_own: "chains_ordered s \<Longrightarrow> stamp_ok (snd (next_ts s)) j (Stamp (fst (next_ts s)) keys)"
  by (auto simp: stamp_ok_def next_ts_def chains_ordered_def) (metis commit_times_simps(2) le_imp_less_Suc option.simps(4))

lemma commit_key_ordered:
  assumes "chains_ordered s" "stamp_ok s i (Stamp cts keys)"
  shows "chains_ordered (snd (commit_key key i cts s))"
proof -
  have "sorted_wrt (>) (commit_times (chain_of (snd (commit_key key i cts s)) k)) \<and>
      (\<forall>x \<in> set (commit_times (chain_of (snd (commit_key key i cts s)) k)). x \<le> ms_ts s)" for k
  proof (cases "k = key")
    case True
    have o: "sorted_wrt (>) (commit_times (chain_of s key))" "\<forall>x \<in> set (commit_times (chain_of s key)). x \<le> ms_ts s"
      using assms(1) by (auto simp: chains_ordered_def)
    show ?thesis
    proof (cases "chain_of s key")
      case (Cons v prev)
      with o assms(2) True show ?thesis
        by (auto simp: commit_key_chain stamp_ok_def)
    qed (use o True in \<open>simp add: commit_key_chain\<close>)
  qed (use assms(1) in \<open>simp add: chains_ordered_def\<close>)
  then show ?thesis by (simp add: chains_ordered_def)
qed

lemma commit_key_stamp_ok: "stamp_ok s j pc \<Longrightarrow> stamp_ok (snd (commit_key key i cts s)) j pc"
  by (auto simp: stamp_ok_def commit_key_chain split: list.splits if_splits)

lemma stamp_ok_keys: "stamp_ok s i (Stamp ts keys) \<longleftrightarrow> stamp_ok s i (Stamp ts keys')"
  by (simp add: stamp_ok_def)

lemma commit_step_inv:
  assumes "commit_step t pc s = Some (pc', s')" "chains_ordered s" "stamp_ok s (tx_id t) pc"
  shows "chains_ordered s' \<and> stamp_ok s' (tx_id t) pc' \<and>
    (\<forall>j pcj. j \<noteq> tx_id t \<longrightarrow> stamp_ok s j pcj \<longrightarrow> stamp_ok s' j pcj)"
  using assms
proof (cases "(t, pc, s)" rule: commit_step.cases)
  case (5 t s)
  with assms show ?thesis
    using next_ts_ordered [of s] next_ts_stamp_ok [of s] next_ts_own [of s]
    by (auto split: prod.splits)
next
  case (6 t ts key keys s)
  with assms show ?thesis
    using commit_key_ordered [of s "tx_id t" ts "key # keys" key]
      commit_key_stamp_ok [of s "tx_id t" "Stamp ts keys" key "tx_id t" ts]
    by (auto simp: commit_key_stamp_ok stamp_ok_keys [of s _ ts keys "key # keys"])
qed (auto simp: write_intent_ordered write_intent_stamp_ok stamp_ok_def [of _ _ "Install _"]
    stamp_ok_def [of _ _ "Validate _"] stamp_ok_def [of _ _ "Conflict _"] stamp_ok_def [of _ _ "Committed _"])

lemma mvcc_inv_update:
  assumes "mvcc_inv y" "i < length (sy_txs y)" "tx_id t = tx_id (fst (sy_txs y ! i))"
    "chains_ordered s" "stamp_ok s (tx_id t) pc"
    "\<And>j pcj. j \<noteq> tx_id t \<Longrightarrow> stamp_ok (sy_store y) j pcj \<Longrightarrow> stamp_ok s j pcj"
  shows "mvcc_inv (y\<lparr>sy_store := s, sy_txs := (sy_txs y)[i := (t, pc)], sy_log := log\<rparr>)"
proof -
  let ?ids = "map (\<lambda>p. tx_id (fst p)) (sy_txs y)"
  have ids: "map (\<lambda>p. tx_id (fst p)) ((sy_txs y)[i := (t, pc)]) = ?ids"
    using assms(2,3) by (simp add: map_update list_update_same_conv)
  have "tx_id (fst p) \<le> sy_next_id y \<and> stamp_ok s (tx_id (fst p)) (snd p)"
    if p: "p \<in> set ((sy_txs y)[i := (t, pc)])" for p
  proof -
    from p obtain j where j: "j < length (sy_txs y)" "p = (sy_txs y)[i := (t, pc)] ! j"
      by (auto simp: in_set_conv_nth)
    have y: "tx_id (fst (sy_txs y ! j)) \<le> sy_next_id y"
      "stamp_ok (sy_store y) (tx_id (fst (sy_txs y ! j))) (snd (sy_txs y ! j))"
      using assms(1) nth_mem [OF j(1)] by (auto simp: mvcc_inv_def)
    show ?thesis
    proof (cases "j = i")
      case True
      with j assms(3,5) y show ?thesis by simp
    next
      case False
      then have "tx_id (fst (sy_txs y ! j)) \<noteq> tx_id t"
        using assms(1-3) j(1) by (auto simp: mvcc_inv_def distinct_conv_nth)
      with False j y assms(6) show ?thesis by simp
    qed
  qed
  with assms(1,4) ids show ?thesis by (simp add: mvcc_inv_def)
qed

lemma stamp_ok_running [simp]: "stamp_ok s i Running"
  by (simp add: stamp_ok_def)

lemma tx_id_calls [simp]: "tx_id (snd (tx_get s key t)) = tx_id t" "tx_id (tx_put key v t) = tx_id t"
  by (simp_all add: tx_get_def tx_put_def Let_def split: option.split)

lemma exec_inv:
  assumes "mvcc_inv y" "mvcc_exec e y = Some y'"
  shows "mvcc_inv y'"
proof (cases e)
  case (EBegin isol)
  with assms show ?thesis
    by (fastforce simp: mvcc_inv_def tm_begin_def tx_new_def Let_def)
next
  case (EGet i key)
  with assms show ?thesis
    using mvcc_inv_update [OF assms(1), of i "snd (tx_get (sy_store y) key (fst (sy_txs y ! i)))" "sy_store y" Running]
    by (auto simp: mvcc_inv_def [of y] split: if_splits prod.splits)
next
  case (EPut i key v)
  with assms show ?thesis
    using mvcc_inv_update [OF assms(1), of i "tx_put key v (fst (sy_txs y ! i))" "sy_store y" Running "sy_log y"]
    by (auto simp: mvcc_inv_def [of y] split: if_splits)
next
  case (ECommit i)
  with assms(2) obtain pc' s' where i: "i < length (sy_txs y)"
    and st: "commit_step (fst (sy_txs y ! i)) (snd (sy_txs y ! i)) (sy_store y) = Some (pc', s')"
    and y': "y' = y\<lparr>sy_store := s', sy_txs := (sy_txs y)[i := (fst (sy_txs y ! i), pc')]\<rparr>"
    by (auto split: if_splits option.splits)
  have "chains_ordered (sy_store y)" "stamp_ok (sy_store y) (tx_id (fst (sy_txs y ! i))) (snd (sy_txs y ! i))"
    using assms(1) nth_mem [OF i] by (auto simp: mvcc_inv_def)
  from commit_step_inv [OF st this] mvcc_inv_update [OF assms(1) i refl, of s' pc' "sy_log y"]
  show ?thesis by (simp add: y')
next
  case (EGc oldest)
  then have "y' = y\<lparr>sy_store := snd (mvcc_gc oldest (sy_store y))\<rparr>"
    using assms(2) by simp
  then show ?thesis
    using assms(1) gc_ordered gc_stamp_ok unfolding mvcc_inv_def by simp
qed

interpretation mvcc_sys: step_invariant "\<lambda>y. y = mvcc_init" mvcc_step mvcc_inv
proof
  show "y = mvcc_init \<Longrightarrow> mvcc_inv y" for y
    by (simp add: mvcc_inv_def mvcc_init_def mvcc_new_def chains_ordered_def chain_of_def)
  show "mvcc_inv y \<Longrightarrow> mvcc_step y y' \<Longrightarrow> mvcc_inv y'" for y y'
    by (erule mvcc_stepE) (rule exec_inv)
qed

text \<open>On an ordered chain a read finds the latest commit at or below the snapshot.\<close>

lemma read_ordered:
  "sorted_wrt (>) (commit_times c) \<Longrightarrow>
   read_chain c ts = Some val \<longleftrightarrow>
     (\<exists>v \<in> set c. \<exists>x. ver_commit_ts v = Some x \<and> ver_value v = val \<and> x \<le> ts \<and>
        (\<forall>w \<in> set c. \<forall>z. ver_commit_ts w = Some z \<longrightarrow> z \<le> ts \<longrightarrow> z \<le> x))"
proof (induction c)
  case (Cons v c)
  have times: "x \<in> set (commit_times c) \<longleftrightarrow> (\<exists>w \<in> set c. ver_commit_ts w = Some x)" for x
    by (induction c) (auto split: option.splits)
  show ?case
  proof (cases "ver_commit_ts v")
    case None
    with Cons show ?thesis by auto
  next
    case (Some x)
    then have lt: "z < x" if "w \<in> set c" "ver_commit_ts w = Some z" for w z
      using Cons.prems times that by auto
    show ?thesis
    proof (cases "x \<le> ts")
      case True
      have "ver_value v' = ver_value v" if "v' \<in> set (v # c)" "ver_commit_ts v' = Some x'"
        "\<forall>w \<in> set (v # c). \<forall>z. ver_commit_ts w = Some z \<longrightarrow> z \<le> ts \<longrightarrow> z \<le> x'" for v' x'
        using that lt [of v' x'] True Some by fastforce
      moreover have "\<forall>w \<in> set (v # c). \<forall>z. ver_commit_ts w = Some z \<longrightarrow> z \<le> ts \<longrightarrow> z \<le> x"
        using lt Some by (auto intro: less_imp_le)
      ultimately show ?thesis using True Some by (auto simp del: set_simps) (metis list.set_intros(1))+
    next
      case False
      with Some Cons show ?thesis by auto
    qed
  qed
qed simp

section \<open>Properties\<close>

text \<open>Evaluation of concrete runs.\<close>

lemmas mvcc_eval = mvcc_init_def mvcc_new_def tm_begin_def tx_new_def tx_put_def tx_get_def Let_def
  next_ts_def hm_insert_def bt_remove_def hm_set_def write_intent_def commit_key_def chain_of_def
  mvcc_read_def current_ts_def has_committed_since_def mvcc_gc_def





text \<open>
  Garbage collection with a horizon changes no read at or above it, and the number it
  returns is the number of versions that disappeared.
\<close>

theorem mvcc_gc_safe:
  assumes "oldest \<le> ts"
  shows "mvcc_read (snd (mvcc_gc oldest s)) k ts = mvcc_read s k ts \<and>
    version_count (snd (mvcc_gc oldest s)) + fst (mvcc_gc oldest s) = version_count s"
proof -
  have "sum_list (map (\<lambda>(k, c). length (fst (gc_chain oldest False c))) cs) +
      sum_list (map (\<lambda>(k, c). snd (gc_chain oldest False c)) cs) =
      sum_list (map (\<lambda>(k, c). length c) cs)" for cs :: "(str \<times> chain) list"
  proof (induction cs)
    case (Cons kc cs)
    then show ?case using gc_chain_count [of oldest False "snd kc"] by (simp add: case_prod_beta)
  qed simp
  then show ?thesis
    using read_gc [OF assms] by (simp add: version_count_def mvcc_gc_def comp_def case_prod_unfold)
qed

theorem mvcc_gc_safe_witness:
  "mvcc_read (snd (mvcc_gc 1 mvcc_new)) [1] 2 = mvcc_read mvcc_new [1] 2"
  using mvcc_gc_safe [of 1 2 mvcc_new "[1]"] by simp

text \<open>
  (C28) A commit that no other transaction interrupts takes the next timestamp and makes all its
  writes visible from it on, and none before; other keys are unaffected. It fails exactly when
  a serializable transaction has read a key that was committed to after its snapshot, and then
  leaves the store unchanged.
\<close>

theorem tx_commit_atomic:
  assumes "distinct (map fst (tx_writes t))"
  shows "case tx_commit t s of
      (Inr cts, s') \<Rightarrow> cts = current_ts s + 1 \<and> current_ts s' = cts \<and>
        \<not> (tx_isolation t = Serializable \<and> (\<exists>k \<in> set (tx_reads t). has_committed_since s k (tx_snapshot_ts t))) \<and>
        (\<forall>k ts. mvcc_read s' k ts =
          (if cts \<le> ts \<and> map_of (tx_writes t) k \<noteq> None then map_of (tx_writes t) k else mvcc_read s k ts))
    | (Inl key, s') \<Rightarrow> s' = s \<and> tx_isolation t = Serializable \<and> key \<in> set (tx_reads t) \<and>
        has_committed_since s key (tx_snapshot_ts t)"
proof (cases "fst (tx_commit t s)")
  case (Inr cts)
  have ok: "tx_ok t" using assms by (simp add: tx_ok_def)
  have "\<not> (tx_isolation t = Serializable \<and> (\<exists>k \<in> set (tx_reads t). has_committed_since s k (tx_snapshot_ts t)))"
    using Inr by (auto simp: tx_commit_def find_None_iff split: option.splits if_splits)
  with Inr tx_commit_chain(1,2) [OF ok Inr] tx_commit_reads [OF ok Inr] show ?thesis
    by (auto simp: current_ts_def split: prod.split option.split)
next
  case (Inl key)
  then have iso: "tx_isolation t = Serializable"
    and f: "find (\<lambda>key. has_committed_since s key (tx_snapshot_ts t)) (tx_reads t) = Some key"
    by (auto simp: tx_commit_def Let_def next_ts_def split: option.splits if_splits)
  then have "key \<in> set (tx_reads t)" "has_committed_since s key (tx_snapshot_ts t)"
    by (auto simp: find_Some_iff)
  with iso f show ?thesis by (simp add: tx_commit_def)
qed

theorem tx_commit_atomic_witness:
  "\<exists>s'. tx_commit (tx_put [1] [9] (tx_new mvcc_new 1 Snapshot)) mvcc_new = (Inr 1, s') \<and>
     mvcc_read s' [1] 1 = Some [9]"
proof -
  let ?t = "tx_put [1] [9] (tx_new mvcc_new 1 Snapshot)"
  have t: "tx_writes ?t = [([1], [9])]" "tx_isolation ?t = Snapshot"
    by (simp_all add: tx_put_def tx_new_def hm_insert_def bt_remove_def)
  obtain s' where c: "tx_commit ?t mvcc_new = (Inr 1, s')"
    by (simp add: tx_commit_def mvcc_eval)
  from tx_commit_atomic [of ?t mvcc_new] c t show ?thesis by auto
qed

text \<open>
  Run without interruption, the step-wise commit of a transaction ends in exactly the
  outcome and the store that the commit function computes.
\<close>

theorem tx_commit_uninterrupted:
  "(commit_next t)\<^sup>*\<^sup>* (Running, s)
     (case fst (tx_commit t s) of Inl key \<Rightarrow> Conflict key | Inr ts \<Rightarrow> Committed ts, snd (tx_commit t s))"
  by (rule tx_commit_runs)

text \<open>
  Snapshot reads are not always repeatable. A transaction that begins after a commit has
  taken its timestamp and before it has stamped the key reads the same key twice, with snapshot
  isolation, and gets nothing the first time and the committed value the second time.
\<close>

theorem snapshot_read_not_repeatable:
  "\<exists>es y. mvcc_run es mvcc_init = Some y \<and> map (\<lambda>p. tx_isolation (fst p)) (sy_txs y) = [Snapshot, Snapshot] \<and>
     sy_log y = [(1, [1], None), (1, [1], Some [9])]"
proof (intro exI conjI)
  let ?es = "[EBegin Snapshot, EPut 0 [1] [9], ECommit 0, ECommit 0, ECommit 0,
      EBegin Snapshot, EGet 1 [1], ECommit 0, EGet 1 [1]]"
  show "mvcc_run ?es mvcc_init = Some (the (mvcc_run ?es mvcc_init))"
    "map (\<lambda>p. tx_isolation (fst p)) (sy_txs (the (mvcc_run ?es mvcc_init))) = [Snapshot, Snapshot]"
    "sy_log (the (mvcc_run ?es mvcc_init)) = [(1, [1], None), (1, [1], Some [9])]"
    by (simp_all add: mvcc_eval)
qed

text \<open>
  Two serializable transactions that read and write the same key can both commit, and the
  write of the one that commits first is then visible at no timestamp: an update is lost.
\<close>

theorem serializable_lost_update:
  "\<exists>es y. mvcc_run es mvcc_init = Some y \<and> map snd (sy_txs y) = [Committed 1, Committed 2] \<and>
     map (\<lambda>p. tx_isolation (fst p)) (sy_txs y) = [Serializable, Serializable] \<and>
     map (\<lambda>p. tx_writes (fst p)) (sy_txs y) = [[([1], [8])], [([1], [9])]] \<and>
     (\<forall>ts. mvcc_read (sy_store y) [1] ts \<noteq> Some [8])"
proof (intro exI conjI)
  let ?es = "[EBegin Serializable, EBegin Serializable, EGet 0 [1], EGet 1 [1],
      EPut 0 [1] [8], EPut 1 [1] [9], ECommit 0, ECommit 0, ECommit 0, ECommit 1, ECommit 1, ECommit 1,
      ECommit 0, ECommit 1, ECommit 0, ECommit 1, ECommit 0, ECommit 1, ECommit 0, ECommit 1]"
  show "mvcc_run ?es mvcc_init = Some (the (mvcc_run ?es mvcc_init))"
    "map snd (sy_txs (the (mvcc_run ?es mvcc_init))) = [Committed 1, Committed 2]"
    "map (\<lambda>p. tx_isolation (fst p)) (sy_txs (the (mvcc_run ?es mvcc_init))) = [Serializable, Serializable]"
    "map (\<lambda>p. tx_writes (fst p)) (sy_txs (the (mvcc_run ?es mvcc_init))) = [[([1], [8])], [([1], [9])]]"
    "\<forall>ts. mvcc_read (sy_store (the (mvcc_run ?es mvcc_init))) [1] ts \<noteq> Some [8]"
    by (simp_all add: mvcc_eval)
qed

end
