(* ===== verification/Session.thy ===== *)
theory Session
  imports Hamt
begin

text \<open>
  \<^verbatim>\<open>src/tx/session.rs\<close>: transaction sessions over a trie snapshot with a write buffer, and
  the table of active sessions. Ids and timestamps count calls and are natural numbers. The
  lemmas show that reads see the snapshot overlaid with the buffer in program order and that
  the ids handed out are fresh.
\<close>

section \<open>Sessions\<close>

datatype tx_isolation = TxReadCommitted | TxSnapshot | TxSerializable

definition isolation_from_byte :: "u8 \<Rightarrow> tx_isolation" where
  "isolation_from_byte b =
     (if b = 0x01 then TxReadCommitted
      else if b = 0x02 then TxSnapshot
      else if b = 0x03 then TxSerializable
      else TxSnapshot)"

datatype tx_op = TPut bytes bytes | TDelete bytes

record tx_session =
  ts_tx_id :: nat
  ts_isolation :: tx_isolation
  ts_snapshot :: hamt
  ts_write_buffer :: "tx_op list"
  ts_read_set :: "bytes list"
  ts_begin_ts :: nat

definition session_new :: "nat \<Rightarrow> tx_isolation \<Rightarrow> hamt \<Rightarrow> nat \<Rightarrow> tx_session" where
  "session_new txid isol snapshot begin_ts =
     \<lparr>ts_tx_id = txid, ts_isolation = isol, ts_snapshot = snapshot, ts_write_buffer = [],
      ts_read_set = [], ts_begin_ts = begin_ts\<rparr>"

text \<open>The scan of the buffer, newest operation first; \<open>None\<close> means that no operation mentions the key.\<close>

fun buffer_lookup :: "tx_op list \<Rightarrow> bytes \<Rightarrow> entry option" where
  "buffer_lookup [] key = None"
| "buffer_lookup (TPut k v # ops) key = (if k = key then Some (Some v) else buffer_lookup ops key)"
| "buffer_lookup (TDelete k # ops) key = (if k = key then Some None else buffer_lookup ops key)"

definition session_get :: "bytes \<Rightarrow> tx_session \<Rightarrow> bytes option \<times> tx_session" where
  "session_get key s =
     (case buffer_lookup (rev (ts_write_buffer s)) key of
        Some e \<Rightarrow> (e, s)
      | None \<Rightarrow>
          (let s1 = (if ts_isolation s = TxSerializable then s\<lparr>ts_read_set := ts_read_set s @ [key]\<rparr> else s)
           in (hamt_get (ts_snapshot s1) key, s1)))"

definition session_put :: "bytes \<Rightarrow> bytes \<Rightarrow> tx_session \<Rightarrow> tx_session" where
  "session_put key value s = s\<lparr>ts_write_buffer := ts_write_buffer s @ [TPut key value]\<rparr>"

definition session_delete :: "bytes \<Rightarrow> tx_session \<Rightarrow> tx_session" where
  "session_delete key s = s\<lparr>ts_write_buffer := ts_write_buffer s @ [TDelete key]\<rparr>"

definition session_buffer_len :: "tx_session \<Rightarrow> nat" where
  "session_buffer_len s = length (ts_write_buffer s)"

section \<open>The session table\<close>

record session_manager =
  sm_sessions :: "(nat \<times> tx_session) list"
  sm_next_id :: nat
  sm_next_ts :: nat

definition sm_new :: session_manager where
  "sm_new = \<lparr>sm_sessions = [], sm_next_id = 1, sm_next_ts = 1\<rparr>"

definition sm_begin :: "tx_isolation \<Rightarrow> hamt \<Rightarrow> session_manager \<Rightarrow> nat \<times> session_manager" where
  "sm_begin isol snapshot m =
     (let txid = sm_next_id m; ts = sm_next_ts m; session = session_new txid isol snapshot ts
      in (txid, m\<lparr>sm_next_id := sm_next_id m + 1, sm_next_ts := sm_next_ts m + 1,
                  sm_sessions := hm_insert txid session (sm_sessions m)\<rparr>))"

definition sm_get :: "session_manager \<Rightarrow> nat \<Rightarrow> tx_session option" where
  "sm_get m txid = map_of (sm_sessions m) txid"

text \<open>A change made through the reference that \<^verbatim>\<open>get_mut\<close> returns.\<close>

definition sm_update :: "nat \<Rightarrow> (tx_session \<Rightarrow> tx_session) \<Rightarrow> session_manager \<Rightarrow> session_manager" where
  "sm_update txid f m =
     (case map_of (sm_sessions m) txid of
        None \<Rightarrow> m
      | Some s \<Rightarrow> m\<lparr>sm_sessions := hm_set txid (f s) (sm_sessions m)\<rparr>)"

definition sm_remove :: "nat \<Rightarrow> session_manager \<Rightarrow> tx_session option \<times> session_manager" where
  "sm_remove txid m =
     (map_of (sm_sessions m) txid, m\<lparr>sm_sessions := bt_remove txid (sm_sessions m)\<rparr>)"

definition sm_active_count :: "session_manager \<Rightarrow> nat" where
  "sm_active_count m = length (sm_sessions m)"

definition sm_exists :: "session_manager \<Rightarrow> nat \<Rightarrow> bool" where
  "sm_exists m txid = (map_of (sm_sessions m) txid \<noteq> None)"

section \<open>Lemmas\<close>

fun op_effect :: "tx_op \<Rightarrow> (bytes \<rightharpoonup> bytes) \<Rightarrow> (bytes \<rightharpoonup> bytes)" where
  "op_effect (TPut k v) m = m(k \<mapsto> v)"
| "op_effect (TDelete k) m = m(k := None)"

lemma buffer_lookup_effect:
  "resolve (buffer_lookup (rev ops) key) (m key) = fold op_effect ops m key"
proof (induction ops rule: rev_induct)
  case (snoc op ops)
  then show ?case by (cases op) auto
qed simp

definition session_view :: "tx_session \<Rightarrow> bytes \<rightharpoonup> bytes" where
  "session_view s = fold op_effect (ts_write_buffer s) (hamt_get (ts_snapshot s))"

lemma session_get_view: "fst (session_get key s) = session_view s key"
  using buffer_lookup_effect [of "ts_write_buffer s" key "hamt_get (ts_snapshot s)"]
  by (auto simp: session_get_def session_view_def Let_def split: option.splits)

lemma session_view_frame [simp]:
  "session_view (snd (session_get key s)) = session_view s"
  "session_view (session_put key v s) = (session_view s)(key \<mapsto> v)"
  "session_view (session_delete key s) = (session_view s)(key := None)"
  by (auto simp: session_view_def session_get_def session_put_def session_delete_def Let_def
      split: option.split)

text \<open>Ids below the counter, each stored under itself.\<close>

definition sm_ok :: "session_manager \<Rightarrow> bool" where
  "sm_ok m = (distinct (map fst (sm_sessions m)) \<and>
     (\<forall>(i, s) \<in> set (sm_sessions m). i < sm_next_id m \<and> ts_tx_id s = i))"

lemma sm_ok_new [simp]: "sm_ok sm_new"
  by (simp add: sm_ok_def sm_new_def)

lemma sm_ok_begin: "sm_ok m \<Longrightarrow> sm_ok (snd (sm_begin isol h m))"
  by (auto simp: sm_ok_def sm_begin_def session_new_def Let_def hm_insert_def bt_remove_def
      distinct_map_filter less_Suc_eq)

lemma sm_ok_remove: "sm_ok m \<Longrightarrow> sm_ok (snd (sm_remove i m))"
  by (auto simp: sm_ok_def sm_remove_def bt_remove_def distinct_map_filter)

lemma sm_ok_update:
  assumes "sm_ok m" "\<And>s. ts_tx_id (f s) = ts_tx_id s"
  shows "sm_ok (sm_update i f m)"
proof (cases "map_of (sm_sessions m) i")
  case None
  with assms show ?thesis by (simp add: sm_update_def)
next
  case (Some s)
  then have "(i, s) \<in> set (sm_sessions m)" by (rule map_of_SomeD)
  with assms Some show ?thesis
    using set_hm_set [of i "f s" "sm_sessions m"] by (fastforce simp: sm_ok_def sm_update_def)
qed

section \<open>Properties\<close>

datatype sm_call = SBegin tx_isolation hamt | SGet nat bytes | SPut nat bytes bytes | SDelete nat bytes | SRemove nat

fun sm_do :: "sm_call \<Rightarrow> session_manager \<Rightarrow> session_manager" where
  "sm_do (SBegin isol h) m = snd (sm_begin isol h m)"
| "sm_do (SGet i k) m = sm_update i (\<lambda>s. snd (session_get k s)) m"
| "sm_do (SPut i k v) m = sm_update i (session_put k v) m"
| "sm_do (SDelete i k) m = sm_update i (session_delete k) m"
| "sm_do (SRemove i) m = snd (sm_remove i m)"

lemma tx_id_session [simp]:
  "ts_tx_id (snd (session_get k s)) = ts_tx_id s" "ts_tx_id (session_put k v s) = ts_tx_id s"
  "ts_tx_id (session_delete k s) = ts_tx_id s"
  by (simp_all add: session_get_def session_put_def session_delete_def Let_def split: option.split)

lemma sm_ok_do: "sm_ok m \<Longrightarrow> sm_ok (sm_do c m)"
  by (cases c) (auto intro: sm_ok_begin sm_ok_remove sm_ok_update)

lemma sm_ok_run: "sm_ok m \<Longrightarrow> sm_ok (fold sm_do cs m)"
  by (induction cs arbitrary: m) (auto simp: sm_ok_do)

text \<open>
  A read inside a session returns what the buffered puts and deletes, applied in program
  order to the snapshot, give for the key: own writes are read back, the latest one wins, and
  other keys come from the snapshot. Reading changes no later read.
\<close>

theorem session_reads_own_writes:
  "fst (session_get key s) = fold op_effect (ts_write_buffer s) (hamt_get (ts_snapshot s)) key \<and>
   fst (session_get key (snd (session_get key' s))) = fst (session_get key s) \<and>
   fst (session_get key (session_put key' v s)) = (if key = key' then Some v else fst (session_get key s)) \<and>
   fst (session_get key (session_delete key' s)) = (if key = key' then None else fst (session_get key s))"
  by (simp add: session_get_view) (simp add: session_view_def)

text \<open>
  After any calls on a new session table, the id that the next begin returns is not the id
  of an active session, the new session is registered under it with an empty buffer and the
  given snapshot, and all other sessions are untouched.
\<close>

theorem session_ids_fresh:
  "let m = fold sm_do cs sm_new; (txid, m') = sm_begin isol h m
   in \<not> sm_exists m txid \<and>
      (\<forall>i. sm_get m' i = (if i = txid then Some (session_new txid isol h (sm_next_ts m)) else sm_get m i))"
proof -
  have "sm_ok (fold sm_do cs sm_new)" by (simp add: sm_ok_run)
  then have "map_of (sm_sessions (fold sm_do cs sm_new)) (sm_next_id (fold sm_do cs sm_new)) = None"
    by (fastforce simp: sm_ok_def map_of_eq_None_iff)
  then show ?thesis
    by (simp add: sm_begin_def sm_exists_def sm_get_def Let_def)
qed

end
