(* ===== verification/Float_Ops.thy ===== *)
theory Float_Ops
  imports Uldb_Prelude
begin

text \<open>
  Floating-point arithmetic as a parameter, and sorting with a comparison. The record \<open>float_ops\<close>
  holds the operations of \<^verbatim>\<open>f64\<close> or \<^verbatim>\<open>f32\<close> that the program uses: conversion of an
  integer, a decimal literal \<open>m / 10 ^ e\<close>, arithmetic, the logarithm and the comparisons.
\<close>

section \<open>Floating point\<close>

record 'f float_ops =
  fl_of_nat :: "nat \<Rightarrow> 'f"
  fl_lit :: "nat \<Rightarrow> nat \<Rightarrow> 'f"
  fl_add :: "'f \<Rightarrow> 'f \<Rightarrow> 'f"
  fl_sub :: "'f \<Rightarrow> 'f \<Rightarrow> 'f"
  fl_mul :: "'f \<Rightarrow> 'f \<Rightarrow> 'f"
  fl_div :: "'f \<Rightarrow> 'f \<Rightarrow> 'f"
  fl_ln :: "'f \<Rightarrow> 'f"
  fl_eq :: "'f \<Rightarrow> 'f \<Rightarrow> bool"
  fl_less :: "'f \<Rightarrow> 'f \<Rightarrow> bool"

text \<open>
  \<^verbatim>\<open>sort_by\<close>, which is stable: an element moves before those that compare greater. A comparison
  that is not defined counts as equal.
\<close>

fun insert_by :: "('a \<Rightarrow> 'a \<Rightarrow> bool) \<Rightarrow> 'a \<Rightarrow> 'a list \<Rightarrow> 'a list" where
  "insert_by lt x [] = [x]"
| "insert_by lt x (y # ys) = (if lt y x then y # insert_by lt x ys else x # y # ys)"

definition sort_by :: "('a \<Rightarrow> 'a \<Rightarrow> bool) \<Rightarrow> 'a list \<Rightarrow> 'a list" where
  "sort_by lt xs = foldr (insert_by lt) xs []"

section \<open>Lemmas on sorting\<close>

lemma mset_insert_by [simp]: "mset (insert_by lt x xs) = add_mset x (mset xs)"
  by (induction xs) auto

lemma set_insert_by [simp]: "set (insert_by lt x xs) = insert x (set xs)"
  by (induction xs) auto

lemma mset_sort_by [simp]: "mset (sort_by lt xs) = mset xs"
  by (induction xs) (simp_all add: sort_by_def)

lemma set_sort_by [simp]: "set (sort_by lt xs) = set xs"
  by (rule mset_eq_setD) simp

lemma length_sort_by [simp]: "length (sort_by lt xs) = length xs"
  by (rule mset_eq_length) simp

text \<open>Strict weak orders, on a set: what a comparison has to be for sorting to make sense.\<close>

definition weak_order_on :: "'a set \<Rightarrow> ('a \<Rightarrow> 'a \<Rightarrow> bool) \<Rightarrow> bool" where
  "weak_order_on A lt \<longleftrightarrow>
     (\<forall>a \<in> A. \<forall>b \<in> A. lt a b \<longrightarrow> \<not> lt b a) \<and>
     (\<forall>a \<in> A. \<forall>b \<in> A. \<forall>c \<in> A. \<not> lt a b \<longrightarrow> \<not> lt b c \<longrightarrow> \<not> lt a c)"

abbreviation weak_order :: "('a \<Rightarrow> 'a \<Rightarrow> bool) \<Rightarrow> bool" where
  "weak_order \<equiv> weak_order_on UNIV"

lemmas weak_order_def = weak_order_on_def [of UNIV, simplified]

lemma weak_order_onD: "weak_order_on A lt \<Longrightarrow> a \<in> A \<Longrightarrow> b \<in> A \<Longrightarrow> c \<in> A \<Longrightarrow> \<not> lt a b \<Longrightarrow> \<not> lt b c \<Longrightarrow> \<not> lt a c"
  unfolding weak_order_on_def by blast

lemma weak_order_on_subset: "weak_order_on A lt \<Longrightarrow> B \<subseteq> A \<Longrightarrow> weak_order_on B lt"
  unfolding weak_order_on_def by blast

lemma weak_order_on_map: "weak_order_on (f ` A) lt \<Longrightarrow> weak_order_on A (\<lambda>a b. lt (f a) (f b))"
  unfolding weak_order_on_def by blast

lemma sort_by_weak_on: "weak_order_on (set xs) lt \<Longrightarrow> sorted_wrt (\<lambda>a b. \<not> lt b a) (sort_by lt xs)"
proof (induction xs)
  case (Cons x xs)
  have ins: "sorted_wrt (\<lambda>a b. \<not> lt b a) (insert_by lt x ys)"
    if "sorted_wrt (\<lambda>a b. \<not> lt b a) ys" "weak_order_on (insert x (set ys)) lt" for ys
    using that
  proof (induction ys)
    case (Cons y ys)
    have tail: "weak_order_on (insert x (set ys)) lt" using Cons.prems(2) by (rule weak_order_on_subset) auto
    show ?case
    proof (cases "lt y x")
      case True
      then have "\<not> lt x y" using Cons.prems(2) by (simp add: weak_order_on_def)
      with True Cons.IH [OF _ tail] Cons.prems(1) show ?thesis by simp
    next
      case False
      have "\<not> lt e x" if "e \<in> set ys" for e
        using weak_order_onD [OF Cons.prems(2), of e y x] that False Cons.prems(1) by simp
      with Cons.prems(1) False show ?thesis by simp
    qed
  qed simp
  have "weak_order_on (set xs) lt" using Cons.prems by (rule weak_order_on_subset) auto
  from ins [OF Cons.IH [OF this]] Cons.prems have "sorted_wrt (\<lambda>a b. \<not> lt b a) (insert_by lt x (sort_by lt xs))" by simp
  then show ?case by (simp add: sort_by_def)
qed (simp add: sort_by_def)

lemma sort_by_sorted:
  assumes "\<And>a b. lt a b \<Longrightarrow> \<not> lt b a" "\<And>a b c. \<not> lt a b \<Longrightarrow> \<not> lt b c \<Longrightarrow> \<not> lt a c"
  shows "sorted_wrt (\<lambda>a b. \<not> lt b a) (sort_by lt xs)"
  using assms by (intro sort_by_weak_on) (unfold weak_order_on_def, blast)

lemma sort_by_map: "sort_by lt (map f xs) = map f (sort_by (\<lambda>a b. lt (f a) (f b)) xs)"
proof -
  have "insert_by lt (f x) (map f ys) = map f (insert_by (\<lambda>a b. lt (f a) (f b)) x ys)" for x ys
    by (induction ys) auto
  then show ?thesis by (induction xs) (simp_all add: sort_by_def)
qed

lemma sorted_wrt_unique:
  assumes "sorted_wrt R xs" "sorted_wrt R ys" "mset xs = mset ys"
    "\<And>a b. a \<in> set xs \<Longrightarrow> b \<in> set xs \<Longrightarrow> R a b \<Longrightarrow> R b a \<Longrightarrow> a = b"
  shows "xs = ys"
  using assms
proof (induction xs arbitrary: ys)
  case (Cons x xs)
  then obtain y ys' where ys: "ys = y # ys'" by (cases ys) auto
  have "x \<in> set ys" "y \<in> set (x # xs)"
    using mset_eq_setD [OF Cons.prems(3)] by (auto simp: ys)
  with Cons.prems ys have "x = y" by (metis list.set_intros(1) set_ConsD sorted_wrt.simps(2))
  with Cons ys show ?case by auto
qed simp

lemma weak_order_less [simp]: "weak_order ((<) :: 'a :: linorder \<Rightarrow> 'a \<Rightarrow> bool)"
  by (auto simp: weak_order_def)

lemma weak_order_map: "weak_order lt \<Longrightarrow> weak_order (\<lambda>a b. lt (f a) (f b))"
  unfolding weak_order_def by blast

lemma weak_order_flip: "weak_order lt \<Longrightarrow> weak_order (\<lambda>a b. lt b a)"
  unfolding weak_order_def by blast

lemma weak_order_lex:
  assumes "weak_order lt" "weak_order lt'"
  shows "weak_order (\<lambda>a b. lt a b \<or> \<not> lt b a \<and> lt' a b)"
proof -
  have a: "\<And>a b. lt a b \<Longrightarrow> \<not> lt b a" "\<And>a b. lt' a b \<Longrightarrow> \<not> lt' b a"
    and t: "\<And>a b c. \<not> lt a b \<Longrightarrow> \<not> lt b c \<Longrightarrow> \<not> lt a c" "\<And>a b c. \<not> lt' a b \<Longrightarrow> \<not> lt' b c \<Longrightarrow> \<not> lt' a c"
    using assms unfolding weak_order_def by blast+
  show ?thesis
    unfolding weak_order_def
  proof (intro conjI allI impI)
    fix a b c
    assume 1: "\<not> (lt a b \<or> \<not> lt b a \<and> lt' a b)" and 2: "\<not> (lt b c \<or> \<not> lt c b \<and> lt' b c)"
    have "\<not> lt a c" using 1 2 t(1) by blast
    moreover have "\<not> lt' a c" if "\<not> lt c a"
    proof -
      have "\<not> lt b a" using that t(1) [of b c a] 2 by blast
      moreover have "\<not> lt c b" using that t(1) [of c a b] 1 by blast
      ultimately show ?thesis using 1 2 t(2) [of a b c] by blast
    qed
    ultimately show "\<not> (lt a c \<or> \<not> lt c a \<and> lt' a c)" by blast
  qed (use a in blast)
qed

lemma sort_by_weak: "weak_order lt \<Longrightarrow> sorted_wrt (\<lambda>a b. \<not> lt b a) (sort_by lt xs)"
  unfolding weak_order_def by (elim conjE, rule sort_by_sorted) blast+

lemma sort_by_mset_unique:
  assumes "weak_order lt" "mset xs = mset ys"
    and "\<And>a b. a \<in> set xs \<Longrightarrow> b \<in> set xs \<Longrightarrow> \<not> lt a b \<Longrightarrow> \<not> lt b a \<Longrightarrow> a = b"
  shows "sort_by lt xs = sort_by lt ys"
  using sort_by_weak [OF assms(1)] sort_by_weak [OF assms(1)]
proof (rule sorted_wrt_unique)
  show "mset (sort_by lt xs) = mset (sort_by lt ys)" using assms(2) by simp
  show "\<And>a b. a \<in> set (sort_by lt xs) \<Longrightarrow> b \<in> set (sort_by lt xs) \<Longrightarrow> \<not> lt b a \<Longrightarrow> \<not> lt a b \<Longrightarrow> a = b"
    using assms(3) by simp
qed

text \<open>Natural numbers, with quotients in twelfths, as scores: an arithmetic for concrete evaluations.\<close>

definition nat_floats :: "nat float_ops" where
  "nat_floats = \<lparr>fl_of_nat = (\<lambda>n. n), fl_lit = (\<lambda>m e. m div 10 ^ e), fl_add = (+), fl_sub = (-), fl_mul = (*), fl_div = (\<lambda>a b. a * 12 div b),
     fl_ln = (\<lambda>x. x), fl_eq = (=), fl_less = (<)\<rparr>"

lemma nat_floats_weak [simp]: "weak_order (fl_less nat_floats)"
  by (simp add: nat_floats_def)

end
