(* ===== verification/Bm25.thy ===== *)
theory Bm25
  imports Float_Ops
begin

text \<open>
  \<^verbatim>\<open>src/index/bm25.rs\<close>: the inverted keyword index. The counters are natural numbers; scores
  are computed with a parameter \<open>float_ops\<close>. The field \<^verbatim>\<open>avgdl\<close> is recomputed from two other
  fields by every operation, so it is a function of them here. Theory \<open>Bm25_Search\<close> has the lemmas.
\<close>

section \<open>Tokens\<close>

definition is_ascii_uppercase :: "u8 \<Rightarrow> bool" where
  "is_ascii_uppercase b = (0x41 \<le> b \<and> b \<le> 0x5A)"

definition is_ascii_lowercase :: "u8 \<Rightarrow> bool" where
  "is_ascii_lowercase b = (0x61 \<le> b \<and> b \<le> 0x7A)"

definition is_ascii_alphanumeric :: "u8 \<Rightarrow> bool" where
  "is_ascii_alphanumeric b = (is_ascii_uppercase b \<or> is_ascii_lowercase b \<or> (0x30 \<le> b \<and> b \<le> 0x39))"

definition to_ascii_lowercase :: "u8 \<Rightarrow> u8" where
  "to_ascii_lowercase b = (if is_ascii_uppercase b then b + 0x20 else b)"

text \<open>The scanner: the byte before, whether a token is open, and the token so far.\<close>

fun token_loop :: "u8 option \<Rightarrow> bool \<Rightarrow> bytes \<Rightarrow> bytes \<Rightarrow> bytes list" where
  "token_loop before in_token buf [] = (if buf \<noteq> [] then [buf] else [])"
| "token_loop before in_token buf (b # bs) =
     (let camel = is_ascii_uppercase b \<and> in_token \<and>
            (case before of None \<Rightarrow> False | Some a \<Rightarrow> is_ascii_lowercase a) \<and> buf \<noteq> [];
          emitted = (if camel then [buf] else []);
          buf1 = (if camel then [] else buf)
      in if is_ascii_alphanumeric b
         then emitted @ token_loop (Some b) True (buf1 @ [to_ascii_lowercase b]) bs
         else if in_token
         then emitted @ (if buf1 \<noteq> [] then [buf1] else []) @ token_loop (Some b) False [] bs
         else emitted @ token_loop (Some b) False buf1 bs)"

definition tokenize :: "str \<Rightarrow> str list" where
  "tokenize txt = token_loop None False [] txt"

section \<open>The index\<close>

record bm25_index =
  bm_docs :: "bytes list"
  bm_key_to_doc :: "(bytes \<times> nat) list"
  bm_term_pool :: "str list"
  bm_term_ids :: "(str \<times> nat) list"
  bm_doc_terms :: "nat list list"
  bm_df :: "(nat \<times> nat) list"
  bm_postings :: "(nat \<times> (nat \<times> nat) list) list"
  bm_doc_len :: "nat list"
  bm_total_doc_len :: nat
  bm_active_docs :: nat

definition bm25_new :: bm25_index where
  "bm25_new =
     \<lparr>bm_docs = [], bm_key_to_doc = [], bm_term_pool = [], bm_term_ids = [], bm_doc_terms = [],
      bm_df = [], bm_postings = [], bm_doc_len = [], bm_total_doc_len = 0, bm_active_docs = 0\<rparr>"

definition bm25_len :: "bm25_index \<Rightarrow> nat" where
  "bm25_len ix = length (bm_docs ix)"

definition bm25_vocab_size :: "bm25_index \<Rightarrow> nat" where
  "bm25_vocab_size ix = length (bm_term_ids ix)"

definition bm25_contains_key :: "bm25_index \<Rightarrow> bytes \<Rightarrow> bool" where
  "bm25_contains_key ix key = (map_of (bm_key_to_doc ix) key \<noteq> None)"

fun count_term :: "nat \<Rightarrow> (nat \<times> nat) list \<Rightarrow> (nat \<times> nat) list" where
  "count_term tid [] = [(tid, 1)]"
| "count_term tid ((t, f) # tf) = (if t = tid then (t, f + 1) # tf else (t, f) # count_term tid tf)"

definition intern_and_count ::
  "str \<Rightarrow> bm25_index \<times> (nat \<times> nat) list \<Rightarrow> bm25_index \<times> (nat \<times> nat) list" where
  "intern_and_count buf st =
     (case st of (ix, term_freq) \<Rightarrow>
        (case map_of (bm_term_ids ix) buf of
           Some tid \<Rightarrow> (ix, count_term tid term_freq)
         | None \<Rightarrow>
             (let tid = length (bm_term_pool ix)
              in (ix\<lparr>bm_term_ids := hm_insert buf tid (bm_term_ids ix),
                     bm_term_pool := bm_term_pool ix @ [[]]\<rparr>,
                  count_term tid term_freq))))"

definition add_posting :: "nat \<Rightarrow> nat \<times> nat \<Rightarrow> bm25_index \<Rightarrow> bm25_index" where
  "add_posting doc_id tf ix =
     (let (tid, freq) = tf;
          old = (case map_of (bm_postings ix) tid of None \<Rightarrow> [] | Some ps \<Rightarrow> ps);
          df = (case map_of (bm_df ix) tid of None \<Rightarrow> 0 | Some n \<Rightarrow> n)
      in ix\<lparr>bm_postings := hm_insert tid (old @ [(doc_id, freq)]) (bm_postings ix),
            bm_df := hm_insert tid (df + 1) (bm_df ix)\<rparr>)"

definition add_document_direct :: "bytes \<Rightarrow> str \<Rightarrow> str \<Rightarrow> bm25_index \<Rightarrow> bm25_index" where
  "add_document_direct key key_text value_text ix =
     (let doc_id = length (bm_docs ix);
          ix1 = ix\<lparr>bm_key_to_doc := hm_insert key doc_id (bm_key_to_doc ix), bm_docs := bm_docs ix @ [key]\<rparr>;
          tokens = tokenize key_text @ tokenize value_text;
          (ix2, term_freq) = fold intern_and_count tokens (ix1, []);
          total_tokens = length tokens;
          ix3 = ix2\<lparr>bm_doc_len := bm_doc_len ix2 @ [total_tokens]\<rparr>;
          ix4 = fold (add_posting doc_id) term_freq ix3
      in ix4\<lparr>bm_doc_terms := bm_doc_terms ix4 @ [map fst term_freq],
             bm_total_doc_len := bm_total_doc_len ix4 + total_tokens,
             bm_active_docs := bm_active_docs ix4 + 1\<rparr>)"

definition remove_document :: "bytes \<Rightarrow> bm25_index \<Rightarrow> bm25_index" where
  "remove_document key ix =
     (case map_of (bm_key_to_doc ix) key of
        None \<Rightarrow> ix
      | Some doc_id \<Rightarrow>
          (let removed_len = bm_doc_len ix ! doc_id
           in ix\<lparr>bm_key_to_doc := bt_remove key (bm_key_to_doc ix),
                 bm_docs := (bm_docs ix)[doc_id := []],
                 bm_doc_len := (bm_doc_len ix)[doc_id := 0],
                 bm_total_doc_len := bm_total_doc_len ix - removed_len,
                 bm_active_docs := bm_active_docs ix - 1\<rparr>))"

text \<open>
  The two other ways to add a document count the token_runs of equal tokens in the sorted token list.
  Sorting is by bytes, as Rust compares strings.
\<close>

function token_runs :: "str list \<Rightarrow> (str \<times> nat) list" where
  "token_runs [] = []"
| "token_runs (t # ts) = (t, length (takeWhile (\<lambda>u. u = t) ts) + 1) # token_runs (dropWhile (\<lambda>u. u = t) ts)"
  by pat_completeness auto
termination
  by (relation "measure length") (auto simp: length_dropWhile_le le_imp_less_Suc)

definition add_run :: "nat \<Rightarrow> str \<times> nat \<Rightarrow> bm25_index \<times> nat list \<Rightarrow> bm25_index \<times> nat list" where
  "add_run doc_id run st =
     (case (run, st) of ((token, freq), (ix, term_ids)) \<Rightarrow>
        (let (tid, ix1) =
               (case map_of (bm_term_ids ix) token of
                  Some tid \<Rightarrow> (tid, ix)
                | None \<Rightarrow>
                    (let tid = length (bm_term_pool ix)
                     in (tid, ix\<lparr>bm_term_ids := hm_insert token tid (bm_term_ids ix),
                                bm_term_pool := bm_term_pool ix @ [[]]\<rparr>)))
         in (add_posting doc_id (tid, freq) ix1, term_ids @ [tid])))"

definition add_tokens :: "bytes \<Rightarrow> str list \<Rightarrow> bm25_index \<Rightarrow> bm25_index" where
  "add_tokens key tokens ix =
     (let doc_id = length (bm_docs ix);
          ix1 = ix\<lparr>bm_key_to_doc := hm_insert key doc_id (bm_key_to_doc ix), bm_docs := bm_docs ix @ [key]\<rparr>;
          ix2 = ix1\<lparr>bm_doc_len := bm_doc_len ix1 @ [length tokens]\<rparr>;
          (ix3, term_ids) = fold (add_run doc_id) (token_runs (sort tokens)) (ix2, [])
      in ix3\<lparr>bm_doc_terms := bm_doc_terms ix3 @ [term_ids],
             bm_total_doc_len := bm_total_doc_len ix3 + length tokens,
             bm_active_docs := bm_active_docs ix3 + 1\<rparr>)"

definition add_document :: "bytes \<Rightarrow> str \<Rightarrow> bm25_index \<Rightarrow> bm25_index" where
  "add_document key content ix = add_tokens key (tokenize content) ix"

definition add_document_parts :: "bytes \<Rightarrow> str \<Rightarrow> str \<Rightarrow> bm25_index \<Rightarrow> bm25_index" where
  "add_document_parts key key_text value_text ix =
     add_tokens key (tokenize key_text @ tokenize value_text) ix"

section \<open>Search\<close>

definition bm25_is_empty :: "bm25_index \<Rightarrow> bool" where
  "bm25_is_empty ix = (bm_docs ix = [])"

definition bm25_avgdl :: "'f float_ops \<Rightarrow> bm25_index \<Rightarrow> 'f" where
  "bm25_avgdl fl ix =
     (if bm_active_docs ix > 0 then fl_div fl (fl_of_nat fl (bm_total_doc_len ix)) (fl_of_nat fl (bm_active_docs ix))
      else fl_of_nat fl 0)"

definition fl_max :: "'f float_ops \<Rightarrow> 'f \<Rightarrow> 'f \<Rightarrow> 'f" where
  "fl_max fl a b = (if fl_less fl a b then b else a)"

definition bm25_k1 :: "'f float_ops \<Rightarrow> 'f" where
  "bm25_k1 fl = fl_lit fl 15 1"

definition bm25_b :: "'f float_ops \<Rightarrow> 'f" where
  "bm25_b fl = fl_lit fl 75 2"

definition idf :: "'f float_ops \<Rightarrow> nat \<Rightarrow> nat \<Rightarrow> 'f" where
  "idf fl n_docs df =
     fl_ln fl (fl_add fl (fl_div fl (fl_add fl (fl_sub fl (fl_of_nat fl n_docs) (fl_of_nat fl df)) (fl_lit fl 5 1))
       (fl_add fl (fl_of_nat fl df) (fl_lit fl 5 1))) (fl_of_nat fl 1))"

definition term_score :: "'f float_ops \<Rightarrow> 'f \<Rightarrow> 'f \<Rightarrow> nat \<Rightarrow> nat \<Rightarrow> 'f" where
  "term_score fl weight avgdl tf dl =
     (let denom = fl_add fl (fl_of_nat fl tf) (fl_mul fl (bm25_k1 fl)
            (fl_add fl (fl_sub fl (fl_of_nat fl 1) (bm25_b fl))
               (fl_div fl (fl_mul fl (bm25_b fl) (fl_of_nat fl dl)) (fl_max fl avgdl (fl_lit fl 1 9)))))
      in fl_div fl (fl_mul fl weight (fl_mul fl (fl_of_nat fl tf) (fl_add fl (bm25_k1 fl) (fl_of_nat fl 1)))) denom)"

text \<open>The loops over the query terms and their postings: the scores by document and the documents touched.\<close>

definition score_posting ::
  "'f float_ops \<Rightarrow> bm25_index \<Rightarrow> 'f \<Rightarrow> nat \<times> nat \<Rightarrow> 'f list \<times> nat list \<Rightarrow> 'f list \<times> nat list" where
  "score_posting fl ix weight posting st =
     (case (posting, st) of ((doc_id, tf), (scores, touched)) \<Rightarrow>
        if doc_id \<ge> length (bm_docs ix) \<or> bm_docs ix ! doc_id = [] then (scores, touched)
        else (let score = term_score fl weight (bm25_avgdl fl ix) tf (bm_doc_len ix ! doc_id)
              in (scores[doc_id := fl_add fl (scores ! doc_id) score],
                  if fl_eq fl (scores ! doc_id) (fl_of_nat fl 0) then touched @ [doc_id] else touched)))"

definition score_term :: "'f float_ops \<Rightarrow> bm25_index \<Rightarrow> str \<Rightarrow> 'f list \<times> nat list \<Rightarrow> 'f list \<times> nat list" where
  "score_term fl ix token st =
     (case map_of (bm_term_ids ix) token of
        None \<Rightarrow> st
      | Some tid \<Rightarrow>
          (case map_of (bm_df ix) tid of
             None \<Rightarrow> st
           | Some df \<Rightarrow>
               (case map_of (bm_postings ix) tid of
                  None \<Rightarrow> st
                | Some ps \<Rightarrow> fold (score_posting fl ix (idf fl (length (bm_docs ix)) df)) ps st)))"

record 'f bm25_result =
  br_key :: bytes
  br_score :: 'f
  br_rank :: nat

text \<open>
  An unstable sort leaves the order of equal elements open. It is the stable sort of some
  rearrangement of its input, the parameter \<open>arrange\<close>; selecting around position \<open>top_k\<close>, truncating and
  sorting is a prefix of it.
\<close>

definition bm25_search ::
  "'f float_ops \<Rightarrow> ((nat \<times> 'f) list \<Rightarrow> (nat \<times> 'f) list) \<Rightarrow> bm25_index \<Rightarrow> str \<Rightarrow> nat \<Rightarrow> 'f bm25_result list" where
  "bm25_search fl arrange ix query top_k =
     (if bm25_is_empty ix \<or> top_k = 0 \<or> tokenize query = [] then []
      else (let (scores, touched) =
                  fold (score_term fl ix) (tokenize query) (replicate (length (bm_docs ix)) (fl_of_nat fl 0), []);
                candidates = map (\<lambda>d. (d, scores ! d)) touched
            in map (\<lambda>(rank, (doc_id, score)). \<lparr>br_key = bm_docs ix ! doc_id, br_score = score, br_rank = rank\<rparr>)
                 (enumerate 0 (take top_k (sort_by (\<lambda>a b. fl_less fl (snd b) (snd a)) (arrange candidates))))))"

end
