(* ===== verification/Bm25_Search.thy ===== *)
theory Bm25_Search
  imports Bm25
begin

text \<open>
  What the keyword index promises. The reference is the history of the documents added, as token
  lists, with the live document of every key. The index represents it through its term table and
  posting lists, every operation keeps the representation, and a search returns the live documents
  that share a term with the query, scored by the formula over the history.
\<close>

section \<open>Terms and postings\<close>

text \<open>\<open>P t\<close> is the posting list of term \<open>t\<close>; terms without a number have none.\<close>

definition post_ok :: "bm25_index \<Rightarrow> (str \<Rightarrow> (nat \<times> nat) list) \<Rightarrow> bool" where
  "post_ok ix P \<longleftrightarrow>
     (\<forall>t tid. map_of (bm_term_ids ix) t = Some tid \<longrightarrow> tid < length (bm_term_pool ix)) \<and>
     (\<forall>t u tid. map_of (bm_term_ids ix) t = Some tid \<longrightarrow> map_of (bm_term_ids ix) u = Some tid \<longrightarrow> t = u) \<and>
     (\<forall>t. map_of (bm_term_ids ix) t = None \<longrightarrow> P t = []) \<and>
     (\<forall>t tid. map_of (bm_term_ids ix) t = Some tid \<longrightarrow>
        map_of (bm_postings ix) tid = (if P t = [] then None else Some (P t)) \<and>
        map_of (bm_df ix) tid = (if P t = [] then None else Some (length (P t)))) \<and>
     (\<forall>tid \<ge> length (bm_term_pool ix). map_of (bm_postings ix) tid = None \<and> map_of (bm_df ix) tid = None)"

definition intern :: "str \<Rightarrow> bm25_index \<Rightarrow> nat \<times> bm25_index" where
  "intern token ix =
     (case map_of (bm_term_ids ix) token of
        Some tid \<Rightarrow> (tid, ix)
      | None \<Rightarrow> (length (bm_term_pool ix),
          ix\<lparr>bm_term_ids := hm_insert token (length (bm_term_pool ix)) (bm_term_ids ix),
             bm_term_pool := bm_term_pool ix @ [[]]\<rparr>))"

text \<open>The part of the index that interning and posting leave alone.\<close>

definition bm_frame :: "bm25_index \<Rightarrow> bm25_index \<Rightarrow> bool" where
  "bm_frame ix ix' \<longleftrightarrow>
     bm_docs ix' = bm_docs ix \<and> bm_key_to_doc ix' = bm_key_to_doc ix \<and> bm_doc_len ix' = bm_doc_len ix \<and>
     bm_doc_terms ix' = bm_doc_terms ix \<and> bm_total_doc_len ix' = bm_total_doc_len ix \<and>
     bm_active_docs ix' = bm_active_docs ix"

lemma bm_frame_trans: "bm_frame a b \<Longrightarrow> bm_frame b c \<Longrightarrow> bm_frame a c"
  by (simp add: bm_frame_def)

lemma intern_ok:
  assumes "post_ok ix P" "intern t ix = (tid, ix')"
  shows "post_ok ix' P" "map_of (bm_term_ids ix') t = Some tid" "map_of (bm_term_ids ix) \<subseteq>\<^sub>m map_of (bm_term_ids ix')"
    "bm_frame ix ix'"
proof -
  show "map_of (bm_term_ids ix') t = Some tid" "map_of (bm_term_ids ix) \<subseteq>\<^sub>m map_of (bm_term_ids ix')" "bm_frame ix ix'"
    using assms(2) by (auto simp: intern_def bm_frame_def map_le_def split: option.splits)
  show "post_ok ix' P"
  proof (cases "map_of (bm_term_ids ix) t")
    case None
    then have ix': "ix' = ix\<lparr>bm_term_ids := hm_insert t (length (bm_term_pool ix)) (bm_term_ids ix), bm_term_pool := bm_term_pool ix @ [[]]\<rparr>"
      using assms(2) unfolding intern_def by (simp, blast)
    have "tid < length (bm_term_pool ix)" if "map_of (bm_term_ids ix) u = Some tid" for u tid
      using assms(1) that by (simp add: post_ok_def)
    moreover have "P t = []" using None assms(1) by (simp add: post_ok_def)
    ultimately show ?thesis using assms(1) unfolding post_ok_def ix'
      by (auto simp: less_SucI)
  next
    case (Some a)
    with assms show ?thesis by (simp add: intern_def)
  qed
qed

lemma add_posting_ok:
  assumes "post_ok ix P" "map_of (bm_term_ids ix) t = Some tid"
  shows "post_ok (add_posting d (tid, f) ix) (P(t := P t @ [(d, f)]))"
    "bm_term_ids (add_posting d (tid, f) ix) = bm_term_ids ix" "bm_frame ix (add_posting d (tid, f) ix)"
proof -
  show "bm_term_ids (add_posting d (tid, f) ix) = bm_term_ids ix" "bm_frame ix (add_posting d (tid, f) ix)"
    by (simp_all add: add_posting_def Let_def bm_frame_def)
  note P = assms(1) [unfolded post_ok_def]
  have old: "map_of (bm_postings ix) tid = (if P t = [] then None else Some (P t))"
    "map_of (bm_df ix) tid = (if P t = [] then None else Some (length (P t)))" and tid: "tid < length (bm_term_pool ix)"
    using P assms(2) by simp_all
  have u: "u = t" if "map_of (bm_term_ids ix) u = Some tid" for u
    using P assms(2) that by blast
  have eq: "add_posting d (tid, f) ix = ix\<lparr>bm_postings := hm_insert tid (P t @ [(d, f)]) (bm_postings ix),
      bm_df := hm_insert tid (length (P t) + 1) (bm_df ix)\<rparr>"
    using old by (simp add: add_posting_def Let_def)
  have "map_of (bm_postings ix) v = (if P w = [] then None else Some (P w))"
    "map_of (bm_df ix) v = (if P w = [] then None else Some (length (P w)))" "v < length (bm_term_pool ix)"
    if "map_of (bm_term_ids ix) w = Some v" for v w
    using P that by simp_all
  then show "post_ok (add_posting d (tid, f) ix) (P(t := P t @ [(d, f)]))"
    unfolding post_ok_def eq using P u tid assms(2) by (intro conjI) (auto dest: leD)
qed

lemma intern_and_count_intern:
  "intern_and_count t (ix, tf) = (snd (intern t ix), count_term (fst (intern t ix)) tf)"
  by (simp add: intern_and_count_def intern_def Let_def split: option.splits)

lemma add_run_intern:
  "add_run d (t, f) (ix, tids) = (add_posting d (fst (intern t ix), f) (snd (intern t ix)), tids @ [fst (intern t ix)])"
  by (simp add: add_run_def intern_def Let_def split: option.splits)

text \<open>The posting lists after document \<open>d\<close> with the given term frequencies.\<close>

definition posted :: "nat \<Rightarrow> (str \<times> nat) list \<Rightarrow> (str \<Rightarrow> (nat \<times> nat) list) \<Rightarrow> str \<Rightarrow> (nat \<times> nat) list" where
  "posted d tfs P t = P t @ (case map_of tfs t of Some f \<Rightarrow> [(d, f)] | None \<Rightarrow> [])"

lemma posted_step:
  "t \<notin> fst ` set tfs \<Longrightarrow> posted d tfs (P(t := P t @ [(d, f)])) = posted d ((t, f) # tfs) P"
  using map_of_eq_None_iff [of tfs t] by (auto simp: posted_def fun_eq_iff)

lemma add_runs_ok:
  assumes "post_ok ix P" "distinct (map fst tfs)"
  shows "post_ok (fst (fold (add_run d) tfs (ix, tids))) (posted d tfs P) \<and> bm_frame ix (fst (fold (add_run d) tfs (ix, tids)))"
  using assms
proof (induction tfs arbitrary: ix P tids)
  case Nil
  have "posted d [] P = P" by (simp add: posted_def fun_eq_iff)
  with Nil show ?case by (simp add: bm_frame_def)
next
  case (Cons tf tfs)
  obtain t f where tf: "tf = (t, f)" by (cases tf)
  obtain tid ix1 where i: "intern t ix = (tid, ix1)" by (cases "intern t ix")
  let ?ix = "add_posting d (tid, f) ix1"
  note 1 = intern_ok [OF Cons.prems(1) i]
  note 2 = add_posting_ok [OF 1(1,2), of d f]
  have "posted d tfs (P(t := P t @ [(d, f)])) = posted d ((t, f) # tfs) P"
    using Cons.prems(2) by (intro posted_step) (simp add: tf)
  with Cons.IH [OF 2(1), of "tids @ [tid]"] Cons.prems(2) show ?case
    using bm_frame_trans [OF 1(4) bm_frame_trans [OF 2(3)]] by (simp add: tf i add_run_intern del: fun_upd_apply)
qed

lemma count_term_map:
  assumes "inj_on h (insert t (set us))" "distinct us"
  shows "count_term (h t) (map (\<lambda>u. (h u, c u)) us) =
    map (\<lambda>u. (h u, c u + (if u = t then 1 else 0))) us @ (if t \<in> set us then [] else [(h t, 1)])"
  using assms
proof (induction us)
  case (Cons u us)
  then have "inj_on h (insert t (set us))" by (auto intro: inj_on_subset)
  moreover have "h u = h t \<longleftrightarrow> u = t" using Cons.prems(1) by (auto simp: inj_on_def)
  ultimately show ?case using Cons by auto
qed simp

text \<open>The frequencies counted while scanning: the terms seen so far, each with its count.\<close>

definition counted :: "bm25_index \<Rightarrow> str list \<Rightarrow> (nat \<times> nat) list \<Rightarrow> bool" where
  "counted ix ts tf \<longleftrightarrow> (\<exists>us. distinct us \<and> set us = set ts \<and> (\<forall>u \<in> set us. map_of (bm_term_ids ix) u \<noteq> None) \<and>
     tf = map (\<lambda>u. (the (map_of (bm_term_ids ix) u), count_list ts u)) us)"

lemma counted_step:
  assumes "post_ok ix P" "counted ix ts tf" "intern t ix = (tid, ix')"
  shows "counted ix' (ts @ [t]) (count_term tid tf)"
proof -
  from assms(2) obtain us where us: "distinct us" "set us = set ts" "\<forall>u \<in> set us. map_of (bm_term_ids ix) u \<noteq> None"
    "tf = map (\<lambda>u. (the (map_of (bm_term_ids ix) u), count_list ts u)) us"
    unfolding counted_def by blast
  note i = intern_ok [OF assms(1,3)]
  have same: "map_of (bm_term_ids ix') u = map_of (bm_term_ids ix) u" if "u \<in> set us" for u
    using us(3) that i(3) by (metis domIff map_le_def)
  let ?h = "\<lambda>u. the (map_of (bm_term_ids ix') u)"
  have known: "map_of (bm_term_ids ix') u \<noteq> None" if "u \<in> insert t (set us)" for u
    using that same us(3) i(2) by auto
  have "inj_on ?h (insert t (set us))"
    using known i(1) unfolding inj_on_def post_ok_def by (metis option.collapse)
  moreover have "tf = map (\<lambda>u. (?h u, count_list ts u)) us" using us(4) same by simp
  ultimately have "count_term tid tf =
      map (\<lambda>u. (?h u, count_list ts u + (if u = t then 1 else 0))) us @ (if t \<in> set us then [] else [(?h t, 1)])"
    using count_term_map [of ?h t us "count_list ts"] us(1) i(2) by simp
  also have "\<dots> = map (\<lambda>u. (?h u, count_list (ts @ [t]) u)) (us @ (if t \<in> set us then [] else [t]))"
    using us(2) by (auto simp: count_list_0_iff)
  finally show ?thesis unfolding counted_def
    using us known by (intro exI [of _ "us @ (if t \<in> set us then [] else [t])"]) auto
qed

lemma counted_fold:
  assumes "post_ok ix P" "counted ix ts tf"
  shows "\<exists>ix' tf'. fold intern_and_count us (ix, tf) = (ix', tf') \<and> post_ok ix' P \<and> counted ix' (ts @ us) tf' \<and> bm_frame ix ix'"
  using assms
proof (induction us arbitrary: ix ts tf)
  case (Cons u us)
  obtain tid ix1 where i: "intern u ix = (tid, ix1)" by (cases "intern u ix")
  note 1 = intern_ok [OF Cons.prems(1) i]
  from Cons.IH [OF 1(1) counted_step [OF Cons.prems i]] show ?case
    using bm_frame_trans [OF 1(4)] by (auto simp: i intern_and_count_intern)
qed (simp add: bm_frame_def)

lemma add_postings_ok:
  assumes "post_ok ix P" "distinct us" "\<forall>u \<in> set us. map_of (bm_term_ids ix) u \<noteq> None"
  shows "post_ok (fold (add_posting d) (map (\<lambda>u. (the (map_of (bm_term_ids ix) u), c u)) us) ix) (posted d (map (\<lambda>u. (u, c u)) us) P) \<and>
    bm_frame ix (fold (add_posting d) (map (\<lambda>u. (the (map_of (bm_term_ids ix) u), c u)) us) ix)"
  using assms
proof (induction us arbitrary: ix P)
  case Nil
  have "posted d [] P = P" by (simp add: posted_def fun_eq_iff)
  with Nil show ?case by (simp add: bm_frame_def)
next
  case (Cons u us)
  then obtain tid where t: "map_of (bm_term_ids ix) u = Some tid" by auto
  note 1 = add_posting_ok [OF Cons.prems(1) t, of d "c u"]
  have "posted d (map (\<lambda>u. (u, c u)) us) (P(u := P u @ [(d, c u)])) = posted d (map (\<lambda>u. (u, c u)) (u # us)) P"
    using Cons.prems(2) posted_step [of u "map (\<lambda>u. (u, c u)) us" d P "c u"] by (simp add: image_image)
  with Cons.IH [OF 1(1)] Cons.prems(2,3) show ?case
    using bm_frame_trans [OF 1(3)] by (simp add: t 1(2) del: fun_upd_apply)
qed

section \<open>The represented history\<close>

definition doc_postings :: "str list list \<Rightarrow> str \<Rightarrow> (nat \<times> nat) list" where
  "doc_postings hist t = map (\<lambda>d. (d, count_list (hist ! d) t)) (filter (\<lambda>d. t \<in> set (hist ! d)) [0..<length hist])"

definition bm_rep :: "bm25_index \<Rightarrow> str list list \<Rightarrow> (bytes \<rightharpoonup> nat) \<Rightarrow> bool" where
  "bm_rep ix hist live \<longleftrightarrow>
     post_ok ix (doc_postings hist) \<and> length (bm_docs ix) = length hist \<and> length (bm_doc_len ix) = length hist \<and>
     map_of (bm_key_to_doc ix) = live \<and>
     (\<forall>k d. live k = Some d \<longrightarrow> d < length hist \<and> bm_docs ix ! d = k \<and> bm_doc_len ix ! d = length (hist ! d)) \<and>
     (\<forall>d < length hist. bm_docs ix ! d \<noteq> [] \<longrightarrow> live (bm_docs ix ! d) = Some d) \<and>
     (\<forall>d < length hist. d \<notin> ran live \<longrightarrow> bm_doc_len ix ! d = 0) \<and>
     bm_total_doc_len ix = sum_list (bm_doc_len ix) \<and> bm_active_docs ix = card (dom live)"

lemma bm_rep_new: "bm_rep bm25_new [] Map.empty"
  by (simp add: bm_rep_def bm25_new_def post_ok_def doc_postings_def)

lemma posted_doc_postings:
  assumes "\<And>t. map_of tfs t = (if t \<in> set toks then Some (count_list toks t) else None)"
  shows "posted (length hist) tfs (doc_postings hist) = doc_postings (hist @ [toks])"
proof
  fix t
  have "filter (\<lambda>d. t \<in> set ((hist @ [toks]) ! d)) [0..<length hist] = filter (\<lambda>d. t \<in> set (hist ! d)) [0..<length hist]"
    by (intro filter_cong) (auto simp: nth_append)
  then show "posted (length hist) tfs (doc_postings hist) t = doc_postings (hist @ [toks]) t"
    using assms [of t] by (auto simp: posted_def doc_postings_def nth_append)
qed

lemma bm_rep_extend:
  assumes "bm_rep ix hist live" "live k = None" "post_ok ix' (doc_postings (hist @ [toks]))"
    "bm_docs ix' = bm_docs ix @ [k]" "bm_key_to_doc ix' = hm_insert k (length (bm_docs ix)) (bm_key_to_doc ix)"
    "bm_doc_len ix' = bm_doc_len ix @ [length toks]" "bm_total_doc_len ix' = bm_total_doc_len ix + length toks"
    "bm_active_docs ix' = bm_active_docs ix + 1"
  shows "bm_rep ix' (hist @ [toks]) (live(k \<mapsto> length hist))"
proof -
  note R = assms(1) [unfolded bm_rep_def]
  have len: "length (bm_docs ix) = length hist" "length (bm_doc_len ix) = length hist" and fin: "finite (dom live)"
    and key: "map_of (bm_key_to_doc ix) = live"
    using R finite_dom_map_of [of "bm_key_to_doc ix"] by simp_all
  have live: "d < length hist \<and> bm_docs ix ! d = k' \<and> bm_doc_len ix ! d = length (hist ! d)" if "live k' = Some d" for k' d
    using R that by simp
  have docs: "live (bm_docs ix ! d) = Some d" if "d < length hist" "bm_docs ix ! d \<noteq> []" for d
    using R that by simp
  have ran: "ran (live(k \<mapsto> length hist)) = insert (length hist) (ran live)"
    using assms(2) by (simp add: ran_map_upd)
  have zero: "bm_doc_len ix ! d = 0" if "d < length hist" "d \<notin> ran live" for d
    using R that by simp
  show ?thesis unfolding bm_rep_def
  proof (intro conjI)
    show "post_ok ix' (doc_postings (hist @ [toks]))" by (rule assms(3))
    show "\<forall>k' d. (live(k \<mapsto> length hist)) k' = Some d \<longrightarrow>
        d < length (hist @ [toks]) \<and> bm_docs ix' ! d = k' \<and> bm_doc_len ix' ! d = length ((hist @ [toks]) ! d)"
      using live len assms(4,6) by (auto simp: nth_append less_SucI split: if_splits)
    show "\<forall>d < length (hist @ [toks]). bm_docs ix' ! d \<noteq> [] \<longrightarrow> (live(k \<mapsto> length hist)) (bm_docs ix' ! d) = Some d"
      using docs len assms(2,4) by (fastforce simp: nth_append less_Suc_eq)
    show "\<forall>d < length (hist @ [toks]). d \<notin> ran (live(k \<mapsto> length hist)) \<longrightarrow> bm_doc_len ix' ! d = 0"
      using zero len assms(6) unfolding ran by (auto simp: nth_append less_Suc_eq)
    show "bm_active_docs ix' = card (dom (live(k \<mapsto> length hist)))"
      using R fin assms(2,8) by (simp add: domIff)
  qed (use R len key assms(4-7) in simp_all)
qed

lemma bm_rep_remove:
  assumes "bm_rep ix hist live"
  shows "bm_rep (remove_document k ix) hist (live(k := None))"
proof (cases "live k")
  case None
  then have "live(k := None) = live" by auto
  with None assms show ?thesis by (simp add: remove_document_def bm_rep_def)
next
  case (Some d)
  note R = assms [unfolded bm_rep_def]
  have len: "length (bm_docs ix) = length hist" "length (bm_doc_len ix) = length hist" and fin: "finite (dom live)"
    and key: "map_of (bm_key_to_doc ix) = live"
    using R finite_dom_map_of [of "bm_key_to_doc ix"] by simp_all
  have live: "d' < length hist \<and> bm_docs ix ! d' = k' \<and> bm_doc_len ix ! d' = length (hist ! d')" if "live k' = Some d'" for k' d'
    using R that by simp
  have other: "d' \<noteq> d" if "live k' = Some d'" "k' \<noteq> k" for k' d'
    using live [OF that(1)] live [OF Some] that(2) by auto
  have docs: "live (bm_docs ix ! d) = Some d" if "d < length hist" "bm_docs ix ! d \<noteq> []" for d
    using R that by simp
  have ran: "ran live \<subseteq> insert d (ran (live(k := None)))"
    using Some by (auto simp: ran_def) (metis option.inject)
  have zero: "bm_doc_len ix ! d = 0" if "d < length hist" "d \<notin> ran live" for d
    using R that by simp
  have eq: "remove_document k ix = ix\<lparr>bm_key_to_doc := bt_remove k (bm_key_to_doc ix), bm_docs := (bm_docs ix)[d := []],
      bm_doc_len := (bm_doc_len ix)[d := 0], bm_total_doc_len := bm_total_doc_len ix - bm_doc_len ix ! d,
      bm_active_docs := bm_active_docs ix - 1\<rparr>"
    using key Some by (simp add: remove_document_def)
  show ?thesis unfolding bm_rep_def
  proof (intro conjI)
    show "post_ok (remove_document k ix) (doc_postings hist)"
      using R unfolding eq post_ok_def by simp
    show "\<forall>k' d'. (live(k := None)) k' = Some d' \<longrightarrow>
        d' < length hist \<and> bm_docs (remove_document k ix) ! d' = k' \<and> bm_doc_len (remove_document k ix) ! d' = length (hist ! d')"
    proof (intro allI impI)
      fix k' d' assume "(live(k := None)) k' = Some d'"
      then have "live k' = Some d'" "k' \<noteq> k" by (auto split: if_splits)
      with live [of k' d'] other [of k' d'] show "d' < length hist \<and> bm_docs (remove_document k ix) ! d' = k' \<and>
          bm_doc_len (remove_document k ix) ! d' = length (hist ! d')"
        by (simp add: eq)
    qed
    show "\<forall>d' < length hist. bm_docs (remove_document k ix) ! d' \<noteq> [] \<longrightarrow>
        (live(k := None)) (bm_docs (remove_document k ix) ! d') = Some d'"
      using docs live [OF Some] len unfolding eq by (auto simp: nth_list_update) (metis Some option.inject)
    show "\<forall>d' < length hist. d' \<notin> ran (live(k := None)) \<longrightarrow> bm_doc_len (remove_document k ix) ! d' = 0"
      using zero ran len live [OF Some] unfolding eq by (auto simp: nth_list_update)
    show "bm_total_doc_len (remove_document k ix) = sum_list (bm_doc_len (remove_document k ix))"
      using R live [OF Some] unfolding eq by (simp add: sum_list_update)
    show "bm_active_docs (remove_document k ix) = card (dom (live(k := None)))"
      using R Some fin unfolding eq by (simp add: card_Diff_singleton domI)
  qed (use len key in \<open>simp_all add: eq\<close>)
qed

section \<open>Adding documents\<close>

lemma add_document_direct_rep:
  assumes "bm_rep ix hist live" "live k = None"
  shows "bm_rep (add_document_direct k kt vt ix) (hist @ [tokenize kt @ tokenize vt]) (live(k \<mapsto> length hist))"
proof -
  let ?toks = "tokenize kt @ tokenize vt" and ?d = "length (bm_docs ix)"
  let ?ix1 = "ix\<lparr>bm_key_to_doc := hm_insert k ?d (bm_key_to_doc ix), bm_docs := bm_docs ix @ [k]\<rparr>"
  have P: "post_ok ix (doc_postings hist)" "?d = length hist" using assms(1) by (simp_all add: bm_rep_def)
  then have "post_ok ?ix1 (doc_postings hist)" by (simp add: post_ok_def)
  moreover have "counted ?ix1 [] []" by (auto simp: counted_def intro!: exI [of _ "[]"])
  ultimately obtain ix2 tf where 2: "fold intern_and_count ?toks (?ix1, []) = (ix2, tf)" "post_ok ix2 (doc_postings hist)"
    "counted ix2 ?toks tf" "bm_frame ?ix1 ix2"
    using counted_fold [of ?ix1 "doc_postings hist" "[]" "[]" ?toks] by auto
  then obtain us where us: "distinct us" "set us = set ?toks" "\<forall>u \<in> set us. map_of (bm_term_ids ix2) u \<noteq> None"
    "tf = map (\<lambda>u. (the (map_of (bm_term_ids ix2) u), count_list ?toks u)) us"
    unfolding counted_def by blast
  let ?ix3 = "ix2\<lparr>bm_doc_len := bm_doc_len ix2 @ [length ?toks]\<rparr>"
  let ?ix4 = "fold (add_posting ?d) tf ?ix3"
  have "post_ok ?ix3 (doc_postings hist)" using 2(2) by (simp add: post_ok_def)
  then have 4: "post_ok ?ix4 (posted ?d (map (\<lambda>u. (u, count_list ?toks u)) us) (doc_postings hist))" "bm_frame ?ix3 ?ix4"
    using add_postings_ok [of ?ix3 "doc_postings hist" us ?d "count_list ?toks"] us by simp_all
  have "map_of (map (\<lambda>u. (u, count_list ?toks u)) us) t = (if t \<in> set ?toks then Some (count_list ?toks t) else None)" for t
    using us(2) by (simp add: map_of_map_restrict restrict_map_def)
  from posted_doc_postings [OF this, of hist] 4(1) P(2) have "post_ok ?ix4 (doc_postings (hist @ [?toks]))" by simp
  moreover have "add_document_direct k kt vt ix = ?ix4\<lparr>bm_doc_terms := bm_doc_terms ?ix4 @ [map fst tf],
      bm_total_doc_len := bm_total_doc_len ?ix4 + length ?toks, bm_active_docs := bm_active_docs ?ix4 + 1\<rparr>"
    unfolding add_document_direct_def Let_def 2(1) by simp
  ultimately show ?thesis
    using 2(4) 4(2) by (intro bm_rep_extend [OF assms]) (simp_all add: bm_frame_def post_ok_def)
qed

lemma runs_sorted:
  "sorted xs \<Longrightarrow> distinct (map fst (token_runs xs)) \<and> fst ` set (token_runs xs) = set xs \<and>
     (\<forall>t. map_of (token_runs xs) t = (if t \<in> set xs then Some (count_list xs t) else None))"
proof (induction xs rule: token_runs.induct)
  case (2 t ts)
  let ?rest = "dropWhile (\<lambda>u. u = t) ts"
  have split: "ts = takeWhile (\<lambda>u. u = t) ts @ ?rest" by simp
  have same: "u = t" if "u \<in> set (takeWhile (\<lambda>u. u = t) ts)" for u using set_takeWhileD [OF that] by simp
  have sorted: "sorted ?rest" using 2(2) by (simp add: sorted_wrt_dropWhile)
  have fresh: "t \<notin> set ?rest"
  proof (cases ?rest)
    case (Cons v vs)
    then have "v \<noteq> t" using hd_dropWhile [of "\<lambda>u. u = t" ts] by auto
    moreover have "t \<le> v" using 2(2) Cons set_dropWhileD [of v "\<lambda>u. u = t" ts] by simp
    ultimately show ?thesis using sorted Cons by auto
  next
    case Nil
    show ?thesis unfolding Nil by simp
  qed
  have "count_list (takeWhile (\<lambda>u. u = t) ts) u = (if u = t then length (takeWhile (\<lambda>u. u = t) ts) else 0)" for u
    by (induction ts) auto
  then have cnt: "count_list ts u = (if u = t then length (takeWhile (\<lambda>u. u = t) ts) else count_list ?rest u)" for u
    using fresh by (subst split) (simp add: count_list_0_iff del: takeWhile_dropWhile_id)
  have mem: "u \<in> set ts \<longleftrightarrow> u \<in> set ?rest" if "u \<noteq> t" for u
    using that same by (subst (1) split) (auto simp del: takeWhile_dropWhile_id)
  then have set: "insert t (set ?rest) = insert t (set ts)" by blast
  note IH = 2(1) [OF sorted]
  show ?case
  proof (intro conjI allI)
    show "distinct (map fst (token_runs (t # ts)))" "fst ` set (token_runs (t # ts)) = set (t # ts)"
      using IH fresh set by simp_all
    show "map_of (token_runs (t # ts)) u = (if u \<in> set (t # ts) then Some (count_list (t # ts) u) else None)" for u
      using IH mem [of u] by (simp add: cnt)
  qed
qed simp

lemma add_tokens_rep:
  assumes "bm_rep ix hist live" "live k = None"
  shows "bm_rep (add_tokens k toks ix) (hist @ [toks]) (live(k \<mapsto> length hist))"
proof -
  let ?d = "length (bm_docs ix)"
  let ?ix2 = "ix\<lparr>bm_key_to_doc := hm_insert k ?d (bm_key_to_doc ix), bm_docs := bm_docs ix @ [k],
    bm_doc_len := bm_doc_len ix @ [length toks]\<rparr>"
  let ?ix3 = "fst (fold (add_run ?d) (token_runs (sort toks)) (?ix2, []))" and ?tids = "snd (fold (add_run ?d) (token_runs (sort toks)) (?ix2, []))"
  have P: "post_ok ix (doc_postings hist)" "?d = length hist" using assms(1) by (simp_all add: bm_rep_def)
  then have 2: "post_ok ?ix2 (doc_postings hist)" by (simp add: post_ok_def)
  have "count_list (sort toks) t = count_list toks t" for t by (metis count_mset mset_sort)
  with runs_sorted [of "sort toks"] have token_runs: "distinct (map fst (token_runs (sort toks)))"
    "map_of (token_runs (sort toks)) t = (if t \<in> set toks then Some (count_list toks t) else None)" for t by simp_all
  from add_runs_ok [OF 2 token_runs(1), of ?d "[]"] have 3: "post_ok ?ix3 (doc_postings (hist @ [toks]))" "bm_frame ?ix2 ?ix3"
    using posted_doc_postings [OF token_runs(2), of hist] P(2) by simp_all
  have "add_tokens k toks ix = ?ix3\<lparr>bm_doc_terms := bm_doc_terms ?ix3 @ [?tids],
      bm_total_doc_len := bm_total_doc_len ?ix3 + length toks, bm_active_docs := bm_active_docs ?ix3 + 1\<rparr>"
    by (simp add: add_tokens_def Let_def case_prod_unfold)
  with 3 show ?thesis
    by (intro bm_rep_extend [OF assms]) (simp_all add: bm_frame_def post_ok_def)
qed

section \<open>Search\<close>

definition doc_freq :: "str list list \<Rightarrow> str \<Rightarrow> nat" where
  "doc_freq hist t = length (filter (\<lambda>toks. t \<in> set toks) hist)"

text \<open>The score of a document for the terms of a query, added up in the order of the terms.\<close>

definition ref_score :: "'f float_ops \<Rightarrow> str list list \<Rightarrow> 'f \<Rightarrow> str list \<Rightarrow> str list \<Rightarrow> 'f" where
  "ref_score fl hist avgdl q toks =
     fold (\<lambda>t acc. if t \<in> set toks
        then fl_add fl acc (term_score fl (idf fl (length hist) (doc_freq hist t)) avgdl (count_list toks t) (length toks))
        else acc) q (fl_of_nat fl 0)"

lemma ref_score_snoc:
  "ref_score fl hist avgdl (q @ [t]) toks = (if t \<in> set toks
     then fl_add fl (ref_score fl hist avgdl q toks)
       (term_score fl (idf fl (length hist) (doc_freq hist t)) avgdl (count_list toks t) (length toks))
     else ref_score fl hist avgdl q toks)"
  by (simp add: ref_score_def)

lemma ref_score_none: "set q \<inter> set toks = {} \<Longrightarrow> ref_score fl hist avgdl q toks = fl_of_nat fl 0"
  by (induction q rule: rev_induct) (auto simp: ref_score_snoc, simp add: ref_score_def)

lemma length_doc_postings: "length (doc_postings hist t) = doc_freq hist t"
  by (auto simp: doc_postings_def doc_freq_def length_filter_conv_card intro!: arg_cong [where f = card])

lemma score_postings:
  assumes "distinct ds" "\<forall>d \<in> set ds. d < length (bm_docs ix)" "length scores = length (bm_docs ix)"
  shows "fold (score_posting fl ix w) (map (\<lambda>d. (d, c d)) ds) (scores, touched) =
    (map (\<lambda>d. if d \<in> set ds \<and> bm_docs ix ! d \<noteq> []
            then fl_add fl (scores ! d) (term_score fl w (bm25_avgdl fl ix) (c d) (bm_doc_len ix ! d)) else scores ! d)
       [0..<length (bm_docs ix)],
     touched @ filter (\<lambda>d. bm_docs ix ! d \<noteq> [] \<and> fl_eq fl (scores ! d) (fl_of_nat fl 0)) ds)"
  using assms
proof (induction ds arbitrary: scores touched)
  case Nil
  then show ?case using map_nth [of scores] by simp
next
  case (Cons d ds)
  let ?s = "if bm_docs ix ! d = [] then scores
    else scores[d := fl_add fl (scores ! d) (term_score fl w (bm25_avgdl fl ix) (c d) (bm_doc_len ix ! d))]"
  let ?t = "touched @ filter (\<lambda>d. bm_docs ix ! d \<noteq> [] \<and> fl_eq fl (scores ! d) (fl_of_nat fl 0)) [d]"
  have step: "score_posting fl ix w (d, c d) (scores, touched) = (?s, ?t)"
    using Cons.prems(2) by (simp add: score_posting_def Let_def)
  have "filter (\<lambda>d. bm_docs ix ! d \<noteq> [] \<and> fl_eq fl (?s ! d) (fl_of_nat fl 0)) ds =
      filter (\<lambda>d. bm_docs ix ! d \<noteq> [] \<and> fl_eq fl (scores ! d) (fl_of_nat fl 0)) ds"
  proof (rule filter_cong [OF refl])
    fix e assume "e \<in> set ds"
    with Cons.prems(1) have "e \<noteq> d" by auto
    then show "(bm_docs ix ! e \<noteq> [] \<and> fl_eq fl (?s ! e) (fl_of_nat fl 0)) = (bm_docs ix ! e \<noteq> [] \<and> fl_eq fl (scores ! e) (fl_of_nat fl 0))"
      by simp
  qed
  moreover have "map (\<lambda>e. if e \<in> set ds \<and> bm_docs ix ! e \<noteq> []
        then fl_add fl (?s ! e) (term_score fl w (bm25_avgdl fl ix) (c e) (bm_doc_len ix ! e)) else ?s ! e) [0..<length (bm_docs ix)] =
      map (\<lambda>e. if e \<in> set (d # ds) \<and> bm_docs ix ! e \<noteq> []
        then fl_add fl (scores ! e) (term_score fl w (bm25_avgdl fl ix) (c e) (bm_doc_len ix ! e)) else scores ! e) [0..<length (bm_docs ix)]"
    using Cons.prems by (intro map_cong) (auto simp: nth_list_update)
  ultimately show ?case
    using Cons.IH [of ?s ?t] Cons.prems by (simp add: step)
qed

text \<open>No document sharing a term has a score that compares equal to zero.\<close>

definition nonzero :: "'f float_ops \<Rightarrow> str list list \<Rightarrow> 'f \<Rightarrow> bool" where
  "nonzero fl hist avgdl \<longleftrightarrow>
     (\<forall>us d. set us \<inter> set (hist ! d) \<noteq> {} \<longrightarrow> \<not> fl_eq fl (ref_score fl hist avgdl us (hist ! d)) (fl_of_nat fl 0))"

text \<open>What the loop over the query terms has reached: \<open>ts\<close> are the terms done.\<close>

definition search_state :: "'f float_ops \<Rightarrow> bm25_index \<Rightarrow> str list list \<Rightarrow> str list \<Rightarrow> 'f list \<times> nat list \<Rightarrow> bool" where
  "search_state fl ix hist ts st \<longleftrightarrow>
     length (fst st) = length hist \<and>
     (\<forall>d < length hist. bm_docs ix ! d \<noteq> [] \<longrightarrow> fst st ! d = ref_score fl hist (bm25_avgdl fl ix) ts (hist ! d)) \<and>
     set (snd st) = {d. d < length hist \<and> bm_docs ix ! d \<noteq> [] \<and> set ts \<inter> set (hist ! d) \<noteq> {}} \<and>
     (nonzero fl hist (bm25_avgdl fl ix) \<longrightarrow>
        distinct (snd st))"

lemma bm_rep_len: "bm_rep ix hist live \<Longrightarrow> d < length hist \<Longrightarrow> bm_docs ix ! d \<noteq> [] \<Longrightarrow> bm_doc_len ix ! d = length (hist ! d)"
  by (auto simp: bm_rep_def)

lemma score_term_fold:
  assumes "bm_rep ix hist live"
  shows "score_term fl ix t st =
    fold (score_posting fl ix (idf fl (length hist) (doc_freq hist t))) (doc_postings hist t) st"
proof (cases "map_of (bm_term_ids ix) t")
  case None
  with assms show ?thesis by (simp add: score_term_def bm_rep_def post_ok_def)
next
  case (Some tid)
  with assms have "map_of (bm_postings ix) tid = (if doc_postings hist t = [] then None else Some (doc_postings hist t))"
    "map_of (bm_df ix) tid = (if doc_postings hist t = [] then None else Some (doc_freq hist t))" "length (bm_docs ix) = length hist"
    by (auto simp: bm_rep_def post_ok_def length_doc_postings)
  with Some show ?thesis by (simp add: score_term_def)
qed

lemma search_state_step:
  assumes "bm_rep ix hist live" "fl_eq fl (fl_of_nat fl 0) (fl_of_nat fl 0)" "search_state fl ix hist ts st"
  shows "search_state fl ix hist (ts @ [t]) (score_term fl ix t st)"
proof -
  obtain scores touched where st: "st = (scores, touched)" by (cases st)
  let ?ds = "filter (\<lambda>d. t \<in> set (hist ! d)) [0..<length hist]"
  let ?w = "idf fl (length hist) (doc_freq hist t)" and ?a = "bm25_avgdl fl ix"
  let ?new = "filter (\<lambda>d. bm_docs ix ! d \<noteq> [] \<and> fl_eq fl (scores ! d) (fl_of_nat fl 0)) ?ds"
  note S = assms(3) [unfolded search_state_def st fst_conv snd_conv]
  have len: "length (bm_docs ix) = length hist" "length scores = length hist" using assms(1) S by (simp_all add: bm_rep_def)
  have touched: "set touched = {d. d < length hist \<and> bm_docs ix ! d \<noteq> [] \<and> set ts \<inter> set (hist ! d) \<noteq> {}}" using S by simp
  have ref: "scores ! d = ref_score fl hist ?a ts (hist ! d)" if "d < length hist" "bm_docs ix ! d \<noteq> []" for d
    using S that by simp
  have eq: "score_term fl ix t st = (map (\<lambda>d. if d \<in> set ?ds \<and> bm_docs ix ! d \<noteq> []
        then fl_add fl (scores ! d) (term_score fl ?w ?a (count_list (hist ! d) t) (bm_doc_len ix ! d)) else scores ! d) [0..<length hist],
      touched @ ?new)"
    unfolding score_term_fold [OF assms(1)] st doc_postings_def using len by (subst score_postings) simp_all
  have none: "ref_score fl hist ?a ts (hist ! d) = fl_of_nat fl 0" if "set ts \<inter> set (hist ! d) = {}" for d
    using that by (rule ref_score_none)
  have "set (touched @ ?new) = {d. d < length hist \<and> bm_docs ix ! d \<noteq> [] \<and> set (ts @ [t]) \<inter> set (hist ! d) \<noteq> {}}"
    using touched ref assms(2) none by auto
  moreover have "distinct (touched @ ?new)"
    if "nonzero fl hist ?a"
    using S that touched ref by (auto simp: nonzero_def) (meson disjoint_iff)
  ultimately show ?thesis
    unfolding search_state_def eq using ref bm_rep_len [OF assms(1)] by (auto simp: ref_score_snoc)
qed

lemma search_state_fold:
  assumes "bm_rep ix hist live" "fl_eq fl (fl_of_nat fl 0) (fl_of_nat fl 0)"
  shows "search_state fl ix hist ts (fold (score_term fl ix) ts (replicate (length hist) (fl_of_nat fl 0), []))"
proof (induction ts rule: rev_induct)
  case Nil
  show ?case by (simp add: search_state_def ref_score_def)
next
  case (snoc t ts)
  with search_state_step [OF assms] show ?case by simp
qed

text \<open>The live documents that share a term with the query, and the average length of the live documents.\<close>

definition matching :: "str list list \<Rightarrow> (bytes \<rightharpoonup> nat) \<Rightarrow> str list \<Rightarrow> bytes \<Rightarrow> bool" where
  "matching hist live q k \<longleftrightarrow> k \<noteq> [] \<and> (case live k of None \<Rightarrow> False | Some d \<Rightarrow> set q \<inter> set (hist ! d) \<noteq> {})"

definition ref_avgdl :: "'f float_ops \<Rightarrow> str list list \<Rightarrow> (bytes \<rightharpoonup> nat) \<Rightarrow> 'f" where
  "ref_avgdl fl hist live =
     (if dom live = {} then fl_of_nat fl 0
      else fl_div fl (fl_of_nat fl (\<Sum>k \<in> dom live. length (hist ! the (live k)))) (fl_of_nat fl (card (dom live))))"

lemma bm25_avgdl_rep:
  assumes "bm_rep ix hist live"
  shows "bm25_avgdl fl ix = ref_avgdl fl hist live"
proof -
  note R = assms [unfolded bm_rep_def]
  have fin: "finite (dom live)" using R finite_dom_map_of [of "bm_key_to_doc ix"] by simp
  have live: "d < length hist \<and> bm_docs ix ! d = k \<and> bm_doc_len ix ! d = length (hist ! d)" if "live k = Some d" for k d
    using R that by simp
  have "inj_on (the \<circ> live) (dom live)"
  proof (rule inj_onI)
    fix j k assume "j \<in> dom live" "k \<in> dom live" "(the \<circ> live) j = (the \<circ> live) k"
    then show "j = k" using live [of j] live [of k] by auto
  qed
  moreover have ran: "(the \<circ> live) ` dom live = ran live" by (force simp: ran_def dom_def)
  ultimately have "(\<Sum>k \<in> dom live. length (hist ! the (live k))) = (\<Sum>d \<in> ran live. length (hist ! d))"
    using sum.reindex [of "the \<circ> live" "dom live" "\<lambda>d. length (hist ! d)"] by simp
  also have "\<dots> = (\<Sum>d \<in> ran live. bm_doc_len ix ! d)"
    using live by (intro sum.cong) (auto simp: ran_def)
  also have "\<dots> = (\<Sum>d < length hist. bm_doc_len ix ! d)"
    using live R by (intro sum.mono_neutral_left) (auto simp: ran_def)
  also have "\<dots> = bm_total_doc_len ix"
    using R by (simp add: sum_list_sum_nth atLeast0LessThan)
  finally show ?thesis using R fin by (simp add: bm25_avgdl_def ref_avgdl_def card_gt_0_iff)
qed

lemma bm_rep_matching:
  assumes "bm_rep ix hist live"
  shows "(d < length hist \<and> bm_docs ix ! d \<noteq> [] \<and> set q \<inter> set (hist ! d) \<noteq> {}) =
    (matching hist live q (bm_docs ix ! d) \<and> live (bm_docs ix ! d) = Some d)"
proof
  assume d: "d < length hist \<and> bm_docs ix ! d \<noteq> [] \<and> set q \<inter> set (hist ! d) \<noteq> {}"
  then have "live (bm_docs ix ! d) = Some d" using assms by (simp add: bm_rep_def)
  with d show "matching hist live q (bm_docs ix ! d) \<and> live (bm_docs ix ! d) = Some d" by (simp add: matching_def)
next
  assume d: "matching hist live q (bm_docs ix ! d) \<and> live (bm_docs ix ! d) = Some d"
  then have "d < length hist" using assms unfolding bm_rep_def by blast
  with d show "d < length hist \<and> bm_docs ix ! d \<noteq> [] \<and> set q \<inter> set (hist ! d) \<noteq> {}" by (auto simp: matching_def)
qed

text \<open>What a search over the history is to return.\<close>

definition search_spec ::
  "'f float_ops \<Rightarrow> str list list \<Rightarrow> (bytes \<rightharpoonup> nat) \<Rightarrow> str list \<Rightarrow> nat \<Rightarrow> 'f bm25_result list \<Rightarrow> bool" where
  "search_spec fl hist live q top_k res \<longleftrightarrow>
     (let score = (\<lambda>k. ref_score fl hist (ref_avgdl fl hist live) q (hist ! the (live k)))
      in length res \<le> top_k \<and> map br_rank res = [0..<length res] \<and>
         sorted_wrt (\<lambda>a b. \<not> fl_less fl (br_score a) (br_score b)) res \<and>
         (\<forall>r \<in> set res. matching hist live q (br_key r) \<and> br_score r = score (br_key r)) \<and>
         (\<forall>k. matching hist live q k \<longrightarrow> k \<in> br_key ` set res \<or>
            length res = top_k \<and> (\<forall>r \<in> set res. \<not> fl_less fl (br_score r) (score k))) \<and>
         (nonzero fl hist (ref_avgdl fl hist live) \<longrightarrow> distinct (map br_key res)))"

lemma enumerate_results:
  fixes xs :: "(nat \<times> 'f) list" and f :: "nat \<Rightarrow> bytes"
  defines "res \<equiv> map (\<lambda>(rank, (d, score)). \<lparr>br_key = f d, br_score = score, br_rank = rank\<rparr>) (enumerate 0 xs)"
  shows "length res = length xs" "map br_rank res = [0..<length xs]" "map br_key res = map (\<lambda>x. f (fst x)) xs" "map br_score res = map snd xs"
  unfolding res_def
  by (simp, (rule nth_equalityI; simp add: nth_enumerate_eq case_prod_unfold)+)

lemma take_sorted_best:
  assumes "weak_order lt" "x \<in> set xs" "x \<notin> set (take n (sort_by lt xs))" "y \<in> set (take n (sort_by lt xs))"
  shows "\<not> lt x y"
proof -
  have "x \<in> set (drop n (sort_by lt xs))"
    using assms(2,3) set_sort_by [of lt xs] by (metis Un_iff append_take_drop_id set_append)
  moreover have "sorted_wrt (\<lambda>a b. \<not> lt b a) (take n (sort_by lt xs) @ drop n (sort_by lt xs))"
    using sort_by_weak [OF assms(1), of xs] by simp
  ultimately show ?thesis using assms(4) by (simp only: sorted_wrt_append) blast
qed

lemma ranked_spec:
  fixes fl :: "'f float_ops" and cands :: "(nat \<times> 'f) list"
  defines "lt \<equiv> \<lambda>a b :: nat \<times> 'f. fl_less fl (snd b) (snd a)"
  assumes "weak_order (fl_less fl)" "mset (arrange cands) = mset cands"
    and cands: "\<And>c. c \<in> set cands \<Longrightarrow> matching hist live q (f (fst c)) \<and> snd c = ref_score fl hist (ref_avgdl fl hist live) q (hist ! the (live (f (fst c))))"
      "\<And>k. matching hist live q k \<Longrightarrow> \<exists>c \<in> set cands. f (fst c) = k"
      "nonzero fl hist (ref_avgdl fl hist live) \<Longrightarrow> distinct (map (\<lambda>c. f (fst c)) cands)"
  shows "search_spec fl hist live q top_k
    (map (\<lambda>(rank, (d, score)). \<lparr>br_key = f d, br_score = score, br_rank = rank\<rparr>) (enumerate 0 (take top_k (sort_by lt (arrange cands)))))"
    (is "search_spec fl hist live q top_k ?res")
proof -
  let ?top = "take top_k (sort_by lt (arrange cands))"
  note res = enumerate_results [of f ?top]
  have weak: "weak_order lt" unfolding lt_def by (rule weak_order_map [OF weak_order_flip [OF assms(2)]])
  have all: "set (arrange cands) = set cands" using assms(3) by (rule mset_eq_setD)
  then have top: "set ?top \<subseteq> set cands" using set_take_subset by fastforce
  have mem: "r \<in> set ?res \<longleftrightarrow> (\<exists>i < length ?top. r = ?res ! i)" "i < length ?top \<Longrightarrow> br_key (?res ! i) = f (fst (?top ! i)) \<and> br_score (?res ! i) = snd (?top ! i)" for r i
    unfolding in_set_conv_nth res(1) by (blast, simp add: nth_enumerate_eq case_prod_unfold)
  have "sorted_wrt (\<lambda>a b. \<not> lt b a) ?top" using sort_by_weak [OF weak] by (rule sorted_wrt_take)
  then have "sorted_wrt (\<lambda>a b. \<not> fl_less fl (br_score a) (br_score b)) ?res"
    by (simp add: sorted_wrt_iff_nth_less lt_def nth_enumerate_eq case_prod_unfold)
  moreover have "matching hist live q (br_key r) \<and> br_score r = ref_score fl hist (ref_avgdl fl hist live) q (hist ! the (live (br_key r)))"
    if "r \<in> set ?res" for r
  proof -
    from that mem(1) obtain i where i: "i < length ?top" "r = ?res ! i" by auto
    with top nth_mem [OF i(1)] have "?top ! i \<in> set cands" by blast
    with cands(1) mem(2) i show ?thesis by simp
  qed
  moreover have "k \<in> br_key ` set ?res \<or>
      length ?res = top_k \<and> (\<forall>r \<in> set ?res. \<not> fl_less fl (br_score r) (ref_score fl hist (ref_avgdl fl hist live) q (hist ! the (live k))))"
    if "matching hist live q k" for k
  proof -
    from cands(2) [OF that] obtain c where c: "c \<in> set cands" "f (fst c) = k" by blast
    show ?thesis
    proof (cases "c \<in> set ?top")
      case True
      then have "k \<in> set (map br_key ?res)" unfolding res(3) using c(2) by force
      then show ?thesis by (simp only: set_map) blast
    next
      case False
      then have "\<not> lt c y" if "y \<in> set ?top" for y
        using take_sorted_best [OF weak, of c "arrange cands" top_k y] c(1) all that by simp
      then have best: "\<not> fl_less fl (snd (?top ! i)) (snd c)" if "i < length ?top" for i
        using nth_mem [OF that] by (simp only: lt_def) blast
      have "\<not> fl_less fl (br_score r) (snd c)" if "r \<in> set ?res" for r
        proof -
        from that mem(1) obtain i where "i < length ?top" "r = ?res ! i" by blast
        with best mem(2) show ?thesis by simp
      qed
      moreover have "?top \<noteq> sort_by lt (arrange cands)" using False c(1) all by auto
      then have "length ?top = top_k" by (auto simp: min_def)
      ultimately show ?thesis using cands(1) [OF c(1)] c(2) res(1) by auto
    qed
  qed
  moreover have "distinct (map br_key ?res)"
    if "nonzero fl hist (ref_avgdl fl hist live)"
  proof -
    have "mset (map (\<lambda>c. f (fst c)) (sort_by lt (arrange cands))) = mset (map (\<lambda>c. f (fst c)) cands)"
      using assms(3) by simp
    then have "distinct (map (\<lambda>c. f (fst c)) (sort_by lt (arrange cands)))"
      using cands(3) [OF that] mset_eq_imp_distinct_iff by blast
    then show ?thesis unfolding res(3) by (simp add: take_map [symmetric])
  qed
  ultimately show ?thesis
    unfolding search_spec_def Let_def using res(1,2) by (intro conjI) auto
qed

lemma bm25_search_spec:
  assumes "bm_rep ix hist live" "fl_eq fl (fl_of_nat fl 0) (fl_of_nat fl 0)" "weak_order (fl_less fl)" "\<And>xs. mset (arrange xs) = mset xs"
  shows "search_spec fl hist live (tokenize query) top_k (bm25_search fl arrange ix query top_k)"
proof -
  let ?q = "tokenize query" and ?a = "ref_avgdl fl hist live"
  let ?st = "fold (score_term fl ix) ?q (replicate (length hist) (fl_of_nat fl 0), [])"
  let ?cands = "map (\<lambda>d. (d, fst ?st ! d)) (snd ?st)"
  have avg: "bm25_avgdl fl ix = ?a" by (rule bm25_avgdl_rep [OF assms(1)])
  have len: "length (bm_docs ix) = length hist" using assms(1) by (simp add: bm_rep_def)
  note S = search_state_fold [OF assms(1,2), of ?q, unfolded search_state_def avg]
  show ?thesis
  proof (cases "bm25_is_empty ix \<or> top_k = 0 \<or> ?q = []")
    case True
    moreover have "\<not> matching hist live ?q k" if "bm25_is_empty ix \<or> ?q = []" for k
      using that assms(1) len by (auto simp: matching_def bm25_is_empty_def bm_rep_def split: option.splits)
    ultimately show ?thesis by (auto simp: bm25_search_def search_spec_def)
  next
    case False
    then have "bm25_search fl arrange ix query top_k =
        map (\<lambda>(rank, (d, score)). \<lparr>br_key = bm_docs ix ! d, br_score = score, br_rank = rank\<rparr>)
          (enumerate 0 (take top_k (sort_by (\<lambda>a b. fl_less fl (snd b) (snd a)) (arrange ?cands))))"
      by (simp add: bm25_search_def len case_prod_unfold Let_def)
    moreover have touched: "d \<in> set (snd ?st) \<longleftrightarrow> matching hist live ?q (bm_docs ix ! d) \<and> live (bm_docs ix ! d) = Some d" for d
      using S bm_rep_matching [OF assms(1), of d ?q] by simp
    moreover have "fst ?st ! d = ref_score fl hist ?a ?q (hist ! d)" if "d \<in> set (snd ?st)" for d
      using S that by simp
    moreover have "\<exists>d \<in> set (snd ?st). bm_docs ix ! d = k" if "matching hist live ?q k" for k
    proof -
      from that obtain d where "live k = Some d" by (auto simp: matching_def split: option.splits)
      moreover from this have "bm_docs ix ! d = k" using assms(1) by (simp add: bm_rep_def)
      ultimately show ?thesis using touched [of d] that by auto
    qed
    moreover have "inj_on (\<lambda>d. bm_docs ix ! d) (set (snd ?st))"
      by (rule inj_onI) (metis touched option.inject)
    ultimately show ?thesis
      using S by (auto intro!: ranked_spec [OF assms(3,4)] simp: comp_def distinct_map)
  qed
qed

end
