(* ===== verification/Utf8.thy ===== *)
theory Utf8
  imports Uldb_Prelude
begin

text \<open>
  The parts of the Rust standard library that treat byte strings as text:
  \<^verbatim>\<open>String::from_utf8_lossy\<close>, which replaces each maximal ill-formed part by U+FFFD, and
  the characters of a string, each as its UTF-8 bytes. The lemmas show that well-formed text is
  unchanged by the lossy conversion and is the concatenation of its characters.
\<close>

section \<open>Definitions\<close>

text \<open>
  The length of the well-formed character at the front, or of the ill-formed part that one
  replacement character stands for: the leading byte with the continuation bytes that could
  still belong to a character.
\<close>

definition second_ok :: "u8 \<Rightarrow> u8 \<Rightarrow> bool" where
  "second_ok a b =
     (utf8_cont b \<and> (a = 0xE0 \<longrightarrow> 0xA0 \<le> b) \<and> (a = 0xED \<longrightarrow> b \<le> 0x9F) \<and>
      (a = 0xF0 \<longrightarrow> 0x90 \<le> b) \<and> (a = 0xF4 \<longrightarrow> b \<le> 0x8F))"

definition char_width :: "u8 \<Rightarrow> nat" where
  "char_width a =
     (if a < 0x80 then 1
      else if 0xC2 \<le> a \<and> a \<le> 0xDF then 2
      else if 0xE0 \<le> a \<and> a \<le> 0xEF then 3
      else if 0xF0 \<le> a \<and> a \<le> 0xF4 then 4
      else 0)"

definition lossy_split :: "u8 \<Rightarrow> bytes \<Rightarrow> bool \<times> nat" where
  "lossy_split a bs =
     (let w = char_width a; conts = takeWhile utf8_cont (take (w - 1) bs)
      in if w = 0 then (False, 1)
         else if w = 1 then (True, 1)
         else if conts = [] \<or> \<not> second_ok a (hd conts) then (False, 1)
         else (length conts = w - 1, 1 + length conts))"

lemma lossy_split_pos [simp]: "0 < snd (lossy_split a bs)"
  by (simp add: lossy_split_def Let_def)

fun utf8_lossy :: "bytes \<Rightarrow> str" where
  "utf8_lossy [] = []"
| "utf8_lossy (a # bs) =
     (let (ok, n) = lossy_split a bs
      in (if ok then take n (a # bs) else [0xEF, 0xBF, 0xBD]) @ utf8_lossy (drop (n - 1) bs))"

text \<open>\<^verbatim>\<open>str::chars\<close>: the characters of well-formed text, each as its bytes.\<close>

fun utf8_chars :: "str \<Rightarrow> bytes list" where
  "utf8_chars [] = []"
| "utf8_chars (a # bs) =
     (let n = max 1 (char_width a) in take n (a # bs) # utf8_chars (drop (n - 1) bs))"

section \<open>Lemmas\<close>

lemma char_width_cases:
  obtains (one) "a < 0x80" "char_width a = 1"
  | (two) "\<not> a < 0x80" "0xC2 \<le> a \<and> a \<le> 0xDF" "char_width a = 2" "a \<noteq> 0xE0" "a \<noteq> 0xED" "a \<noteq> 0xF0" "a \<noteq> 0xF4"
  | (three) "\<not> a < 0x80" "\<not> (0xC2 \<le> a \<and> a \<le> 0xDF)" "0xE0 \<le> a \<and> a \<le> 0xEF" "char_width a = 3"
      "a \<noteq> 0xF0" "a \<noteq> 0xF4"
  | (four) "\<not> a < 0x80" "\<not> (0xC2 \<le> a \<and> a \<le> 0xDF)" "\<not> (0xE0 \<le> a \<and> a \<le> 0xEF)"
      "0xF0 \<le> a \<and> a \<le> 0xF4" "char_width a = 4" "a \<noteq> 0xE0" "a \<noteq> 0xED"
  | (bad) "\<not> a < 0x80" "\<not> (0xC2 \<le> a \<and> a \<le> 0xDF)" "\<not> (0xE0 \<le> a \<and> a \<le> 0xEF)"
      "\<not> (0xF0 \<le> a \<and> a \<le> 0xF4)" "char_width a = 0"
proof -
  consider "a < 0x80" | "\<not> a < 0x80" "0xC2 \<le> a \<and> a \<le> 0xDF"
    | "\<not> a < 0x80" "\<not> (0xC2 \<le> a \<and> a \<le> 0xDF)" "0xE0 \<le> a \<and> a \<le> 0xEF"
    | "\<not> a < 0x80" "\<not> (0xC2 \<le> a \<and> a \<le> 0xDF)" "\<not> (0xE0 \<le> a \<and> a \<le> 0xEF)" "0xF0 \<le> a \<and> a \<le> 0xF4"
    | "\<not> a < 0x80" "\<not> (0xC2 \<le> a \<and> a \<le> 0xDF)" "\<not> (0xE0 \<le> a \<and> a \<le> 0xEF)"
        "\<not> (0xF0 \<le> a \<and> a \<le> 0xF4)"
    by blast
  then show thesis
  proof cases
    case 1
    then show thesis by (intro one) (simp_all add: char_width_def)
  next
    case 2
    then show thesis by (intro two) (auto simp: char_width_def)
  next
    case 3
    then show thesis by (intro three) (auto simp: char_width_def)
  next
    case 4
    then show thesis by (intro four) (auto simp: char_width_def)
  next
    case 5
    then show thesis by (intro bad) (simp_all add: char_width_def)
  qed
qed

lemma utf8_valid_step:
  "utf8_valid (a # bs) \<longleftrightarrow>
     fst (lossy_split a bs) \<and> utf8_valid (drop (snd (lossy_split a bs) - 1) bs)"
proof -
  note [simp del] = utf8_valid.simps(2) and [simp] = utf8_valid.simps(2) [of a]
  note split_simps = lossy_split_def second_ok_def Let_def
  show ?thesis
  proof (cases a rule: char_width_cases)
    case one
    then show ?thesis by (simp add: split_simps)
  next
    case two
    then show ?thesis by (cases bs) (auto simp: split_simps)
  next
    case three
    then show ?thesis by (cases bs; cases "tl bs") (auto simp: split_simps)
  next
    case four
    then show ?thesis by (cases bs; cases "tl bs"; cases "tl (tl bs)") (auto simp: split_simps)
  next
    case bad
    then show ?thesis by (auto simp: split_simps)
  qed
qed

lemma utf8_lossy_valid [simp]: "utf8_valid s \<Longrightarrow> utf8_lossy s = s"
proof (induction s rule: utf8_lossy.induct)
  case (2 a bs)
  obtain ok n where split: "lossy_split a bs = (ok, n)" by fastforce
  with "2.prems" have "ok" "utf8_valid (drop (n - 1) bs)" unfolding utf8_valid_step by simp_all
  moreover have "0 < n" using lossy_split_pos [of a bs] split by simp
  ultimately show ?case
    using "2.IH" [OF split [symmetric] refl] split by (cases n) auto
qed simp

lemma utf8_chars_concat: "concat (utf8_chars s) = s"
proof (induction s rule: utf8_chars.induct)
  case (2 a bs)
  then show ?case by (cases "max 1 (char_width a)") (simp_all add: Let_def)
qed simp

lemma utf8_valid_replacement [simp]: "utf8_valid ([0xEF, 0xBF, 0xBD] @ s) = utf8_valid s"
  by (simp add: utf8_cont_def)

end
