(* ===== verification/Levenshtein.thy ===== *)
theory Levenshtein
  imports Utf8
begin

text \<open>
  The bounded edit distance of \<^verbatim>\<open>src/index/fuzzy.rs\<close>: one row of the table at a time, with an
  early exit. The reference is the least number of single-character insertions, deletions and
  replacements that turn one text into the other. The lemmas relate the rows to a recursion and
  the recursion to sequences of edits.
\<close>

section \<open>Definitions\<close>

text \<open>The inner loop: \<open>left\<close> is the cell to the left, the list the previous row from the diagonal on.\<close>

fun lev_cells :: "'c \<Rightarrow> 'c list \<Rightarrow> nat \<Rightarrow> nat list \<Rightarrow> nat list" where
  "lev_cells x (y # ys) left (diag # up # prev) =
     (let c = min (min (up + 1) (left + 1)) (diag + (if x = y then 0 else 1))
      in c # lev_cells x ys c (up # prev))"
| "lev_cells x ys left prev = []"

fun lev_rows :: "nat \<Rightarrow> 'c list \<Rightarrow> nat \<Rightarrow> 'c list \<Rightarrow> nat list \<Rightarrow> nat" where
  "lev_rows max_dist bs i [] prev = prev ! length bs"
| "lev_rows max_dist bs i (x # xs) prev =
     (let cells = lev_cells x bs (i + 1) prev; row_min = fold min cells (i + 1)
      in if row_min > max_dist then max_dist + 1
         else lev_rows max_dist bs (i + 1) xs ((i + 1) # cells))"

definition levenshtein :: "str \<Rightarrow> str \<Rightarrow> nat \<Rightarrow> nat" where
  "levenshtein a0 b0 max_dist =
     (let (a, b) = (if length a0 > length b0 then (b0, a0) else (a0, b0))
      in if length b - length a > max_dist then max_dist + 1
         else (let a_chars = utf8_chars a; b_chars = utf8_chars b
               in lev_rows max_dist b_chars 0 a_chars [0..<length b_chars + 1]))"

section \<open>Edits\<close>

definition single_edit :: "'c list \<Rightarrow> 'c list \<Rightarrow> bool" where
  "single_edit s t =
     (\<exists>us vs x y. s = us @ x # vs \<and> t = us @ vs \<or> s = us @ vs \<and> t = us @ y # vs \<or> s = us @ x # vs \<and> t = us @ y # vs)"

definition edit_distance :: "'c list \<Rightarrow> 'c list \<Rightarrow> nat" where
  "edit_distance s t = (LEAST n. (single_edit ^^ n) s t)"

text \<open>The recursion behind the table.\<close>

fun lev :: "'c list \<Rightarrow> 'c list \<Rightarrow> nat" where
  "lev [] ys = length ys"
| "lev (x # xs) [] = length xs + 1"
| "lev (x # xs) (y # ys) =
     min (min (lev xs (y # ys) + 1) (lev (x # xs) ys + 1)) (lev xs ys + (if x = y then 0 else 1))"

lemma lev_Nil2 [simp]: "lev xs [] = length xs"
  by (cases xs) simp_all

lemma lev_sym: "lev xs ys = lev ys xs"
  by (induction xs ys rule: lev.induct) (auto simp: min.commute min.left_commute)

lemma lev_same [simp]: "lev xs xs = 0"
  by (induction xs) auto

text \<open>
  Alignments: pairing the characters of two texts from the left, each unpaired or unequal
  character counting one. The recursion finds a cheapest alignment.
\<close>

inductive aligned :: "nat \<Rightarrow> 'c list \<Rightarrow> 'c list \<Rightarrow> bool" where
  nothing: "aligned 0 [] []"
| drop_left: "aligned n xs ys \<Longrightarrow> aligned (n + 1) (x # xs) ys"
| drop_right: "aligned n xs ys \<Longrightarrow> aligned (n + 1) xs (y # ys)"
| pair: "aligned n xs ys \<Longrightarrow> aligned (n + (if x = y then 0 else 1)) (x # xs) (y # ys)"

lemma aligned_Nil: "aligned (length ys) [] ys" "aligned (length xs) xs []"
  by (induction ys, auto intro: aligned.intros, induction xs, auto intro: aligned.intros)
    (metis Suc_eq_plus1 aligned.drop_right aligned.drop_left)+

lemma lev_aligned: "aligned (lev xs ys) xs ys"
proof (induction xs ys rule: lev.induct)
  case (1 ys)
  show ?case by (simp add: aligned_Nil)
next
  case (2 x xs)
  show ?case using aligned_Nil(2) [of "x # xs"] by simp
next
  case (3 x xs y ys)
  have "lev (x # xs) (y # ys) \<in> {lev xs (y # ys) + 1, lev (x # xs) ys + 1, lev xs ys + (if x = y then 0 else 1)}"
    by (auto simp: min_def)
  moreover note aligned.drop_left [OF 3(1), of x] aligned.drop_right [OF 3(2), of y] aligned.pair [OF 3(3), of x y]
  ultimately show ?case by (auto simp only: insert_iff empty_iff)
qed

lemma lev_Cons_le:
  "lev (x # xs) ys \<le> lev xs ys + 1" "lev xs (y # ys) \<le> lev xs ys + 1"
  "lev (x # xs) (y # ys) \<le> lev xs ys + (if x = y then 0 else 1)"
proof -
  have "lev (x # xs) ys \<le> lev xs ys + 1" for x :: 'a and xs ys
    by (cases ys) auto
  from this [of x xs ys] this [of y ys xs] show "lev (x # xs) ys \<le> lev xs ys + 1" "lev xs (y # ys) \<le> lev xs ys + 1"
    by (simp_all only: lev_sym [of "y # ys"] lev_sym [of ys])
  show "lev (x # xs) (y # ys) \<le> lev xs ys + (if x = y then 0 else 1)" by simp
qed

lemma aligned_lev: "aligned n xs ys \<Longrightarrow> lev xs ys \<le> n"
proof (induction rule: aligned.induct)
  case (drop_left n xs ys x)
  then show ?case using lev_Cons_le(1) [of x xs ys] by linarith
next
  case (drop_right n xs ys y)
  then show ?case using lev_Cons_le(2) [of xs y ys] by linarith
next
  case (pair n xs ys x y)
  then show ?case using lev_Cons_le(3) [of x xs y ys] by linarith
qed simp

lemma single_edit_cases:
  assumes "single_edit s t"
  obtains (del) x where "s = x # t" | (ins) y where "t = y # s" | (sub) x y r where "s = x # r" "t = y # r"
  | (later) z s' t' where "s = z # s'" "t = z # t'" "single_edit s' t'"
proof -
  from assms obtain us vs x y where
    "s = us @ x # vs \<and> t = us @ vs \<or> s = us @ vs \<and> t = us @ y # vs \<or> s = us @ x # vs \<and> t = us @ y # vs"
    unfolding single_edit_def by blast
  then consider (d) "s = us @ x # vs" "t = us @ vs" | (i) "s = us @ vs" "t = us @ y # vs"
    | (r) "s = us @ x # vs" "t = us @ y # vs"
    by blast
  note e = this
  show thesis
  proof (cases us)
    case Nil
    with e del ins sub show ?thesis by (metis append_Nil)
  next
    case (Cons z ws)
    have "single_edit (ws @ x # vs) (ws @ vs)" "single_edit (ws @ vs) (ws @ y # vs)" "single_edit (ws @ x # vs) (ws @ y # vs)"
      unfolding single_edit_def by blast+
    with Cons e later show ?thesis by (metis append_Cons)
  qed
qed

lemma aligned_edit: "aligned n xs s \<Longrightarrow> single_edit s t \<Longrightarrow> \<exists>m \<le> n + 1. aligned m xs t"
proof (induction arbitrary: t rule: aligned.induct)
  case nothing
  then obtain y where "t = [y]" by (cases rule: single_edit_cases) auto
  then show ?case using aligned_Nil(1) [of t] by auto
next
  case (drop_left n xs ys x)
  then obtain m where "m \<le> n + 1" "aligned m xs t" by blast
  then show ?case using aligned.drop_left [of m xs t x] by (intro exI [of _ "m + 1"]) simp
next
  case (drop_right n xs ys y)
  from drop_right.prems show ?case
  proof (cases rule: single_edit_cases)
    case (del x)
    with drop_right show ?thesis by (intro exI [of _ n]) simp
  next
    case (ins z)
    with aligned.drop_right [OF aligned.drop_right [OF drop_right.hyps, of y], of z] show ?thesis
      by (intro exI [of _ "n + 1 + 1"]) simp
  next
    case (sub x z r)
    with aligned.drop_right [OF drop_right.hyps, of z] show ?thesis by (intro exI [of _ "n + 1"]) simp
  next
    case (later z s' t')
    with drop_right.IH [of t'] obtain m where "m \<le> n + 1" "aligned m xs t'" by auto
    with later aligned.drop_right [of m xs t' y] show ?thesis by (intro exI [of _ "m + 1"]) simp
  qed
next
  case (pair n xs ys x y)
  from pair.prems show ?case
  proof (cases rule: single_edit_cases)
    case (del z)
    with aligned.drop_left [OF pair.hyps, of x] show ?thesis by (intro exI [of _ "n + 1"]) simp
  next
    case (ins z)
    with aligned.drop_right [OF aligned.pair [OF pair.hyps, of x y], of z] show ?thesis by blast
  next
    case (sub u z r)
    with aligned.pair [OF pair.hyps, of x z] show ?thesis by (intro exI [of _ "n + (if x = z then 0 else 1)"]) auto
  next
    case (later z s' t')
    with pair.IH [of t'] obtain m where "m \<le> n + 1" "aligned m xs t'" by auto
    with later aligned.pair [of m xs t' x y] show ?thesis
      by (intro exI [of _ "m + (if x = y then 0 else 1)"]) auto
  qed
qed

lemma edits_aligned: "(single_edit ^^ n) xs ys \<Longrightarrow> \<exists>m \<le> n. aligned m xs ys"
proof (induction n arbitrary: ys)
  case 0
  then show ?case using lev_aligned [of xs xs] by simp
next
  case (Suc n)
  then obtain zs where "(single_edit ^^ n) xs zs" "single_edit zs ys" by auto
  with Suc.IH [of zs] obtain m where "m \<le> n" "aligned m xs zs" by blast
  with aligned_edit [of m xs zs ys] \<open>single_edit zs ys\<close> obtain k where "k \<le> m + 1" "aligned k xs ys" by blast
  with \<open>m \<le> n\<close> show ?case by (intro exI [of _ k]) simp
qed

lemma single_edit_Cons:
  "single_edit s t \<Longrightarrow> single_edit (z # s) (z # t)"
  unfolding single_edit_def by (metis append_Cons)

lemma edits_Cons: "(single_edit ^^ n) s t \<Longrightarrow> (single_edit ^^ n) (z # s) (z # t)"
  by (induction n arbitrary: t) (auto intro: single_edit_Cons)

lemma single_edit_head: "single_edit (x # s) s" "single_edit s (y # s)" "single_edit (x # s) (y # s)"
  unfolding single_edit_def by (metis append_Nil)+

lemma aligned_edits: "aligned n xs ys \<Longrightarrow> (single_edit ^^ n) xs ys"
proof (induction rule: aligned.induct)
  case (drop_left n xs ys x)
  then show ?case using single_edit_head(1) [of x xs] relpowp_Suc_I2 [of single_edit "x # xs" xs n ys] by simp
next
  case (drop_right n xs ys y)
  then show ?case using single_edit_head(2) [of ys y] by auto
next
  case (pair n xs ys x y)
  then show ?case using edits_Cons [OF pair.IH, of x] single_edit_head(3) [of x ys y] by auto
qed simp

lemma edit_distance_lev: "edit_distance xs ys = lev xs ys"
  unfolding edit_distance_def
proof (rule Least_equality)
  show "(single_edit ^^ lev xs ys) xs ys" by (rule aligned_edits [OF lev_aligned])
next
  fix n assume "(single_edit ^^ n) xs ys"
  then show "lev xs ys \<le> n" using edits_aligned aligned_lev le_trans by metis
qed

lemma single_edit_rev: "single_edit s t \<Longrightarrow> single_edit (rev s) (rev t)"
proof -
  assume "single_edit s t"
  then obtain us vs x y where
    "s = us @ x # vs \<and> t = us @ vs \<or> s = us @ vs \<and> t = us @ y # vs \<or> s = us @ x # vs \<and> t = us @ y # vs"
    unfolding single_edit_def by blast
  then have "rev s = rev vs @ x # rev us \<and> rev t = rev vs @ rev us \<or> rev s = rev vs @ rev us \<and> rev t = rev vs @ y # rev us
    \<or> rev s = rev vs @ x # rev us \<and> rev t = rev vs @ y # rev us"
    by auto
  then show ?thesis unfolding single_edit_def by blast
qed

lemma edits_rev: "(single_edit ^^ n) s t \<Longrightarrow> (single_edit ^^ n) (rev s) (rev t)"
  by (induction n arbitrary: t) (auto intro: single_edit_rev)

lemma edit_distance_rev: "edit_distance (rev xs) (rev ys) = edit_distance xs ys"
  unfolding edit_distance_def by (metis edits_rev rev_rev_ident)

section \<open>Rows of the table\<close>

text \<open>The row for the read prefix \<open>pa\<close>, from the column of the prefix \<open>pb\<close> on; prefixes are reversed.\<close>

fun lev_row :: "'c list \<Rightarrow> 'c list \<Rightarrow> 'c list \<Rightarrow> nat list" where
  "lev_row pa pb [] = [lev pa pb]"
| "lev_row pa pb (y # ys) = lev pa pb # lev_row pa (y # pb) ys"

lemma lev_row_hd: "lev_row pa pb ys = lev pa pb # tl (lev_row pa pb ys)"
  by (cases ys) simp_all

lemma lev_cells_row: "lev_cells x bs (lev (x # pa) pb) (lev_row pa pb bs) = tl (lev_row (x # pa) pb bs)"
proof (induction bs arbitrary: pb)
  case (Cons y ys)
  obtain r where r: "lev_row pa (y # pb) ys = lev pa (y # pb) # r" using lev_row_hd by blast
  have "lev_cells x (y # ys) (lev (x # pa) pb) (lev_row pa pb (y # ys)) =
      lev (x # pa) (y # pb) # lev_cells x ys (lev (x # pa) (y # pb)) (lev_row pa (y # pb) ys)"
    by (simp add: r Let_def)
  with Cons.IH [of "y # pb"] lev_row_hd [of "x # pa" "y # pb" ys] show ?case by simp
qed simp

lemma lev_row_length: "length (lev_row pa pb bs) = length bs + 1"
  by (induction bs arbitrary: pb) auto

lemma lev_row_last: "lev_row pa pb bs ! length bs = lev pa (rev bs @ pb)"
  by (induction bs arbitrary: pb) auto

lemma lev_row_init: "lev_row [] pb bs = [length pb ..< length pb + length bs + 1]"
proof (induction bs arbitrary: pb)
  case (Cons y ys)
  then show ?case using upt_conv_Cons [of "length pb" "length pb + length (y # ys) + 1"] by (simp del: upt_Suc)
qed simp

lemma lev_row_below: "\<forall>c \<in> set (lev_row pa pb bs). m < c \<Longrightarrow> m < lev (x # pa) pb \<Longrightarrow> c \<in> set (lev_row (x # pa) pb bs) \<Longrightarrow> m < c"
proof (induction bs arbitrary: pb)
  case (Cons y ys)
  from Cons.prems(1) have "m < lev pa pb" "m < lev pa (y # pb)"
    using list.set_intros(1) [of "lev pa (y # pb)" "tl (lev_row pa (y # pb) ys)"]
    by (simp_all add: lev_row_hd [symmetric])
  with Cons.prems(2) have "m < lev (x # pa) (y # pb)" by simp
  with Cons show ?case by auto
qed simp

lemma lev_row_exit: "\<forall>c \<in> set (lev_row pa [] bs). m < c \<Longrightarrow> m < lev (xs @ pa) (rev bs)"
proof -
  assume "\<forall>c \<in> set (lev_row pa [] bs). m < c"
  then have "\<forall>c \<in> set (lev_row (xs @ pa) [] bs). m < c"
  proof (induction xs)
    case (Cons x xs)
    then have row: "\<forall>c \<in> set (lev_row (xs @ pa) [] bs). m < c" by simp
    moreover have "m < length (xs @ pa)" using row lev_row_hd [of "xs @ pa" "[]" bs] by (metis list.set_intros(1) lev_Nil2)
    ultimately show ?case using lev_row_below [of "xs @ pa" "[]" bs m x] by simp
  qed simp
  moreover have "lev (xs @ pa) (rev bs) \<in> set (lev_row (xs @ pa) [] bs)"
    using lev_row_last [of "xs @ pa" "[]" bs] nth_mem [of "length bs" "lev_row (xs @ pa) [] bs"]
    by (simp add: lev_row_length)
  ultimately show ?thesis by blast
qed

lemma fold_min_less: "(m :: nat) < fold min cs c \<longleftrightarrow> m < c \<and> (\<forall>d \<in> set cs. m < d)"
  by (induction cs arbitrary: c) auto

lemma lev_rows_lev:
  "min (lev_rows m bs (length pa) as (lev_row pa [] bs)) (Suc m) = min (lev (rev as @ pa) (rev bs)) (Suc m)"
proof (induction as arbitrary: pa)
  case Nil
  show ?case by (simp add: lev_row_last)
next
  case (Cons x xs)
  have cells: "lev_cells x bs (length pa + 1) (lev_row pa [] bs) = tl (lev_row (x # pa) [] bs)"
    using lev_cells_row [of x bs pa "[]"] by simp
  have row: "(length pa + 1) # tl (lev_row (x # pa) [] bs) = lev_row (x # pa) [] bs"
    using lev_row_hd [of "x # pa" "[]" bs] by simp
  show ?case
  proof (cases "\<forall>c \<in> set (lev_row (x # pa) [] bs). m < c")
    case True
    then have "m < fold min (tl (lev_row (x # pa) [] bs)) (length pa + 1)"
      by (subst (asm) row [symmetric]) (simp add: fold_min_less)
    with lev_row_exit [OF True, of "rev xs"] cells show ?thesis by (simp add: Let_def)
  next
    case False
    then have "\<not> m < fold min (tl (lev_row (x # pa) [] bs)) (length pa + 1)"
      by (subst (asm) row [symmetric]) (simp add: fold_min_less)
    with cells row Cons.IH [of "x # pa"] show ?thesis by (simp add: Let_def)
  qed
qed

lemma lev_rows_exact:
  "min (lev_rows m bs 0 as [0 ..< length bs + 1]) (Suc m) = min (edit_distance as bs) (Suc m)"
  using lev_rows_lev [of m bs "[]" as] lev_row_init [of "[]" bs] edit_distance_rev [of as bs]
  by (simp add: edit_distance_lev del: upt_Suc)

lemma edit_distance_sym: "edit_distance xs ys = edit_distance ys xs"
  by (simp add: edit_distance_lev lev_sym)

section \<open>Correctness\<close>

text \<open>
  (C14) Up to the cut-off one above \<open>max_dist\<close>, the distance returned is the least number of
  single-character insertions, deletions and replacements that turn one text into the other, unless
  the byte lengths differ by more than \<open>max_dist\<close>: then the call answers \<open>max_dist + 1\<close> at once. The early
  exit on a row whose minimum is above \<open>max_dist\<close> loses no text within reach.
\<close>

theorem levenshtein_exact:
  "min (levenshtein a b m) (Suc m) =
     (if m < length a - length b \<or> m < length b - length a then Suc m
      else min (edit_distance (utf8_chars a) (utf8_chars b)) (Suc m))"
  unfolding levenshtein_def Let_def
  using lev_rows_exact [of m "utf8_chars b" "utf8_chars a"] lev_rows_exact [of m "utf8_chars a" "utf8_chars b"]
  by (auto simp: edit_distance_sym [of "utf8_chars b"] simp del: upt_Suc)

end
