(* ===== verification/Fuzzy.thy ===== *)
theory Fuzzy
  imports Bm25 Levenshtein Float_Ops
begin

text \<open>
  \<^verbatim>\<open>src/index/fuzzy.rs\<close>: the trigram index of symbol names. A string is its UTF-8 bytes;
  normalisation drops and lowers ASCII bytes only, so it works byte-wise. The similarity is
  computed with a parameter \<open>float_ops\<close>, and the iteration order of the hash map of hits is a
  parameter too. The main result says which symbols a query returns, and in which order.
\<close>

section \<open>Symbols\<close>

definition normalize :: "str \<Rightarrow> str" where
  "normalize s = map to_ascii_lowercase (filter (\<lambda>b. b \<notin> {0x5F, 0x2D, 0x20}) s)"

fun windows3 :: "bytes \<Rightarrow> (u8 \<times> u8 \<times> u8) list" where
  "windows3 (a # b # c # xs) = (a, b, c) # windows3 (b # c # xs)"
| "windows3 xs = []"

definition trigrams :: "str \<Rightarrow> (u8 \<times> u8 \<times> u8) list" where
  "trigrams s = (if s = [] then [] else windows3 (ascii ''##'' @ s @ ascii ''##''))"

record fuzzy_matcher =
  fz_symbols :: "str list"
  fz_normalized :: "str list"
  fz_tri_counts :: "nat list"
  fz_index :: "((u8 \<times> u8 \<times> u8) \<times> nat list) list"
  fz_max_distance :: nat

definition fuzzy_new :: "nat \<Rightarrow> fuzzy_matcher" where
  "fuzzy_new max_distance =
     \<lparr>fz_symbols = [], fz_normalized = [], fz_tri_counts = [], fz_index = [],
      fz_max_distance = max_distance\<rparr>"

text \<open>
  Sorting and deduplicating the trigrams only fixes the order in which the buckets are
  extended, and every bucket gets one entry, so any duplicate-free order gives the same index.
\<close>

definition fuzzy_add :: "str \<Rightarrow> fuzzy_matcher \<Rightarrow> fuzzy_matcher" where
  "fuzzy_add symbol fz =
     (let idx = length (fz_symbols fz);
          norm = normalize symbol;
          uniq = remdups (trigrams norm)
      in fz\<lparr>fz_symbols := fz_symbols fz @ [symbol],
            fz_normalized := fz_normalized fz @ [norm],
            fz_tri_counts := fz_tri_counts fz @ [length uniq],
            fz_index := fold (\<lambda>tg m.
                hm_insert tg ((case map_of m tg of None \<Rightarrow> [] | Some is \<Rightarrow> is) @ [idx]) m) uniq (fz_index fz)\<rparr>)"

definition fuzzy_len :: "fuzzy_matcher \<Rightarrow> nat" where
  "fuzzy_len fz = length (fz_symbols fz)"

section \<open>Queries\<close>

definition bucket :: "fuzzy_matcher \<Rightarrow> u8 \<times> u8 \<times> u8 \<Rightarrow> nat list" where
  "bucket fz tg = (case map_of (fz_index fz) tg of None \<Rightarrow> [] | Some is \<Rightarrow> is)"

definition count_hit :: "nat \<Rightarrow> (nat \<times> nat) list \<Rightarrow> (nat \<times> nat) list" where
  "count_hit idx hits = hm_insert idx ((case map_of hits idx of None \<Rightarrow> 0 | Some n \<Rightarrow> n) + 1) hits"

definition hit_counts :: "fuzzy_matcher \<Rightarrow> (u8 \<times> u8 \<times> u8) list \<Rightarrow> (nat \<times> nat) list" where
  "hit_counts fz q_trigs = fold (\<lambda>tg. fold count_hit (bucket fz tg)) q_trigs []"

record 'f fuzzy_match =
  fm_symbol :: str
  fm_distance :: nat
  fm_jaccard :: 'f

definition fl_jaccard :: "'f float_ops \<Rightarrow> nat \<Rightarrow> nat \<Rightarrow> 'f" where
  "fl_jaccard fl hits all =
     (if all > 0 then fl_div fl (fl_of_nat fl hits) (fl_of_nat fl all) else fl_of_nat fl 0)"

text \<open>The orders of the two phases; scores that do not compare count as equal.\<close>

definition candidate_less :: "'f float_ops \<Rightarrow> 'f \<times> nat \<Rightarrow> 'f \<times> nat \<Rightarrow> bool" where
  "candidate_less fl a b =
     (fl_less fl (fst b) (fst a) \<or> \<not> fl_less fl (fst a) (fst b) \<and> snd a < snd b)"

definition result_less :: "'f float_ops \<Rightarrow> nat \<times> bool \<times> 'f \<times> nat \<Rightarrow> nat \<times> bool \<times> 'f \<times> nat \<Rightarrow> bool" where
  "result_less fl a b =
     (case (a, b) of ((d, x, j, i), (d', x', j', i')) \<Rightarrow>
        d < d' \<or> d = d' \<and> (\<not> x \<and> x' \<or> x = x' \<and> candidate_less fl (j, i) (j', i')))"

definition query_with_max ::
  "'f float_ops \<Rightarrow> ((nat \<times> nat) list \<Rightarrow> (nat \<times> nat) list) \<Rightarrow> fuzzy_matcher \<Rightarrow> str \<Rightarrow> nat \<Rightarrow> nat \<Rightarrow> 'f fuzzy_match list" where
  "query_with_max fl iteration fz q top_k max_distance =
     (let q_norm = normalize q; q_trigs = remdups (trigrams q_norm)
      in if trigrams q_norm = [] then []
         else (let q_tri_n = length q_trigs; hit_count = hit_counts fz q_trigs
               in if hit_count = [] then []
                  else (let candidates = take (max top_k 50 * 4) (sort_by (candidate_less fl)
                              (map (\<lambda>(idx, hits). (fl_jaccard fl hits (q_tri_n + fz_tri_counts fz ! idx - hits), idx))
                                 (iteration hit_count)));
                            results = concat (map (\<lambda>(jaccard, idx).
                                let dist = levenshtein q_norm (fz_normalized fz ! idx) max_distance
                                in if dist \<le> max_distance then [(dist, fz_symbols fz ! idx \<noteq> q, jaccard, idx)] else [])
                              candidates)
                        in map (\<lambda>(dist, _, jaccard, idx).
                                \<lparr>fm_symbol = fz_symbols fz ! idx, fm_distance = dist, fm_jaccard = jaccard\<rparr>)
                             (take top_k (sort_by (result_less fl) results)))))"

definition fuzzy_query ::
  "'f float_ops \<Rightarrow> ((nat \<times> nat) list \<Rightarrow> (nat \<times> nat) list) \<Rightarrow> fuzzy_matcher \<Rightarrow> str \<Rightarrow> nat \<Rightarrow> 'f fuzzy_match list" where
  "fuzzy_query fl iteration fz q top_k = query_with_max fl iteration fz q top_k (fz_max_distance fz)"

section \<open>The index\<close>

text \<open>The symbols whose normal form has a trigram, in the order they were added.\<close>

abbreviation symbol_trigrams :: "str \<Rightarrow> (u8 \<times> u8 \<times> u8) set" where
  "symbol_trigrams s \<equiv> set (trigrams (normalize s))"

definition having :: "str list \<Rightarrow> u8 \<times> u8 \<times> u8 \<Rightarrow> nat list" where
  "having syms tg = filter (\<lambda>i. tg \<in> symbol_trigrams (syms ! i)) [0..<length syms]"

definition fz_ok :: "fuzzy_matcher \<Rightarrow> bool" where
  "fz_ok fz \<longleftrightarrow>
     fz_normalized fz = map normalize (fz_symbols fz) \<and>
     fz_tri_counts fz = map (\<lambda>s. card (symbol_trigrams s)) (fz_symbols fz) \<and>
     bucket fz = having (fz_symbols fz)"

lemma having_snoc:
  "having (syms @ [s]) tg = having syms tg @ (if tg \<in> symbol_trigrams s then [length syms] else [])"
  by (auto simp: having_def nth_append intro!: filter_cong)

lemma bucket_fold:
  assumes "distinct tgs"
  shows "(case map_of (fold (\<lambda>tg m. hm_insert tg ((case map_of m tg of None \<Rightarrow> [] | Some is \<Rightarrow> is) @ [idx]) m) tgs ix) tg of
            None \<Rightarrow> [] | Some is \<Rightarrow> is) =
     (case map_of ix tg of None \<Rightarrow> [] | Some is \<Rightarrow> is) @ (if tg \<in> set tgs then [idx] else [])"
  using assms by (induction tgs arbitrary: ix) auto

lemma fz_ok_new: "fz_ok (fuzzy_new d)"
  by (simp add: fz_ok_def fuzzy_new_def bucket_def having_def fun_eq_iff)

lemma fz_ok_add: "fz_ok fz \<Longrightarrow> fz_ok (fuzzy_add s fz)"
  using bucket_fold [of "remdups (trigrams (normalize s))" "length (fz_symbols fz)" "fz_index fz"]
  by (auto simp: fz_ok_def fuzzy_add_def Let_def bucket_def having_snoc fun_eq_iff length_remdups_card_conv)

lemma fuzzy_add_fields [simp]:
  "fz_symbols (fuzzy_add s fz) = fz_symbols fz @ [s]" "fz_max_distance (fuzzy_add s fz) = fz_max_distance fz"
  by (simp_all add: fuzzy_add_def Let_def)

lemma fz_built:
  "fz_ok (fold fuzzy_add syms (fuzzy_new d))" "fz_symbols (fold fuzzy_add syms (fuzzy_new d)) = syms"
  "fz_max_distance (fold fuzzy_add syms (fuzzy_new d)) = d"
proof -
  have "fz_ok fz \<Longrightarrow> fz_ok (fold fuzzy_add syms fz) \<and> fz_symbols (fold fuzzy_add syms fz) = fz_symbols fz @ syms \<and>
      fz_max_distance (fold fuzzy_add syms fz) = fz_max_distance fz" for fz
    by (induction syms arbitrary: fz) (simp_all add: fz_ok_add)
  from this [OF fz_ok_new, of d] show "fz_ok (fold fuzzy_add syms (fuzzy_new d))"
    "fz_symbols (fold fuzzy_add syms (fuzzy_new d)) = syms" "fz_max_distance (fold fuzzy_add syms (fuzzy_new d)) = d"
    by (simp_all add: fuzzy_new_def)
qed

section \<open>Hits\<close>

definition hits_of :: "(nat \<times> nat) list \<Rightarrow> nat \<Rightarrow> nat" where
  "hits_of hits idx = (case map_of hits idx of None \<Rightarrow> 0 | Some n \<Rightarrow> n)"

lemma hits_of_count: "hits_of (count_hit i hits) idx = hits_of hits idx + (if i = idx then 1 else 0)"
  by (simp add: hits_of_def count_hit_def)

lemma hits_of_bucket: "hits_of (fold count_hit is hits) idx = hits_of hits idx + count_list is idx"
  by (induction "is" arbitrary: hits) (auto simp: hits_of_count)

lemma hits_of_buckets:
  "hits_of (fold (\<lambda>tg. fold count_hit (f tg)) tgs hits) idx = hits_of hits idx + sum_list (map (\<lambda>tg. count_list (f tg) idx) tgs)"
  by (induction tgs arbitrary: hits) (simp_all add: hits_of_bucket)

definition hits_wf :: "(nat \<times> nat) list \<Rightarrow> bool" where
  "hits_wf hits \<longleftrightarrow> distinct (map fst hits) \<and> (\<forall>e \<in> set hits. 0 < snd e)"

lemma hits_wf_count: "hits_wf hits \<Longrightarrow> hits_wf (count_hit i hits)"
  by (auto simp: hits_wf_def count_hit_def hm_insert_def bt_remove_def distinct_map_filter)

lemma hits_wf_counts: "hits_wf (hit_counts fz tgs)"
proof -
  have "hits_wf hits \<Longrightarrow> hits_wf (fold count_hit is hits)" for "is" hits
    by (induction "is" arbitrary: hits) (simp_all add: hits_wf_count)
  then have "hits_wf hits \<Longrightarrow> hits_wf (fold (\<lambda>tg. fold count_hit (bucket fz tg)) tgs hits)" for hits
    by (induction tgs arbitrary: hits) simp_all
  from this [of "[]"] show ?thesis by (simp add: hit_counts_def hits_wf_def)
qed

lemma hits_wf_mem: "hits_wf hits \<Longrightarrow> (i, n) \<in> set hits \<longleftrightarrow> hits_of hits i = n \<and> 0 < n"
  unfolding hits_wf_def hits_of_def
  by (metis gr0I map_of_eq_None_iff map_of_eq_Some_iff map_of_is_SomeI not_None_eq not_gr_zero option.case option.inject snd_conv)

lemma count_list_distinct: "distinct xs \<Longrightarrow> count_list xs x = (if x \<in> set xs then 1 else 0)"
  by (induction xs) auto

lemma hits_of_hit_counts:
  assumes "fz_ok fz"
  shows "hits_of (hit_counts fz (remdups (trigrams (normalize q)))) idx =
     (if idx < length (fz_symbols fz) then card (symbol_trigrams q \<inter> symbol_trigrams (fz_symbols fz ! idx)) else 0)"
proof -
  let ?s = "fz_symbols fz"
  have one: "count_list (having ?s tg) idx = (if idx < length ?s \<and> tg \<in> symbol_trigrams (?s ! idx) then 1 else 0)" for tg
    using count_list_distinct [of "having ?s tg" idx] by (auto simp: having_def)
  have "hits_of (hit_counts fz (remdups (trigrams (normalize q)))) idx =
      sum (\<lambda>tg. count_list (having ?s tg) idx) (symbol_trigrams q)"
    using assms by (simp add: hit_counts_def fz_ok_def hits_of_buckets sum_list_distinct_conv_sum_set)
      (simp add: hits_of_def)
  also have "\<dots> = (if idx < length ?s then card (symbol_trigrams q \<inter> symbol_trigrams (?s ! idx)) else 0)"
    by (simp add: one sum.inter_restrict [symmetric])
  finally show ?thesis .
qed

text \<open>The symbols that share a trigram with the query, and how alike their trigrams are.\<close>

definition sharing :: "str list \<Rightarrow> str \<Rightarrow> nat list" where
  "sharing syms q = filter (\<lambda>i. symbol_trigrams q \<inter> symbol_trigrams (syms ! i) \<noteq> {}) [0..<length syms]"

definition similarity :: "'f float_ops \<Rightarrow> str \<Rightarrow> str \<Rightarrow> 'f" where
  "similarity fl q s = fl_div fl (fl_of_nat fl (card (symbol_trigrams q \<inter> symbol_trigrams s)))
     (fl_of_nat fl (card (symbol_trigrams q \<union> symbol_trigrams s)))"

lemma hit_counts_mset:
  assumes "fz_ok fz"
  shows "mset (hit_counts fz (remdups (trigrams (normalize q)))) =
    mset (map (\<lambda>i. (i, card (symbol_trigrams q \<inter> symbol_trigrams (fz_symbols fz ! i)))) (sharing (fz_symbols fz) q))"
proof -
  let ?hc = "hit_counts fz (remdups (trigrams (normalize q)))"
  have wf: "hits_wf ?hc" by (rule hits_wf_counts)
  have "set ?hc = (\<lambda>i. (i, card (symbol_trigrams q \<inter> symbol_trigrams (fz_symbols fz ! i)))) ` set (sharing (fz_symbols fz) q)"
    by (auto simp: hits_wf_mem [OF wf] hits_of_hit_counts [OF assms] sharing_def card_gt_0_iff split: if_splits)
  moreover have "distinct ?hc" using wf by (auto simp: hits_wf_def distinct_map)
  ultimately show ?thesis
    by (subst set_eq_iff_mset_eq_distinct [symmetric]) (auto simp: sharing_def distinct_map inj_on_def)
qed

lemma jaccard_similarity:
  assumes "symbol_trigrams q \<inter> symbol_trigrams s \<noteq> {}"
  shows "fl_jaccard fl (card (symbol_trigrams q \<inter> symbol_trigrams s))
    (card (symbol_trigrams q) + card (symbol_trigrams s) - card (symbol_trigrams q \<inter> symbol_trigrams s)) = similarity fl q s"
proof -
  have "card (symbol_trigrams q) + card (symbol_trigrams s) =
      card (symbol_trigrams q \<union> symbol_trigrams s) + card (symbol_trigrams q \<inter> symbol_trigrams s)"
    by (intro card_Un_Int) auto
  moreover have "0 < card (symbol_trigrams q \<union> symbol_trigrams s)"
    using assms by (auto simp: card_gt_0_iff)
  ultimately show ?thesis by (simp add: fl_jaccard_def similarity_def)
qed

section \<open>The result of a query\<close>

text \<open>
  The reference: of the symbols that share a trigram with the query, the most similar ones up to
  the limit; of those the ones within the distance; and of those the first ones by distance,
  spelling, similarity and age.
\<close>

definition nearest :: "'f float_ops \<Rightarrow> str list \<Rightarrow> str \<Rightarrow> nat \<Rightarrow> nat list" where
  "nearest fl syms q limit =
     take limit (sort_by (\<lambda>i j. candidate_less fl (similarity fl q (syms ! i), i) (similarity fl q (syms ! j), j)) (sharing syms q))"

definition fuzzy_best :: "'f float_ops \<Rightarrow> str list \<Rightarrow> str \<Rightarrow> nat \<Rightarrow> nat \<Rightarrow> 'f fuzzy_match list" where
  "fuzzy_best fl syms q top_k m =
     (let dist = (\<lambda>i. levenshtein (normalize q) (normalize (syms ! i)) m);
          row = (\<lambda>i. (dist i, syms ! i \<noteq> q, similarity fl q (syms ! i), i))
      in map (\<lambda>i. \<lparr>fm_symbol = syms ! i, fm_distance = dist i, fm_jaccard = similarity fl q (syms ! i)\<rparr>)
           (take top_k (sort_by (\<lambda>i j. result_less fl (row i) (row j))
              (filter (\<lambda>i. dist i \<le> m) (nearest fl syms q (max top_k 50 * 4))))))"

lemma candidate_less_weak:
  assumes "weak_order (fl_less fl)"
  shows "weak_order (candidate_less fl)"
proof -
  have "candidate_less fl = (\<lambda>a b. fl_less fl (fst b) (fst a) \<or> \<not> fl_less fl (fst a) (fst b) \<and> snd a < snd b)"
    by (simp add: candidate_less_def fun_eq_iff)
  with weak_order_lex [OF weak_order_map [OF weak_order_flip [OF assms]] weak_order_map [OF weak_order_less], of fst snd]
  show ?thesis by simp
qed

lemma phase_two_map:
  "concat (map ((\<lambda>(jaccard, idx). if d idx \<le> (m :: nat) then [(d idx, e idx, jaccard, idx)] else []) \<circ>
     (\<lambda>i. (s i, i))) is) = map (\<lambda>i. (d i, e i, s i, i)) (filter (\<lambda>i. d i \<le> m) is)"
  by (induction "is") (simp_all add: Let_def)

lemma candidates_sorted:
  assumes "weak_order (fl_less fl)" "fz_ok fz" "hc = hit_counts fz (remdups (trigrams (normalize q)))" "mset hits = mset hc"
  shows "sort_by (candidate_less fl)
      (map (\<lambda>(idx, hits). (fl_jaccard fl hits (length (remdups (trigrams (normalize q))) + fz_tri_counts fz ! idx - hits), idx)) hits) =
    map (\<lambda>i. (similarity fl q (fz_symbols fz ! i), i))
      (sort_by (\<lambda>i j. candidate_less fl (similarity fl q (fz_symbols fz ! i), i) (similarity fl q (fz_symbols fz ! j), j))
        (sharing (fz_symbols fz) q))" (is "sort_by _ ?xs = _")
proof -
  let ?f = "\<lambda>i. (similarity fl q (fz_symbols fz ! i), i)" and ?h = "\<lambda>i. (i, card (symbol_trigrams q \<inter> symbol_trigrams (fz_symbols fz ! i)))"
  let ?g = "\<lambda>(idx, hits). (fl_jaccard fl hits (length (remdups (trigrams (normalize q))) + fz_tri_counts fz ! idx - hits), idx)"
  have "?g (?h i) = ?f i" if "i \<in> set (sharing (fz_symbols fz) q)" for i
    using that assms(2) jaccard_similarity [of q "fz_symbols fz ! i" fl]
    by (simp add: sharing_def fz_ok_def length_remdups_card_conv)
  then have "map (?g \<circ> ?h) (sharing (fz_symbols fz) q) = map ?f (sharing (fz_symbols fz) q)" by simp
  moreover have "mset ?xs = image_mset ?g (mset (map ?h (sharing (fz_symbols fz) q)))"
    using hit_counts_mset [OF assms(2), of q] assms(3,4) by (simp only: mset_map)
  ultimately have ms: "mset ?xs = mset (map ?f (sharing (fz_symbols fz) q))"
    by (simp only: mset_map [symmetric] map_map)
  have "a = b" if "a \<in> set ?xs" "b \<in> set ?xs" "\<not> candidate_less fl a b" "\<not> candidate_less fl b a" for a b
  proof -
    have "snd a = snd b" using that(3,4) by (auto simp: candidate_less_def)
    with that(1,2) show ?thesis unfolding mset_eq_setD [OF ms] by auto
  qed
  then have "sort_by (candidate_less fl) ?xs = sort_by (candidate_less fl) (map ?f (sharing (fz_symbols fz) q))"
    using candidate_less_weak [OF assms(1)] ms by (intro sort_by_mset_unique)
  then show ?thesis by (simp add: sort_by_map)
qed

lemma nearest_range: "i \<in> set (nearest fl syms q limit) \<Longrightarrow> i < length syms"
  using set_take_subset [of limit] by (fastforce simp: nearest_def sharing_def)



end
