(* ===== verification/Graph.thy ===== *)
theory Graph
  imports Uldb_Prelude
begin

text \<open>
  \<^verbatim>\<open>src/index/graph.rs\<close>: the relation graph, with its dynamic adjacency lists, the
  compressed sparse rows built from them, the traversals and the file format. Node indices and
  counters in memory are natural numbers, those of the file format 32-bit words. The check that
  node keys of a file are valid UTF-8 is that of the prelude.
\<close>

section \<open>Construction\<close>

datatype relation = Imports | Calls | Inherits | Tests | Defines

definition relation_from_str :: "str \<Rightarrow> relation option" where
  "relation_from_str s =
     (if s = ascii ''imports'' then Some Imports
      else if s = ascii ''calls'' then Some Calls
      else if s = ascii ''inherits'' then Some Inherits
      else if s = ascii ''tests'' then Some Tests
      else if s = ascii ''defines'' then Some Defines
      else None)"

fun relation_as_str :: "relation \<Rightarrow> str" where
  "relation_as_str Imports = ascii ''imports''"
| "relation_as_str Calls = ascii ''calls''"
| "relation_as_str Inherits = ascii ''inherits''"
| "relation_as_str Tests = ascii ''tests''"
| "relation_as_str Defines = ascii ''defines''"

type_synonym edge = "nat \<times> relation" \<comment> \<open>target and label\<close>

record relation_graph =
  rg_key_to_idx :: "(str \<times> nat) list"
  rg_idx_to_key :: "str list"
  rg_fwd_adj :: "edge list list"
  rg_bwd_adj :: "edge list list"
  rg_fwd_ptr :: "nat list"
  rg_fwd_dst :: "nat list"
  rg_fwd_rel :: "relation list"
  rg_bwd_ptr :: "nat list"
  rg_bwd_dst :: "nat list"
  rg_bwd_rel :: "relation list"
  rg_built :: bool
  rg_edge_count :: nat

definition graph_new :: relation_graph where
  "graph_new =
     \<lparr>rg_key_to_idx = [], rg_idx_to_key = [], rg_fwd_adj = [], rg_bwd_adj = [],
      rg_fwd_ptr = [], rg_fwd_dst = [], rg_fwd_rel = [], rg_bwd_ptr = [], rg_bwd_dst = [], rg_bwd_rel = [],
      rg_built = False, rg_edge_count = 0\<rparr>"

definition add_node :: "str \<Rightarrow> relation_graph \<Rightarrow> nat \<times> relation_graph" where
  "add_node key g =
     (case map_of (rg_key_to_idx g) key of
        Some idx \<Rightarrow> (idx, g)
      | None \<Rightarrow>
          (let idx = length (rg_idx_to_key g)
           in (idx, g\<lparr>rg_key_to_idx := hm_insert key idx (rg_key_to_idx g),
                      rg_idx_to_key := rg_idx_to_key g @ [key],
                      rg_fwd_adj := rg_fwd_adj g @ [[]],
                      rg_bwd_adj := rg_bwd_adj g @ [[]],
                      rg_built := False\<rparr>)))"

definition push_at :: "nat \<Rightarrow> 'a \<Rightarrow> 'a list list \<Rightarrow> 'a list list" where
  "push_at i x xss = xss[i := xss ! i @ [x]]"

definition add_edge :: "str \<Rightarrow> str \<Rightarrow> relation \<Rightarrow> relation_graph \<Rightarrow> relation_graph" where
  "add_edge src dst relation g =
     (let (s, g1) = add_node src g; (d, g2) = add_node dst g1
      in g2\<lparr>rg_fwd_adj := push_at s (d, relation) (rg_fwd_adj g2),
            rg_bwd_adj := push_at d (s, relation) (rg_bwd_adj g2),
            rg_edge_count := rg_edge_count g2 + 1,
            rg_built := False\<rparr>)"

text \<open>One direction of \<^verbatim>\<open>build\<close>: the row offsets, the targets and the labels.\<close>

fun csr_ptr :: "nat \<Rightarrow> edge list list \<Rightarrow> nat list" where
  "csr_ptr offset [] = [offset]"
| "csr_ptr offset (es # adj) = offset # csr_ptr (offset + length es) adj"

definition graph_build :: "relation_graph \<Rightarrow> relation_graph" where
  "graph_build g =
     g\<lparr>rg_fwd_ptr := csr_ptr 0 (rg_fwd_adj g),
       rg_fwd_dst := map fst (concat (rg_fwd_adj g)),
       rg_fwd_rel := map snd (concat (rg_fwd_adj g)),
       rg_bwd_ptr := csr_ptr 0 (rg_bwd_adj g),
       rg_bwd_dst := map fst (concat (rg_bwd_adj g)),
       rg_bwd_rel := map snd (concat (rg_bwd_adj g)),
       rg_built := True\<rparr>"

definition ensure_built :: "relation_graph \<Rightarrow> relation_graph" where
  "ensure_built g = (if rg_built g then g else graph_build g)"

section \<open>Queries\<close>

definition csr_of :: "str \<Rightarrow> relation_graph \<Rightarrow> nat list \<times> nat list \<times> relation list" where
  "csr_of direction g =
     (if direction = ascii ''backward'' then (rg_bwd_ptr g, rg_bwd_dst g, rg_bwd_rel g)
      else (rg_fwd_ptr g, rg_fwd_dst g, rg_fwd_rel g))"

text \<open>The edges of a row that pass the label filter.\<close>

definition csr_row :: "nat list \<times> nat list \<times> relation list \<Rightarrow> relation option \<Rightarrow> nat \<Rightarrow> edge list" where
  "csr_row csr flt node =
     (case csr of (ptr, dst, rel) \<Rightarrow>
        filter (\<lambda>(d, r). case flt of None \<Rightarrow> True | Some f \<Rightarrow> r = f)
          (map (\<lambda>i. (dst ! i, rel ! i)) [ptr ! node..<ptr ! (node + 1)]))"

definition neighbours ::
  "str \<Rightarrow> str \<Rightarrow> relation option \<Rightarrow> relation_graph \<Rightarrow> (str \<times> relation) list \<times> relation_graph" where
  "neighbours key direction flt g =
     (let g1 = ensure_built g
      in case map_of (rg_key_to_idx g1) key of
           None \<Rightarrow> ([], g1)
         | Some idx \<Rightarrow>
             (map (\<lambda>(d, r). (rg_idx_to_key g1 ! d, r)) (csr_row (csr_of direction g1) flt idx), g1))"

section \<open>Persistence\<close>

fun relation_tag :: "relation \<Rightarrow> u8" where
  "relation_tag Imports = 1"
| "relation_tag Calls = 2"
| "relation_tag Inherits = 3"
| "relation_tag Tests = 4"
| "relation_tag Defines = 5"

definition relation_of_tag :: "u8 \<Rightarrow> relation option" where
  "relation_of_tag b =
     (if b = 1 then Some Imports else if b = 2 then Some Calls else if b = 3 then Some Inherits
      else if b = 4 then Some Tests else if b = 5 then Some Defines else None)"

definition node_bytes :: "str \<Rightarrow> bytes" where
  "node_bytes key = to_be 4 (of_nat (length key) :: u32) @ key"

definition edge_bytes :: "nat \<times> nat \<times> relation \<Rightarrow> bytes" where
  "edge_bytes e =
     (case e of (s, d, r) \<Rightarrow> to_be 4 (of_nat s :: u32) @ to_be 4 (of_nat d :: u32) @ [relation_tag r])"

definition fwd_edges :: "relation_graph \<Rightarrow> (nat \<times> nat \<times> relation) list" where
  "fwd_edges g = concat (map (\<lambda>(s, es). map (\<lambda>(d, r). (s, d, r)) es) (enumerate 0 (rg_fwd_adj g)))"

definition graph_serialize :: "relation_graph \<Rightarrow> bytes" where
  "graph_serialize g =
     ascii ''GRPH'' @ to_be 4 (of_nat (length (rg_idx_to_key g)) :: u32) @
     concat (map node_bytes (rg_idx_to_key g)) @
     to_be 4 (of_nat (rg_edge_count g) :: u32) @ concat (map edge_bytes (fwd_edges g))"

datatype graph_error =
    Bad_Graph_Magic
  | Eof_Reading_U32
  | Eof_Reading_Key
  | Invalid_Utf8
  | Eof_Reading_Tag
  | Unknown_Tag u8

text \<open>The cursor is the bytes not yet read.\<close>

definition read_u32 :: "bytes \<Rightarrow> graph_error + nat \<times> bytes" where
  "read_u32 r = (if length r < 4 then Inl Eof_Reading_U32
                 else Inr (unat (from_be (take 4 r) :: u32), drop 4 r))"

fun read_nodes :: "nat \<Rightarrow> bytes \<Rightarrow> graph_error + str list \<times> bytes" where
  "read_nodes 0 r = Inr ([], r)"
| "read_nodes (Suc n) r =
     (case read_u32 r of
        Inl e \<Rightarrow> Inl e
      | Inr (key_len, r1) \<Rightarrow>
          if length r1 < key_len then Inl Eof_Reading_Key
          else if \<not> utf8_valid (take key_len r1) then Inl Invalid_Utf8
          else (case read_nodes n (drop key_len r1) of
                  Inl e \<Rightarrow> Inl e
                | Inr (keys, r2) \<Rightarrow> Inr (take key_len r1 # keys, r2)))"

fun read_edges :: "nat \<Rightarrow> bytes \<Rightarrow> graph_error + (nat \<times> nat \<times> relation) list" where
  "read_edges 0 r = Inr []"
| "read_edges (Suc n) r =
     (case read_u32 r of
        Inl e \<Rightarrow> Inl e
      | Inr (s, r1) \<Rightarrow>
          (case read_u32 r1 of
             Inl e \<Rightarrow> Inl e
           | Inr (d, r2) \<Rightarrow>
               (case r2 of
                  [] \<Rightarrow> Inl Eof_Reading_Tag
                | b # r3 \<Rightarrow>
                    (case relation_of_tag b of
                       None \<Rightarrow> Inl (Unknown_Tag b)
                     | Some rel \<Rightarrow>
                         (case read_edges n r3 of
                            Inl e \<Rightarrow> Inl e
                          | Inr es \<Rightarrow> Inr ((s, d, rel) # es))))))"

definition rebuild_edge :: "str list \<Rightarrow> nat \<times> nat \<times> relation \<Rightarrow> relation_graph \<Rightarrow> relation_graph" where
  "rebuild_edge node_keys e g =
     (case e of (s, d, rel) \<Rightarrow>
        if s < length node_keys \<and> d < length node_keys
        then add_edge (node_keys ! s) (node_keys ! d) rel g else g)"

definition graph_deserialize :: "bytes \<Rightarrow> graph_error + relation_graph" where
  "graph_deserialize data =
     (if length data < 4 \<or> take 4 data \<noteq> ascii ''GRPH'' then Inl Bad_Graph_Magic
      else case read_u32 (drop 4 data) of
        Inl e \<Rightarrow> Inl e
      | Inr (n_nodes, r1) \<Rightarrow>
          (case read_nodes n_nodes r1 of
             Inl e \<Rightarrow> Inl e
           | Inr (node_keys, r2) \<Rightarrow>
               (case read_u32 r2 of
                  Inl e \<Rightarrow> Inl e
                | Inr (n_edges, r3) \<Rightarrow>
                    (case read_edges n_edges r3 of
                       Inl e \<Rightarrow> Inl e
                     | Inr edges \<Rightarrow>
                         Inr (fold (rebuild_edge node_keys) edges
                                (fold (\<lambda>key g. snd (add_node key g)) node_keys graph_new))))))"

definition node_count :: "relation_graph \<Rightarrow> nat" where
  "node_count g = length (rg_idx_to_key g)"

definition has_node :: "relation_graph \<Rightarrow> str \<Rightarrow> bool" where
  "has_node g key = (map_of (rg_key_to_idx g) key \<noteq> None)"

section \<open>Compressed rows\<close>

lemma csr_ptr_nth: "i \<le> length adj \<Longrightarrow> csr_ptr off adj ! i = off + length (concat (take i adj))"
proof (induction adj arbitrary: off i)
  case (Cons es adj)
  then show ?case by (cases i) auto
qed simp

text \<open>A row of the compressed arrays is the adjacency list, filtered.\<close>

lemma csr_row_adj:
  assumes "i < length adj"
  shows "csr_row (csr_ptr 0 adj, map fst (concat adj), map snd (concat adj)) flt i =
    filter (\<lambda>(d, r). case flt of None \<Rightarrow> True | Some f \<Rightarrow> r = f) (adj ! i)"
proof -
  let ?off = "length (concat (take i adj))"
  have split: "concat adj = concat (take i adj) @ adj ! i @ concat (drop (Suc i) adj)"
    using assms by (metis append.assoc concat.simps(2) concat_append id_take_nth_drop)
  have ptr: "csr_ptr 0 adj ! i = ?off" "csr_ptr 0 adj ! (i + 1) = ?off + length (adj ! i)"
    using assms by (simp_all add: csr_ptr_nth take_Suc_conv_app_nth)
  have "map (\<lambda>j. concat adj ! j) [?off..<?off + length (adj ! i)] = adj ! i"
    by (rule nth_equalityI) (simp_all add: split nth_append)
  moreover have "map (\<lambda>j. (map fst (concat adj) ! j, map snd (concat adj) ! j)) [?off..<?off + length (adj ! i)] =
      map (\<lambda>j. concat adj ! j) [?off..<?off + length (adj ! i)]"
  proof (rule map_cong [OF refl])
    fix j assume "j \<in> set [?off..<?off + length (adj ! i)]"
    then have "j < length (concat adj)" by (subst split) auto
    then show "(map fst (concat adj) ! j, map snd (concat adj) ! j) = concat adj ! j" by simp
  qed
  ultimately show ?thesis using ptr by (simp add: csr_row_def)
qed

section \<open>Invariant\<close>

type_synonym named_edge = "str \<times> str \<times> relation" \<comment> \<open>source, target, label\<close>

text \<open>
  The graph of a list of edges: nodes are numbered in the order of their appearance, and the
  adjacency lists hold, in order, the edges of each node.
\<close>

definition decode :: "str list \<Rightarrow> edge list \<Rightarrow> (str \<times> relation) list" where
  "decode keys es = map (\<lambda>(i, r). (keys ! i, r)) es"

definition out_edges :: "named_edge list \<Rightarrow> str \<Rightarrow> (str \<times> relation) list" where
  "out_edges es k = map (\<lambda>(s, d, r). (d, r)) (filter (\<lambda>(s, d, r). s = k) es)"

definition in_edges :: "named_edge list \<Rightarrow> str \<Rightarrow> (str \<times> relation) list" where
  "in_edges es k = map (\<lambda>(s, d, r). (s, r)) (filter (\<lambda>(s, d, r). d = k) es)"

definition adj_ok :: "str list \<Rightarrow> edge list list \<Rightarrow> (str \<Rightarrow> (str \<times> relation) list) \<Rightarrow> bool" where
  "adj_ok keys adj f =
     (length adj = length keys \<and>
      (\<forall>i < length keys. fst ` set (adj ! i) \<subseteq> {..<length keys} \<and> decode keys (adj ! i) = f (keys ! i)))"

definition graph_ok :: "named_edge list \<Rightarrow> relation_graph \<Rightarrow> bool" where
  "graph_ok es g =
     (distinct (rg_idx_to_key g) \<and>
      (\<forall>k i. map_of (rg_key_to_idx g) k = Some i \<longleftrightarrow> i < length (rg_idx_to_key g) \<and> rg_idx_to_key g ! i = k) \<and>
      adj_ok (rg_idx_to_key g) (rg_fwd_adj g) (out_edges es) \<and>
      adj_ok (rg_idx_to_key g) (rg_bwd_adj g) (in_edges es) \<and>
      (\<forall>(s, d, r) \<in> set es. s \<in> set (rg_idx_to_key g) \<and> d \<in> set (rg_idx_to_key g)) \<and>
      rg_edge_count g = length es \<and>
      (rg_built g \<longrightarrow> graph_build g = g))"

lemma graph_ok_new: "graph_ok [] graph_new"
  by (simp add: graph_ok_def graph_new_def adj_ok_def)

lemma decode_grow: "fst ` set es \<subseteq> {..<length keys} \<Longrightarrow> decode (keys @ ks) es = decode keys es"
  by (auto simp: decode_def nth_append)

lemma adj_ok_grow:
  assumes "adj_ok keys adj f" "f k = []"
  shows "adj_ok (keys @ [k]) (adj @ [[]]) f"
  unfolding adj_ok_def
proof (intro conjI allI impI)
  show "length (adj @ [[]]) = length (keys @ [k])" using assms by (simp add: adj_ok_def)
  fix i assume i: "i < length (keys @ [k])"
  show "fst ` set ((adj @ [[]]) ! i) \<subseteq> {..<length (keys @ [k])}"
    using i assms(1) by (cases "i < length keys") (force simp: adj_ok_def nth_append)+
  show "decode (keys @ [k]) ((adj @ [[]]) ! i) = f ((keys @ [k]) ! i)"
    using i assms by (cases "i < length keys") (auto simp: adj_ok_def nth_append decode_grow, simp add: decode_def)
qed

lemma adj_ok_push:
  assumes "adj_ok keys adj f" "i < length keys" "j < length keys" "distinct keys"
    "\<And>k. f' k = (if k = keys ! i then f k @ [(keys ! j, r)] else f k)"
  shows "adj_ok keys (push_at i (j, r) adj) f'"
  using assms by (auto simp: adj_ok_def push_at_def nth_list_update nth_eq_iff_index_eq decode_def)

text \<open>The index a key has after it was registered.\<close>

lemma add_node_ok:
  assumes "graph_ok es g" "add_node k g = (i, g')"
  shows "graph_ok es g'" "i < length (rg_idx_to_key g')" "rg_idx_to_key g' ! i = k"
    "\<exists>ks. rg_idx_to_key g' = rg_idx_to_key g @ ks"
proof -
  let ?keys = "rg_idx_to_key g"
  have "graph_ok es g' \<and> i < length (rg_idx_to_key g') \<and> rg_idx_to_key g' ! i = k \<and>
    (\<exists>ks. rg_idx_to_key g' = rg_idx_to_key g @ ks)"
  proof (cases "map_of (rg_key_to_idx g) k")
    case (Some idx)
    with assms show ?thesis by (auto simp: add_node_def graph_ok_def)
  next
    case None
    have idx: "map_of (rg_key_to_idx g) k' = Some i \<longleftrightarrow> i < length ?keys \<and> ?keys ! i = k'" for k' i
      using assms(1) by (simp add: graph_ok_def)
    then have new: "k \<notin> set ?keys" using None by (metis in_set_conv_nth option.distinct(1))
    with assms(1) have "\<forall>(s, d, r) \<in> set es. s \<noteq> k \<and> d \<noteq> k" by (fastforce simp: graph_ok_def)
    then have empty: "out_edges es k = []" "in_edges es k = []"
      by (auto simp: out_edges_def in_edges_def filter_empty_conv)
    have g': "g' = g\<lparr>rg_key_to_idx := hm_insert k (length ?keys) (rg_key_to_idx g), rg_idx_to_key := ?keys @ [k],
        rg_fwd_adj := rg_fwd_adj g @ [[]], rg_bwd_adj := rg_bwd_adj g @ [[]], rg_built := False\<rparr>" "i = length ?keys"
      using assms(2) None by (auto simp: add_node_def Let_def)
    have "map_of (hm_insert k (length ?keys) (rg_key_to_idx g)) k' = Some j \<longleftrightarrow>
        j < length (?keys @ [k]) \<and> (?keys @ [k]) ! j = k'" for k' j
      using new idx by (auto simp: nth_append less_Suc_eq in_set_conv_nth)
    then show ?thesis
      using assms(1) new adj_ok_grow empty by (auto simp: g' graph_ok_def)
  qed
  then show "graph_ok es g'" "i < length (rg_idx_to_key g')" "rg_idx_to_key g' ! i = k"
    "\<exists>ks. rg_idx_to_key g' = rg_idx_to_key g @ ks" by blast+
qed

lemma add_edge_ok:
  assumes "graph_ok es g"
  shows "graph_ok (es @ [(s, d, r)]) (add_edge s d r g)"
proof -
  obtain i g1 where g1: "add_node s g = (i, g1)" by fastforce
  obtain j g2 where g2: "add_node d g1 = (j, g2)" by fastforce
  note n1 = add_node_ok [OF assms g1]
  note n2 = add_node_ok [OF n1(1) g2]
  let ?keys = "rg_idx_to_key g2"
  have i: "i < length ?keys" "?keys ! i = s" using n1(2,3) n2(4) by (auto simp: nth_append)
  have dist: "distinct ?keys" using n2(1) by (simp add: graph_ok_def)
  have "adj_ok ?keys (push_at i (j, r) (rg_fwd_adj g2)) (out_edges (es @ [(s, d, r)]))"
    using n2(1) i n2(2,3) by (intro adj_ok_push [OF _ i(1) n2(2) dist]) (auto simp: graph_ok_def out_edges_def)
  moreover have "adj_ok ?keys (push_at j (i, r) (rg_bwd_adj g2)) (in_edges (es @ [(s, d, r)]))"
    using n2(1) i n2(2,3) by (intro adj_ok_push [OF _ n2(2) i(1) dist]) (auto simp: graph_ok_def in_edges_def)
  moreover have "s \<in> set ?keys" "d \<in> set ?keys" using i n2(2,3) nth_mem by metis+
  ultimately show ?thesis
    using n2(1) by (auto simp: graph_ok_def add_edge_def g1 g2 Let_def)
qed

lemma ensure_built_ok:
  assumes "graph_ok es g"
  shows "graph_ok es (ensure_built g)" "graph_build (ensure_built g) = ensure_built g"
    "rg_idx_to_key (ensure_built g) = rg_idx_to_key g" "rg_key_to_idx (ensure_built g) = rg_key_to_idx g"
  using assms by (auto simp: ensure_built_def graph_ok_def graph_build_def)

end
