(* ===== verification/Graph_Search.thy ===== *)
theory Graph_Search
  imports Graph
begin

text \<open>
  The traversals of \<^verbatim>\<open>src/index/graph.rs\<close>. Hash maps and sets of visited nodes are
  association lists and lists; the queue is a list with its front first and the stack a list
  with its top first. The lemmas show what the rows of the built graph contain and that the
  breadth-first search returns exactly the nodes within the depth limit, at their distances.
\<close>

section \<open>Definitions\<close>

record traversal_result =
  tr_key :: str
  tr_depth :: nat
  tr_relation :: "relation option"

text \<open>
  The body of the breadth-first loop for one edge: an unvisited target is recorded as visited
  and appended to the queue and to the results.
\<close>

type_synonym bfs_state = "(nat \<times> nat) list \<times> (nat \<times> nat) list \<times> (nat \<times> nat \<times> relation option) list"

definition bfs_edge :: "nat \<Rightarrow> edge \<Rightarrow> bfs_state \<Rightarrow> bfs_state" where
  "bfs_edge depth e st =
     (case (e, st) of ((nb, r), (visited, queue, results)) \<Rightarrow>
        if map_of visited nb = None
        then (hm_insert nb (depth + 1) visited, queue @ [(nb, depth + 1)], results @ [(nb, depth + 1, Some r)])
        else (visited, queue, results))"

lemma bfs_edge_simp [simp]:
  "bfs_edge depth (nb, r) (visited, queue, results) =
     (if map_of visited nb = None
      then (hm_insert nb (depth + 1) visited, queue @ [(nb, depth + 1)], results @ [(nb, depth + 1, Some r)])
      else (visited, queue, results))"
  by (simp add: bfs_edge_def)

lemma bfs_edges_queue:
  "\<exists>new. fst (snd (fold (bfs_edge depth) es (visited, queue, results))) = queue @ new \<and>
     (\<forall>p \<in> set new. snd p = depth + 1)"
proof (induction es arbitrary: visited queue results)
  case (Cons e es)
  obtain nb r where e: "e = (nb, r)" by fastforce
  obtain new where "fst (snd (fold (bfs_edge depth) es (hm_insert nb (depth + 1) visited,
      queue @ [(nb, depth + 1)], results @ [(nb, depth + 1, Some r)]))) = (queue @ [(nb, depth + 1)]) @ new"
    "\<forall>p \<in> set new. snd p = depth + 1"
    using Cons.IH by blast
  moreover have "\<exists>new. fst (snd (fold (bfs_edge depth) es (visited, queue, results))) = queue @ new \<and>
     (\<forall>p \<in> set new. snd p = depth + 1)"
    by (rule Cons.IH)
  ultimately show ?case using e by auto
qed simp

text \<open>
  The loops end because every step replaces a queued depth by depths closer to the limit.
\<close>

definition depth_room :: "nat \<Rightarrow> (nat \<times> nat) list \<Rightarrow> nat multiset" where
  "depth_room max_depth queue = image_mset (\<lambda>p. max_depth - snd p) (mset queue)"

lemma depth_room_less:
  assumes "\<forall>p \<in> set new. snd p = depth + 1" "depth < max_depth"
  shows "(depth_room max_depth (queue @ new), depth_room max_depth ((node, depth) # queue)) \<in> mult less_than"
proof -
  have "\<forall>k \<in> set_mset (image_mset (\<lambda>p. max_depth - snd p) (mset new)). \<exists>j \<in> set_mset {# max_depth - depth #}.
      (k, j) \<in> less_than"
    using assms by auto
  from one_step_implies_mult [OF _ this, of "depth_room max_depth queue"] show ?thesis
    by (simp add: depth_room_def)
qed

lemma depth_room_tl:
  "(depth_room max_depth queue, depth_room max_depth ((node, depth) # queue)) \<in> mult less_than"
  using one_step_implies_mult [of "{# max_depth - depth #}" "{#}" less_than "depth_room max_depth queue"]
  by (simp add: depth_room_def)

function bfs_loop :: "(nat \<Rightarrow> edge list) \<Rightarrow> nat \<Rightarrow> bfs_state \<Rightarrow> bfs_state" where
  "bfs_loop row max_depth (visited, [], results) = (visited, [], results)"
| "bfs_loop row max_depth (visited, (node, depth) # queue, results) =
     (if depth \<ge> max_depth then bfs_loop row max_depth (visited, queue, results)
      else bfs_loop row max_depth (fold (bfs_edge depth) (row node) (visited, queue, results)))"
  by pat_completeness auto
termination
proof (relation "inv_image (mult less_than) (\<lambda>(row, max_depth, st). depth_room max_depth (fst (snd st)))")
  show "wf (inv_image (mult less_than) (\<lambda>(row, max_depth, st :: bfs_state). depth_room max_depth (fst (snd st))))"
    by (simp add: wf_mult)
next
  fix row :: "nat \<Rightarrow> edge list" and max_depth visited node depth queue results
  show "((row, max_depth, visited, queue, results), row, max_depth, visited, (node, depth) # queue, results)
      \<in> inv_image (mult less_than) (\<lambda>(row, max_depth, st). depth_room max_depth (fst (snd st)))"
    by (simp add: depth_room_tl)
next
  fix row :: "nat \<Rightarrow> edge list" and max_depth visited node queue and depth :: nat and results :: "(nat \<times> nat \<times> relation option) list"
  assume "\<not> max_depth \<le> depth"
  moreover obtain new where "fst (snd (fold (bfs_edge depth) (row node) (visited, queue, results))) = queue @ new"
    "\<forall>p \<in> set new. snd p = depth + 1"
    using bfs_edges_queue by blast
  ultimately show "((row, max_depth, fold (bfs_edge depth) (row node) (visited, queue, results)),
      row, max_depth, visited, (node, depth) # queue, results)
      \<in> inv_image (mult less_than) (\<lambda>(row, max_depth, st). depth_room max_depth (fst (snd st)))"
    by (simp add: depth_room_less)
qed

definition bfs ::
  "str \<Rightarrow> str \<Rightarrow> nat \<Rightarrow> relation option \<Rightarrow> relation_graph \<Rightarrow> traversal_result list \<times> relation_graph" where
  "bfs start direction max_depth flt g =
     (let g1 = ensure_built g
      in case map_of (rg_key_to_idx g1) start of
           None \<Rightarrow> ([], g1)
         | Some start_idx \<Rightarrow>
             (case bfs_loop (csr_row (csr_of direction g1) flt) max_depth
                     (hm_insert start_idx 0 [], [(start_idx, 0)], [(start_idx, 0, None)]) of
                (visited, queue, results) \<Rightarrow>
                  (map (\<lambda>(i, d, r). \<lparr>tr_key = rg_idx_to_key g1 ! i, tr_depth = d, tr_relation = r\<rparr>) results, g1)))"

function dfs_loop ::
  "(nat \<Rightarrow> edge list) \<Rightarrow> nat \<Rightarrow> nat list \<Rightarrow> (nat \<times> nat) list \<Rightarrow> (nat \<times> nat) list" where
  "dfs_loop row max_depth visited [] = []"
| "dfs_loop row max_depth visited ((node, depth) # stack) =
     (if node \<in> set visited then dfs_loop row max_depth visited stack
      else (node, depth) #
        (if depth \<ge> max_depth then dfs_loop row max_depth (node # visited) stack
         else dfs_loop row max_depth (node # visited)
                (rev (map (\<lambda>(d, r). (d, depth + 1)) (filter (\<lambda>(d, r). d \<notin> set (node # visited)) (row node))) @ stack)))"
  by pat_completeness auto
termination
proof (relation "inv_image (mult less_than) (\<lambda>(row, max_depth, visited, stack). depth_room max_depth stack)")
  fix row :: "nat \<Rightarrow> edge list" and max_depth depth node :: nat and visited stack
  let ?new = "rev (map (\<lambda>(d, r). (d, depth + 1)) (filter (\<lambda>(d, r). d \<notin> set (node # visited)) (row node)))"
  assume "\<not> max_depth \<le> depth"
  moreover have "depth_room max_depth (?new @ stack) = depth_room max_depth (stack @ ?new)"
    by (simp add: depth_room_def)
  moreover have "\<forall>p \<in> set ?new. snd p = depth + 1" by auto
  ultimately show "((row, max_depth, node # visited, ?new @ stack), row, max_depth, visited, (node, depth) # stack)
      \<in> inv_image (mult less_than) (\<lambda>(row, max_depth, visited, stack). depth_room max_depth stack)"
    using depth_room_less [of ?new depth max_depth stack node] by simp
qed (simp_all add: wf_mult depth_room_tl)

definition dfs ::
  "str \<Rightarrow> str \<Rightarrow> nat \<Rightarrow> relation option \<Rightarrow> relation_graph \<Rightarrow> traversal_result list \<times> relation_graph" where
  "dfs start direction max_depth flt g =
     (let g1 = ensure_built g
      in case map_of (rg_key_to_idx g1) start of
           None \<Rightarrow> ([], g1)
         | Some start_idx \<Rightarrow>
             (map (\<lambda>(i, d). \<lparr>tr_key = rg_idx_to_key g1 ! i, tr_depth = d, tr_relation = None\<rparr>)
                (dfs_loop (csr_row (csr_of direction g1) flt) max_depth [] [(start_idx, 0)]), g1))"

section \<open>Distances\<close>

definition edge_rel :: "(nat \<Rightarrow> edge list) \<Rightarrow> nat \<Rightarrow> nat \<Rightarrow> bool" where
  "edge_rel row u v = (\<exists>r. (v, r) \<in> set (row u))"

definition at_dist :: "('a \<Rightarrow> 'a \<Rightarrow> bool) \<Rightarrow> 'a \<Rightarrow> nat \<Rightarrow> 'a \<Rightarrow> bool" where
  "at_dist R s d v = ((R ^^ d) s v \<and> (\<forall>d' < d. \<not> (R ^^ d') s v))"

lemma at_dist_0 [simp]: "at_dist R s 0 v \<longleftrightarrow> v = s"
  by (auto simp: at_dist_def)

lemma at_dist_Suc: "at_dist R s (Suc n) v \<Longrightarrow> \<exists>u. at_dist R s n u \<and> R u v"
proof -
  assume a: "at_dist R s (Suc n) v"
  then obtain u where u: "(R ^^ n) s u" "R u v" by (auto simp: at_dist_def)
  have "\<not> (R ^^ d') s u" if "d' < n" for d'
    using a u(2) that relpowp_Suc_I [of d' R s u v] unfolding at_dist_def by blast
  with u show ?thesis by (auto simp: at_dist_def)
qed

lemma at_dist_unique: "at_dist R s d v \<Longrightarrow> at_dist R s d' v \<Longrightarrow> d = d'"
  by (metis at_dist_def linorder_neqE_nat)

lemma at_dist_least: "(R ^^ n) s v \<Longrightarrow> \<exists>d \<le> n. at_dist R s d v"
  by (rule exI [of _ "LEAST d. (R ^^ d) s v"]) (auto simp: at_dist_def intro: LeastI Least_le dest: not_less_Least)

lemma at_dist_step:
  assumes "at_dist R s d u" "R u v" "\<And>d'. d' \<le> d \<Longrightarrow> \<not> at_dist R s d' v"
  shows "at_dist R s (Suc d) v"
proof -
  have "\<not> (R ^^ d') s v" if "d' < Suc d" for d'
    using at_dist_least [of d' R s v] assms(3) that by (meson le_trans less_Suc_eq_le)
  with assms(1,2) show ?thesis by (auto simp: at_dist_def)
qed

section \<open>Breadth-first search\<close>

text \<open>
  The loop invariant. Visited nodes carry their distance, the queue holds visited nodes of two
  consecutive distances in order, and every visited node below the limit that is no longer
  queued, the nodes \<open>ex\<close> excepted, has only visited successors.
\<close>

definition bfs_ok :: "(nat \<Rightarrow> edge list) \<Rightarrow> nat \<Rightarrow> nat \<Rightarrow> nat set \<Rightarrow> nat \<Rightarrow> bfs_state \<Rightarrow> bool" where
  "bfs_ok row max_depth s ex lo st =
     (case st of (visited, queue, results) \<Rightarrow>
        map_of visited s = Some 0 \<and>
        (\<forall>v d. map_of visited v = Some d \<longrightarrow> d \<le> max_depth \<and> at_dist (edge_rel row) s d v) \<and>
        (\<forall>v d. (v, d) \<in> set queue \<longrightarrow> map_of visited v = Some d \<and> lo \<le> d \<and> d \<le> lo + 1) \<and>
        sorted (map snd queue) \<and>
        (\<forall>v d. map_of visited v = Some d \<longrightarrow> d < max_depth \<longrightarrow> (v, d) \<notin> set queue \<longrightarrow> v \<notin> ex \<longrightarrow>
           (\<forall>w. edge_rel row v w \<longrightarrow> map_of visited w \<noteq> None)) \<and>
        map_of (map (\<lambda>(v, d, r). (v, d)) results) = map_of visited \<and> distinct (map fst results))"

lemma bfs_known:
  assumes ok: "bfs_ok row max_depth s ex lo (visited, queue, results)"
    and ex: "\<And>v. v \<in> ex \<Longrightarrow> map_of visited v = Some lo" and "lo \<le> max_depth"
  shows "d \<le> lo \<Longrightarrow> at_dist (edge_rel row) s d v \<Longrightarrow> map_of visited v = Some d"
proof (induction d arbitrary: v)
  case 0
  with ok show ?case by (simp add: bfs_ok_def)
next
  case (Suc n)
  from at_dist_Suc [OF Suc.prems(2)] obtain u where u: "at_dist (edge_rel row) s n u" "edge_rel row u v" by blast
  with Suc have vis: "map_of visited u = Some n" by simp
  have "(u, n) \<notin> set queue" "u \<notin> ex" "n < max_depth"
    using ok ex vis Suc.prems(1) assms(3) by (fastforce simp: bfs_ok_def)+
  with ok vis u(2) obtain d' where "map_of visited v = Some d'" unfolding bfs_ok_def by blast
  with ok Suc.prems(2) at_dist_unique show ?case by (fastforce simp: bfs_ok_def)
qed

lemma bfs_edge_ok:
  assumes ok: "bfs_ok row max_depth s {u} depth (visited, queue, results)"
    and u: "map_of visited u = Some depth" "depth < max_depth" "(w, r) \<in> set (row u)"
    and st: "bfs_edge depth (w, r) (visited, queue, results) = (visited', queue', results')"
  shows "bfs_ok row max_depth s {u} depth (visited', queue', results')"
    and "map_of visited' w \<noteq> None" "\<And>x d. map_of visited x = Some d \<Longrightarrow> map_of visited' x = Some d"
proof -
  have main: "bfs_ok row max_depth s {u} depth (visited', queue', results') \<and> map_of visited' w \<noteq> None \<and>
    (\<forall>x d. map_of visited x = Some d \<longrightarrow> map_of visited' x = Some d)"
  proof (cases "map_of visited w")
    case (Some d)
    with ok st show ?thesis by auto
  next
    case None
    have uw: "edge_rel row u w" using u(3) by (auto simp: edge_rel_def)
    have "at_dist (edge_rel row) s depth u" using ok u(1) by (simp add: bfs_ok_def)
    moreover have "\<not> at_dist (edge_rel row) s d w" if "d \<le> depth" for d
      using bfs_known [OF ok _ _ that, of w] u None by auto
    ultimately have dist: "at_dist (edge_rel row) s (Suc depth) w" using uw by (intro at_dist_step)
    have st': "visited' = hm_insert w (depth + 1) visited" "queue' = queue @ [(w, depth + 1)]"
      "results' = results @ [(w, depth + 1, Some r)]"
      using st None by auto
    have res: "map_of (map (\<lambda>(v, d, r). (v, d)) results) = map_of visited" "distinct (map fst results)"
      using ok by (simp_all add: bfs_ok_def)
    have "w \<notin> fst ` set results"
      using None by (auto simp: res(1) [symmetric] map_of_eq_None_iff image_image case_prod_unfold)
    moreover have "map_of (map (\<lambda>(v, d, r). (v, d)) results') = (map_of visited)(w \<mapsto> depth + 1)"
      using None res(1) by (auto simp: st' map_add_def fun_eq_iff split: option.split)
    ultimately show ?thesis
      using ok None u(2) dist
      by (auto simp: bfs_ok_def st' sorted_append fun_upd_apply split: if_splits)
  qed
  then show "bfs_ok row max_depth s {u} depth (visited', queue', results')" "map_of visited' w \<noteq> None"
    "\<And>x d. map_of visited x = Some d \<Longrightarrow> map_of visited' x = Some d" by blast+
qed

lemma bfs_edges_ok:
  assumes "bfs_ok row max_depth s {u} depth (visited, queue, results)" "map_of visited u = Some depth"
    "depth < max_depth" "set es \<subseteq> set (row u)"
    "fold (bfs_edge depth) es (visited, queue, results) = (visited', queue', results')"
  shows "bfs_ok row max_depth s {u} depth (visited', queue', results') \<and>
    (\<forall>(w, r) \<in> set es. map_of visited' w \<noteq> None) \<and>
    (\<forall>x d. map_of visited x = Some d \<longrightarrow> map_of visited' x = Some d)"
  using assms
proof (induction es arbitrary: visited queue results)
  case (Cons e es)
  obtain w r where e: "e = (w, r)" by fastforce
  obtain vis1 q1 res1 where st: "bfs_edge depth (w, r) (visited, queue, results) = (vis1, q1, res1)"
    by (rule prod_cases3)
  have "(w, r) \<in> set (row u)" using Cons.prems(4) e by simp
  note step = bfs_edge_ok [OF Cons.prems(1,2,3) this st]
  have "fold (bfs_edge depth) es (vis1, q1, res1) = (visited', queue', results')"
    using Cons.prems(5) st e by (simp del: bfs_edge_simp)
  with Cons.IH [OF step(1) step(3) [OF Cons.prems(2)] Cons.prems(3)] Cons.prems(4) step(2,3) e
  show ?case by fastforce
qed simp

lemma bfs_loop_ok:
  "bfs_ok row max_depth s {} lo st \<Longrightarrow>
   \<exists>lo' visited results. bfs_loop row max_depth st = (visited, [], results) \<and>
     bfs_ok row max_depth s {} lo' (visited, [], results)"
proof (induction row max_depth st arbitrary: lo rule: bfs_loop.induct)
  case (1 row max_depth visited results)
  then show ?case by auto
next
  case (2 row max_depth visited u depth queue results)
  have vis: "map_of visited u = Some depth" "depth \<le> max_depth"
    using "2.prems" by (auto simp: bfs_ok_def)
  have popped: "bfs_ok row max_depth s {u} depth (visited, queue, results)"
    using "2.prems" by (auto simp: bfs_ok_def) (metis Suc_le_mono le_trans)
  show ?case
  proof (cases "max_depth \<le> depth")
    case True
    with popped vis have "bfs_ok row max_depth s {} depth (visited, queue, results)"
      by (auto simp: bfs_ok_def) (metis leD option.inject)
    with "2.IH"(1) [OF True] True show ?thesis by simp
  next
    case False
    obtain vis1 q1 res1 where st: "fold (bfs_edge depth) (row u) (visited, queue, results) = (vis1, q1, res1)"
      by (rule prod_cases3)
    have "bfs_ok row max_depth s {u} depth (vis1, q1, res1) \<and>
        (\<forall>(w, r) \<in> set (row u). map_of vis1 w \<noteq> None) \<and>
        (\<forall>x d. map_of visited x = Some d \<longrightarrow> map_of vis1 x = Some d)"
      using bfs_edges_ok [OF popped vis(1) _ order_refl st] False by simp
    then have "bfs_ok row max_depth s {} depth (vis1, q1, res1)"
      by (fastforce simp: bfs_ok_def edge_rel_def)
    with "2.IH"(2) [OF False] False st show ?thesis by simp
  qed
qed

lemma bfs_finished:
  assumes ok: "bfs_ok row max_depth s {} lo (visited, [], results)"
  shows "map_of visited v = Some d \<longleftrightarrow> d \<le> max_depth \<and> at_dist (edge_rel row) s d v"
proof
  show "d \<le> max_depth \<and> at_dist (edge_rel row) s d v" if "map_of visited v = Some d"
    using ok that by (simp add: bfs_ok_def)
  show "map_of visited v = Some d" if "d \<le> max_depth \<and> at_dist (edge_rel row) s d v"
    using that
  proof (induction d arbitrary: v)
    case 0
    with ok show ?case by (simp add: bfs_ok_def)
  next
    case (Suc n)
    then obtain u where u: "at_dist (edge_rel row) s n u" "edge_rel row u v" by (meson at_dist_Suc)
    with Suc have "map_of visited u = Some n" by simp
    with ok u(2) Suc.prems obtain d' where d': "map_of visited v = Some d'"
      unfolding bfs_ok_def by fastforce
    with ok have "at_dist (edge_rel row) s d' v" by (simp add: bfs_ok_def)
    with Suc.prems have "d' = Suc n" by (metis at_dist_unique)
    with d' show ?case by simp
  qed
qed

lemma bfs_loop_exact:
  "\<exists>visited results.
    bfs_loop row max_depth (hm_insert s 0 [], [(s, 0)], [(s, 0, None)]) = (visited, [], results) \<and>
    distinct (map fst results) \<and>
    (\<forall>v d. (\<exists>r. (v, d, r) \<in> set results) \<longleftrightarrow> d \<le> max_depth \<and> at_dist (edge_rel row) s d v)"
proof -
  let ?st = "(hm_insert s 0 [], [(s, 0)], [(s, 0, None)])"
  have "bfs_ok row max_depth s {} 0 ?st"
    by (auto simp: bfs_ok_def hm_insert_def bt_remove_def)
  from bfs_loop_ok [OF this] obtain lo visited results
    where loop: "bfs_loop row max_depth ?st = (visited, [], results)"
      and ok: "bfs_ok row max_depth s {} lo (visited, [], results)" by blast
  have d: "distinct (map fst results)" "map_of (map (\<lambda>(v, d, r). (v, d)) results) = map_of visited"
    using ok by (simp_all add: bfs_ok_def)
  have "(\<exists>r. (v, d, r) \<in> set results) \<longleftrightarrow> map_of visited v = Some d" for v d
  proof -
    have "distinct (map fst (map (\<lambda>(v, d, r). (v, d)) results))"
      using d(1) by (simp add: comp_def case_prod_unfold)
    then have "map_of visited v = Some d \<longleftrightarrow> (v, d) \<in> set (map (\<lambda>(v, d, r). (v, d)) results)"
      unfolding d(2) [symmetric] by simp
    then show ?thesis by force
  qed
  with loop d(1) bfs_finished [OF ok] show ?thesis by simp
qed

section \<open>From indices to keys\<close>

definition graph_of :: "named_edge list \<Rightarrow> relation_graph" where
  "graph_of es = fold (\<lambda>(s, d, r). add_edge s d r) es graph_new"

definition key_edges :: "named_edge list \<Rightarrow> str \<Rightarrow> relation option \<Rightarrow> str \<Rightarrow> (str \<times> relation) list" where
  "key_edges es direction flt k =
     filter (\<lambda>(d, r). case flt of None \<Rightarrow> True | Some f \<Rightarrow> r = f)
       (if direction = ascii ''backward'' then in_edges es k else out_edges es k)"

definition key_rel :: "named_edge list \<Rightarrow> str \<Rightarrow> relation option \<Rightarrow> str \<Rightarrow> str \<Rightarrow> bool" where
  "key_rel es direction flt a b = (\<exists>r. (b, r) \<in> set (key_edges es direction flt a))"

lemma graph_of_ok: "graph_ok es (graph_of es)"
proof (induction es rule: rev_induct)
  case Nil
  then show ?case by (simp add: graph_of_def graph_ok_new)
next
  case (snoc e es)
  obtain s d r where "e = (s, d, r)" by (cases e)
  with add_edge_ok [OF snoc] show ?case by (simp add: graph_of_def)
qed

lemma decode_filter: "decode keys (filter (\<lambda>(d, r). P r) es) = filter (\<lambda>(d, r). P r) (decode keys es)"
  by (induction es) (auto simp: decode_def)

lemma csr_row_graph:
  assumes "graph_ok es g" "i < length (rg_idx_to_key g)"
  shows "decode (rg_idx_to_key g) (csr_row (csr_of direction (ensure_built g)) flt i) =
      key_edges es direction flt (rg_idx_to_key g ! i)"
    and "fst ` set (csr_row (csr_of direction (ensure_built g)) flt i) \<subseteq> {..<length (rg_idx_to_key g)}"
proof -
  let ?g = "ensure_built g" and ?bwd = "direction = ascii ''backward''"
  let ?adj = "if ?bwd then rg_bwd_adj ?g else rg_fwd_adj ?g"
  note b = ensure_built_ok [OF assms(1)]
  have built: "graph_build ?g = ?g" by (rule b(2))
  have "csr_of direction (graph_build ?g) = (csr_ptr 0 ?adj, map fst (concat ?adj), map snd (concat ?adj))"
    by (simp add: csr_of_def graph_build_def)
  then have csr: "csr_of direction ?g = (csr_ptr 0 ?adj, map fst (concat ?adj), map snd (concat ?adj))"
    by (simp only: built)
  have ok: "adj_ok (rg_idx_to_key g) ?adj (if ?bwd then in_edges es else out_edges es)"
    using b(1,3) by (auto simp: graph_ok_def)
  then have "i < length ?adj" using assms(2) by (simp add: adj_ok_def)
  note row = csr_row_adj [OF this, of flt]
  show "decode (rg_idx_to_key g) (csr_row (csr_of direction ?g) flt i) = key_edges es direction flt (rg_idx_to_key g ! i)"
    using ok assms(2) unfolding csr row by (cases flt) (auto simp: adj_ok_def key_edges_def decode_filter)
  show "fst ` set (csr_row (csr_of direction ?g) flt i) \<subseteq> {..<length (rg_idx_to_key g)}"
    using ok assms(2) unfolding csr row by (fastforce simp: adj_ok_def)
qed

lemma graph_ok_index:
  "graph_ok es g \<Longrightarrow> map_of (rg_key_to_idx g) k = Some i \<longleftrightarrow> i < length (rg_idx_to_key g) \<and> rg_idx_to_key g ! i = k"
  by (simp add: graph_ok_def)

lemma key_edges_unknown: "graph_ok es g \<Longrightarrow> k \<notin> set (rg_idx_to_key g) \<Longrightarrow> key_edges es direction flt k = []"
proof -
  assume "graph_ok es g" "k \<notin> set (rg_idx_to_key g)"
  then have "\<forall>(s, d, r) \<in> set es. s \<noteq> k \<and> d \<noteq> k" by (fastforce simp: graph_ok_def)
  then show ?thesis by (auto simp: key_edges_def in_edges_def out_edges_def filter_empty_conv)
qed

lemma relpowp_transfer:
  assumes closed: "\<And>u v. u \<in> N \<Longrightarrow> R u v \<Longrightarrow> v \<in> N \<and> K (f u) (f v)"
    and onto: "\<And>u k. u \<in> N \<Longrightarrow> K (f u) k \<Longrightarrow> \<exists>v \<in> N. f v = k \<and> R u v"
    and i: "i \<in> N"
  shows "(K ^^ d) (f i) k \<longleftrightarrow> (\<exists>j \<in> N. f j = k \<and> (R ^^ d) i j)"
proof (induction d arbitrary: k)
  case 0
  then show ?case using i by auto
next
  case (Suc d)
  show ?case
  proof
    assume "(K ^^ Suc d) (f i) k"
    then obtain k' where "(K ^^ d) (f i) k'" "K k' k" by auto
    with Suc obtain j where "j \<in> N" "f j = k'" "(R ^^ d) i j" by blast
    with onto [of j k] \<open>K k' k\<close> show "\<exists>j \<in> N. f j = k \<and> (R ^^ Suc d) i j" by auto
  next
    assume "\<exists>j \<in> N. f j = k \<and> (R ^^ Suc d) i j"
    then obtain j j' where j: "f j = k" "(R ^^ d) i j'" "R j' j" by auto
    have reach: "(R ^^ n) i x \<Longrightarrow> x \<in> N" for n x
      by (induction n arbitrary: x) (use i closed in auto)
    from reach [OF j(2)] closed [of j' j] Suc j show "(K ^^ Suc d) (f i) k" by auto
  qed
qed

lemma at_dist_transfer:
  assumes "\<And>u v. u \<in> N \<Longrightarrow> R u v \<Longrightarrow> v \<in> N \<and> K (f u) (f v)"
    and "\<And>u k. u \<in> N \<Longrightarrow> K (f u) k \<Longrightarrow> \<exists>v \<in> N. f v = k \<and> R u v"
    and "i \<in> N" "inj_on f N"
  shows "at_dist K (f i) d k \<longleftrightarrow> (\<exists>j \<in> N. f j = k \<and> at_dist R i d j)"
proof -
  have "(K ^^ d) (f i) k \<longleftrightarrow> (\<exists>j \<in> N. f j = k \<and> (R ^^ d) i j)" for d k
    by (rule relpowp_transfer) (use assms in auto)
  with assms(4) show ?thesis unfolding at_dist_def inj_on_def by blast
qed

lemma at_dist_graph:
  fixes direction :: str and flt :: "relation option"
  assumes ok: "graph_ok es g" and i: "i < length (rg_idx_to_key g)"
  defines "row \<equiv> csr_row (csr_of direction (ensure_built g)) flt"
  shows "at_dist (key_rel es direction flt) (rg_idx_to_key g ! i) d k \<longleftrightarrow>
    (\<exists>j < length (rg_idx_to_key g). rg_idx_to_key g ! j = k \<and> at_dist (edge_rel row) i d j)"
proof -
  let ?keys = "rg_idx_to_key g"
  note rows = csr_row_graph [OF ok, of _ direction flt, folded row_def]
  have rel: "key_rel es direction flt (?keys ! u) k \<longleftrightarrow> (\<exists>v. edge_rel row u v \<and> ?keys ! v = k)"
    and less: "edge_rel row u v \<Longrightarrow> v < length ?keys" if "u < length ?keys" for u v k
  proof -
    show "key_rel es direction flt (?keys ! u) k \<longleftrightarrow> (\<exists>v. edge_rel row u v \<and> ?keys ! v = k)"
      unfolding key_rel_def rows(1) [OF that, symmetric] by (auto simp: decode_def edge_rel_def)
    show "edge_rel row u v \<Longrightarrow> v < length ?keys"
      using rows(2) [OF that] by (force simp: edge_rel_def)
  qed
  have "at_dist (key_rel es direction flt) (?keys ! i) d k \<longleftrightarrow>
      (\<exists>j \<in> {..<length ?keys}. ?keys ! j = k \<and> at_dist (edge_rel row) i d j)"
  proof (rule at_dist_transfer)
    show "v \<in> {..<length ?keys} \<and> key_rel es direction flt (?keys ! u) (?keys ! v)"
      if "u \<in> {..<length ?keys}" "edge_rel row u v" for u v
      using that less rel by auto
    show "\<exists>v \<in> {..<length ?keys}. ?keys ! v = k \<and> edge_rel row u v"
      if "u \<in> {..<length ?keys}" "key_rel es direction flt (?keys ! u) k" for u k
      using that less rel by (metis lessThan_iff)
    show "inj_on ((!) ?keys) {..<length ?keys}"
      using ok by (auto simp: graph_ok_def inj_on_def nth_eq_iff_index_eq)
  qed (use i in simp)
  then show ?thesis by auto
qed

section \<open>Properties\<close>

text \<open>
  The neighbours of a node, forward or backward, optionally of one label, are exactly the
  edges added for it, in the order in which they were added, whatever the state of the
  compressed arrays.
\<close>

theorem graph_neighbours_exact: "fst (neighbours k direction flt (graph_of es)) = key_edges es direction flt k"
proof -
  let ?g = "graph_of es"
  have ok: "graph_ok es ?g" by (rule graph_of_ok)
  note b = ensure_built_ok [OF ok]
  show ?thesis
  proof (cases "map_of (rg_key_to_idx ?g) k")
    case None
    then have "k \<notin> set (rg_idx_to_key ?g)"
      using graph_ok_index [OF ok, of k] by (auto simp: in_set_conv_nth)
    with None key_edges_unknown [OF ok] show ?thesis by (simp add: neighbours_def b)
  next
    case (Some i)
    then have "i < length (rg_idx_to_key ?g)" "rg_idx_to_key ?g ! i = k"
      using graph_ok_index [OF ok, of k i] by auto
    with Some csr_row_graph(1) [OF ok, of i direction flt] show ?thesis
      by (simp add: neighbours_def b decode_def)
  qed
qed

text \<open>
  (C26) Breadth-first search returns each node within the depth limit exactly once, with its
  distance from the start, and no other node; an unknown start gives nothing.
\<close>

theorem bfs_returns_distances:
  "distinct (map tr_key (fst (bfs start direction max_depth flt (graph_of es)))) \<and>
   ((\<exists>t \<in> set (fst (bfs start direction max_depth flt (graph_of es))). tr_key t = k \<and> tr_depth t = d) \<longleftrightarrow>
     has_node (graph_of es) start \<and> d \<le> max_depth \<and> at_dist (key_rel es direction flt) start d k)"
proof -
  let ?g = "graph_of es" and ?keys = "rg_idx_to_key (graph_of es)"
  have ok: "graph_ok es ?g" by (rule graph_of_ok)
  note b = ensure_built_ok [OF ok]
  let ?row = "csr_row (csr_of direction (ensure_built ?g)) flt"
  show ?thesis
  proof (cases "map_of (rg_key_to_idx ?g) start")
    case None
    then show ?thesis by (simp add: bfs_def b has_node_def)
  next
    case (Some i)
    then have i: "i < length ?keys" "?keys ! i = start" using graph_ok_index [OF ok] by auto
    obtain visited results where loop:
      "bfs_loop ?row max_depth (hm_insert i 0 [], [(i, 0)], [(i, 0, None)]) = (visited, [], results)"
      and dist: "distinct (map fst results)"
      and exact: "\<And>v d. (\<exists>r. (v, d, r) \<in> set results) \<longleftrightarrow> d \<le> max_depth \<and> at_dist (edge_rel ?row) i d v"
      using bfs_loop_exact [of ?row max_depth i] by blast
    have res: "fst (bfs start direction max_depth flt ?g) =
        map (\<lambda>(i, d, r). \<lparr>tr_key = ?keys ! i, tr_depth = d, tr_relation = r\<rparr>) results"
      using Some loop by (simp add: bfs_def b)
    have bound: "v < length ?keys" if "v \<in> fst ` set results" for v
    proof -
      from that obtain d r where "(v, d, r) \<in> set results" by fastforce
      with exact have "at_dist (edge_rel ?row) i d v" by blast
      then have "(edge_rel ?row ^^ d) i v" by (simp add: at_dist_def)
      then show ?thesis
      proof (induction d arbitrary: v)
        case 0
        with i show ?case by simp
      next
        case (Suc d)
        then obtain u where "u < length ?keys" "edge_rel ?row u v" by auto
        with csr_row_graph(2) [OF ok, of u direction flt] show ?case by (force simp: edge_rel_def)
      qed
    qed
    have "inj_on ((!) ?keys) (fst ` set results)"
      using bound ok by (auto simp: inj_on_def graph_ok_def nth_eq_iff_index_eq)
    then have "distinct (map ((!) ?keys) (map fst results))"
      unfolding distinct_map [of "(!) ?keys"] using dist by simp
    then have "distinct (map tr_key (fst (bfs start direction max_depth flt ?g)))"
      by (simp add: res comp_def case_prod_unfold)
    moreover have "(\<exists>t \<in> set (fst (bfs start direction max_depth flt ?g)). tr_key t = k \<and> tr_depth t = d) \<longleftrightarrow>
        (\<exists>v r. (v, d, r) \<in> set results \<and> ?keys ! v = k)"
      by (force simp: res)
    moreover have "\<dots> \<longleftrightarrow> (\<exists>v < length ?keys. ?keys ! v = k \<and> (\<exists>r. (v, d, r) \<in> set results))"
      using bound by (auto simp: image_iff) (metis fst_conv)
    moreover have "\<dots> \<longleftrightarrow> d \<le> max_depth \<and> at_dist (key_rel es direction flt) start d k"
      unfolding exact using at_dist_graph [OF ok i(1), of direction flt d k] i(2) by blast
    ultimately show ?thesis using Some by (simp add: has_node_def)
  qed
qed

definition diamond :: "named_edge list" where
  "diamond = [([1], [3], Calls), ([1], [2], Calls), ([2], [3], Calls), ([3], [4], Calls)]"

text \<open>
  Depth-first search can miss nodes within the limit: when a node is first reached at the
  limit by a longer path, it is not expanded, and the shorter path finds it already visited.
  Here the fourth node is at distance two from the first and is not returned with limit two.
\<close>

theorem dfs_misses_within_limit:
  "map tr_key (fst (dfs [1] (ascii ''forward'') 2 None (graph_of diamond))) = [[1], [2], [3]] \<and>
   at_dist (key_rel diamond (ascii ''forward'') None) [1] 2 [4]"
proof
  show "map tr_key (fst (dfs [1] (ascii ''forward'') 2 None (graph_of diamond))) = [[1], [2], [3]]"
    by code_simp
  have rel: "key_rel diamond (ascii ''forward'') None a b \<longleftrightarrow>
      (a, b) \<in> {([1], [3]), ([1], [2]), ([2], [3]), ([3], [4])}" for a b
    by (auto simp: key_rel_def key_edges_def out_edges_def diamond_def ascii_def)
  have ne: "(4::u8) \<noteq> 1" "(4::u8) \<noteq> 3" "(4::u8) \<noteq> 2" "(3::u8) \<noteq> 1" "(2::u8) \<noteq> 1" "(2::u8) \<noteq> 3" by simp_all
  have two: "(K ^^ 2) a b \<longleftrightarrow> (\<exists>c. K a c \<and> K c b)" for K :: "str \<Rightarrow> str \<Rightarrow> bool" and a b
    by (simp add: numeral_2_eq_2 relcompp_apply)
  have lt: "d < 2 \<longleftrightarrow> d = 0 \<or> d = 1" for d :: nat by auto
  show "at_dist (key_rel diamond (ascii ''forward'') None) [1] 2 [4]"
    unfolding at_dist_def two lt rel using ne by (auto simp: rel)
qed

end
