(* ===== verification/Hnsw.thy ===== *)
theory Hnsw
  imports Float_Ops
begin

text \<open>
  \<^verbatim>\<open>src/index/hnsw.rs\<close>: the layered graph for approximate nearest-neighbour search. An \<^verbatim>\<open>f32\<close> or
  \<^verbatim>\<open>f64\<close> is its bit pattern, and the floating-point instructions are the parameter \<open>hnsw_floats\<close>.
  Indexing out of range and failed assertions are \<open>None\<close>. A binary heap is the list of its elements; \<open>pop\<close>
  takes an extremal one. The order in which a heap hands out its elements to \<^verbatim>\<open>into_iter\<close> is the
  parameter \<open>order\<close>.
\<close>

section \<open>Floating point\<close>

record hnsw_floats =
  hf_sum0 :: u32 \<comment> \<open>the start of a sum\<close>
  hf_one :: u32
  hf_neg_one :: u32
  hf_eps :: u32 \<comment> \<open>\<open>1e-10\<close>\<close>
  hf_fmax :: u32
  hf_add :: "u32 \<Rightarrow> u32 \<Rightarrow> u32"
  hf_sub :: "u32 \<Rightarrow> u32 \<Rightarrow> u32"
  hf_mul :: "u32 \<Rightarrow> u32 \<Rightarrow> u32"
  hf_div :: "u32 \<Rightarrow> u32 \<Rightarrow> u32"
  hf_sqrt :: "u32 \<Rightarrow> u32"
  hf_less :: "u32 \<Rightarrow> u32 \<Rightarrow> bool"
  hf_eq :: "u32 \<Rightarrow> u32 \<Rightarrow> bool"
  hf_minus_one64 :: "u64 \<Rightarrow> u64"
  hf_level_bound :: "nat \<Rightarrow> u64" \<comment> \<open>\<open>exp (-1 / (1 / ln m))\<close>\<close>
  hf_less64 :: "u64 \<Rightarrow> u64 \<Rightarrow> bool"

definition ord_gt :: "hnsw_floats \<Rightarrow> u32 \<Rightarrow> u32 \<Rightarrow> bool" where
  "ord_gt fl a b = (\<not> hf_less fl a b \<and> \<not> hf_eq fl a b)"

definition pair_less :: "hnsw_floats \<Rightarrow> u32 \<times> nat \<Rightarrow> u32 \<times> nat \<Rightarrow> bool" where
  "pair_less fl a b = (hf_less fl (fst a) (fst b) \<or> hf_eq fl (fst a) (fst b) \<and> snd a < snd b)"

definition hf_clamp :: "hnsw_floats \<Rightarrow> u32 \<Rightarrow> u32" where
  "hf_clamp fl x =
     (if hf_less fl x (hf_neg_one fl) then hf_neg_one fl
      else if hf_less fl (hf_one fl) x then hf_one fl else x)"

definition cosine_dist :: "hnsw_floats \<Rightarrow> u32 list \<Rightarrow> u32 list \<Rightarrow> u32" where
  "cosine_dist fl a b =
     (let dot = fold (\<lambda>(x, y) s. hf_add fl s (hf_mul fl x y)) (zip a b) (hf_sum0 fl)
      in hf_sub fl (hf_one fl) (hf_clamp fl dot))"

definition hnsw_normalize :: "hnsw_floats \<Rightarrow> u32 list \<Rightarrow> u32 list option" where
  "hnsw_normalize fl v =
     (let norm = hf_sqrt fl (fold (\<lambda>x s. hf_add fl s (hf_mul fl x x)) v (hf_sum0 fl))
      in if hf_less fl norm (hf_eps fl) then None else Some (map (\<lambda>x. hf_div fl x norm) v))"

section \<open>State\<close>

record hnsw_node =
  hn_vector :: "u32 list"
  hn_key :: bytes
  hn_neighbours :: "nat list list"

record hnsw_index =
  hx_dim :: nat
  hx_m :: nat
  hx_m0 :: nat
  hx_ef_build :: nat
  hx_ef_search :: nat
  hx_nodes :: "hnsw_node list"
  hx_entry_point :: "nat option"
  hx_entry_level :: nat
  hx_rng :: u64

definition rng_new :: "u64 \<Rightarrow> u64" where
  "rng_new seed = seed XOR 0x123456789ABCDEF0"

definition next_f64 :: "hnsw_floats \<Rightarrow> u64 \<Rightarrow> u64 \<times> u64" where
  "next_f64 fl state =
     (let state1 = state * 6364136223846793005 + 1442695040888963407;
          mantissa = drop_bit 11 state1
      in (hf_minus_one64 fl (0x3FF0000000000000 OR mantissa), state1))"

definition hnsw_new :: "nat \<Rightarrow> nat \<Rightarrow> nat \<Rightarrow> nat \<Rightarrow> hnsw_index option" where
  "hnsw_new dim m ef_build ef_search =
     (if dim = 0 \<or> m < 2 then None
      else Some \<lparr>hx_dim = dim, hx_m = m, hx_m0 = m * 2, hx_ef_build = ef_build, hx_ef_search = ef_search,
                hx_nodes = [], hx_entry_point = None, hx_entry_level = 0, hx_rng = rng_new 42\<rparr>)"

definition hnsw_with_defaults :: "nat \<Rightarrow> hnsw_index option" where
  "hnsw_with_defaults dim = hnsw_new dim 16 200 50"

definition hnsw_len :: "hnsw_index \<Rightarrow> nat" where
  "hnsw_len h = length (hx_nodes h)"

definition hnsw_is_empty :: "hnsw_index \<Rightarrow> bool" where
  "hnsw_is_empty h = (hx_nodes h = [])"

text \<open>The random number is drawn before the level is compared, also at level 16.\<close>

function level_loop :: "hnsw_floats \<Rightarrow> nat \<Rightarrow> u64 \<Rightarrow> nat \<Rightarrow> nat \<times> u64" where
  "level_loop fl m state level =
     (let (x, state1) = next_f64 fl state
      in if hf_less64 fl x (hf_level_bound fl m) \<and> level < 16 then level_loop fl m state1 (level + 1)
         else (level, state1))"
  by pat_completeness auto
termination
  by (relation "measure (\<lambda>(fl, m, state, level). 16 - level)") auto

declare level_loop.simps [simp del]

definition random_level :: "hnsw_floats \<Rightarrow> hnsw_index \<Rightarrow> nat \<times> hnsw_index" where
  "random_level fl h =
     (let (level, state) = level_loop fl (hx_m h) (hx_rng h) 0 in (level, h\<lparr>hx_rng := state\<rparr>))"

section \<open>Beam search\<close>

definition node_dist :: "hnsw_floats \<Rightarrow> hnsw_node list \<Rightarrow> nat \<Rightarrow> nat \<Rightarrow> u32" where
  "node_dist fl ns a b = cosine_dist fl (hn_vector (ns ! a)) (hn_vector (ns ! b))"

definition vec_dist :: "hnsw_floats \<Rightarrow> hnsw_node list \<Rightarrow> nat \<Rightarrow> u32 list \<Rightarrow> u32" where
  "vec_dist fl ns node v = cosine_dist fl (hn_vector (ns ! node)) v"

definition get_layer_neighbours :: "hnsw_node list \<Rightarrow> nat \<Rightarrow> nat \<Rightarrow> nat list" where
  "get_layer_neighbours ns node layer =
     (if layer < length (hn_neighbours (ns ! node)) then hn_neighbours (ns ! node) ! layer else [])"

type_synonym dist_heap = "(u32 \<times> nat) list"

definition heap_max :: "hnsw_floats \<Rightarrow> dist_heap \<Rightarrow> u32 \<times> nat" where
  "heap_max fl xs = fold (\<lambda>x best. if pair_less fl best x then x else best) (tl xs) (hd xs)"

definition heap_min :: "hnsw_floats \<Rightarrow> dist_heap \<Rightarrow> u32 \<times> nat" where
  "heap_min fl xs = fold (\<lambda>x best. if pair_less fl x best then x else best) (tl xs) (hd xs)"

type_synonym beam_state = "nat list \<times> dist_heap \<times> dist_heap" \<comment> \<open>visited, candidates, results\<close>

text \<open>
  One unvisited neighbour, and the loop over them. The distance is looked up after the neighbour is
  marked visited; a dangling index panics there.
\<close>

definition visit_one :: "hnsw_floats \<Rightarrow> (nat \<Rightarrow> u32) \<Rightarrow> nat \<Rightarrow> nat \<Rightarrow> beam_state \<Rightarrow> beam_state" where
  "visit_one fl dist ef nb st =
     (case st of (visited, cands, results) \<Rightarrow>
        (let nb_d = dist nb;
             worst = (if results = [] then hf_fmax fl else fst (heap_max fl results))
         in if hf_less fl nb_d worst \<or> length results < ef
            then (let results1 = (nb_d, nb) # results
                  in (nb # visited, (nb_d, nb) # cands,
                      if length results1 > ef then remove1 (heap_max fl results1) results1 else results1))
            else (nb # visited, cands, results)))"

fun visit :: "hnsw_floats \<Rightarrow> (nat \<Rightarrow> u32) \<Rightarrow> nat \<Rightarrow> nat \<Rightarrow> nat list \<Rightarrow> beam_state \<Rightarrow> beam_state option" where
  "visit fl dist n ef [] st = Some st"
| "visit fl dist n ef (nb # nbs) st =
     (if nb \<in> set (fst st) then visit fl dist n ef nbs st
      else if nb \<ge> n then None
      else visit fl dist n ef nbs (visit_one fl dist ef nb st))"

definition open_nodes :: "nat \<Rightarrow> beam_state \<Rightarrow> nat" where
  "open_nodes n st = card ({..<n} - set (fst st)) + length (fst (snd st))"

lemma visit_one_open:
  assumes "nb < n" "nb \<notin> set (fst st)"
  shows "open_nodes n (visit_one fl dist ef nb st) \<le> open_nodes n st"
proof -
  obtain visited cands results where st: "st = (visited, cands, results)" by (cases st)
  let ?open = "{..<n} - set visited"
  have "Suc (card (?open - {nb})) = card ?open" using assms st by (intro card_Suc_Diff1) auto
  moreover have "set (fst (visit_one fl dist ef nb st)) = insert nb (set visited)"
    "length (fst (snd (visit_one fl dist ef nb st))) \<le> Suc (length cands)"
    by (simp_all add: visit_one_def st Let_def)
  moreover have "{..<n} - insert nb (set visited) = ?open - {nb}" by blast
  ultimately show ?thesis unfolding open_nodes_def by (simp add: st)
qed

lemma visit_open: "visit fl dist n ef nbs st = Some st' \<Longrightarrow> open_nodes n st' \<le> open_nodes n st"
proof (induction nbs arbitrary: st)
  case (Cons nb nbs)
  show ?case
  proof (cases "nb \<in> set (fst st)")
    case False
    with Cons.prems have "nb < n" "visit fl dist n ef nbs (visit_one fl dist ef nb st) = Some st'"
      by (auto split: if_splits)
    with Cons.IH visit_one_open [OF _ False] show ?thesis by (meson le_trans)
  qed (use Cons in simp)
qed simp

lemma heap_min_mem: "xs \<noteq> [] \<Longrightarrow> heap_min fl xs \<in> set xs"
proof -
  have "fold (\<lambda>x best. if pair_less fl x best then x else best) ys b \<in> insert b (set ys)" for ys b
    by (induction ys arbitrary: b) auto
  from this [of "tl xs" "hd xs"] show "xs \<noteq> [] \<Longrightarrow> heap_min fl xs \<in> set xs"
    by (cases xs) (auto simp: heap_min_def)
qed

lemma heap_max_mem: "xs \<noteq> [] \<Longrightarrow> heap_max fl xs \<in> set xs"
proof -
  have "fold (\<lambda>x best. if pair_less fl best x then x else best) ys b \<in> insert b (set ys)" for ys b
    by (induction ys arbitrary: b) auto
  from this [of "tl xs" "hd xs"] show "xs \<noteq> [] \<Longrightarrow> heap_max fl xs \<in> set xs"
    by (cases xs) (auto simp: heap_max_def)
qed

function beam_loop :: "hnsw_floats \<Rightarrow> (nat \<Rightarrow> u32) \<Rightarrow> hnsw_node list \<Rightarrow> nat \<Rightarrow> nat \<Rightarrow> beam_state \<Rightarrow> dist_heap option" where
  "beam_loop fl dist ns ef layer (visited, cands, results) =
     (if cands = [] then Some results
      else (let c = heap_min fl cands; cands1 = remove1 c cands
            in if results \<noteq> [] \<and> ord_gt fl (fst c) (fst (heap_max fl results)) \<and> length results \<ge> ef then Some results
               else (case visit fl dist (length ns) ef (get_layer_neighbours ns (snd c) layer) (visited, cands1, results) of
                       None \<Rightarrow> None
                     | Some st \<Rightarrow> beam_loop fl dist ns ef layer st)))"
  by pat_completeness auto
termination
proof (relation "measure (\<lambda>(fl, dist, ns, ef, layer, st). open_nodes (length ns) st)", simp)
  fix fl dist and ns :: "hnsw_node list" and ef layer :: nat and visited and cands results :: dist_heap and c cands1 st
  assume "cands \<noteq> []" "c = heap_min fl cands" "cands1 = remove1 c cands"
    and v: "visit fl dist (length ns) ef (get_layer_neighbours ns (snd c) layer) (visited, cands1, results) = Some st"
  then have "length cands = Suc (length cands1)"
    using heap_min_mem [of cands fl] by (simp add: length_remove1 Suc_pred length_pos_if_in_set)
  with visit_open [OF v] show "((fl, dist, ns, ef, layer, st), fl, dist, ns, ef, layer, visited, cands, results)
      \<in> measure (\<lambda>(fl, dist, ns, ef, layer, st). open_nodes (length ns) st)"
    by (simp add: open_nodes_def)
qed

declare beam_loop.simps [simp del]

definition search_layer ::
  "hnsw_floats \<Rightarrow> (dist_heap \<Rightarrow> dist_heap) \<Rightarrow> hnsw_node list \<Rightarrow> (nat \<Rightarrow> u32) \<Rightarrow> nat \<Rightarrow> nat \<Rightarrow> nat \<Rightarrow> dist_heap option" where
  "search_layer fl order ns dist ep ef layer =
     (case beam_loop fl dist ns ef layer ([ep], [(dist ep, ep)], [(dist ep, ep)]) of
        None \<Rightarrow> None
      | Some results \<Rightarrow> Some (sort_by (\<lambda>a b. hf_less fl (fst a) (fst b)) (order results)))"

definition search_layer_node ::
  "hnsw_floats \<Rightarrow> (dist_heap \<Rightarrow> dist_heap) \<Rightarrow> hnsw_node list \<Rightarrow> nat \<Rightarrow> nat \<Rightarrow> nat \<Rightarrow> nat \<Rightarrow> dist_heap option" where
  "search_layer_node fl order ns query ep ef layer =
     (if query \<ge> length ns \<or> ep \<ge> length ns then None
      else search_layer fl order ns (node_dist fl ns query) ep ef layer)"

definition search_layer_vec ::
  "hnsw_floats \<Rightarrow> (dist_heap \<Rightarrow> dist_heap) \<Rightarrow> hnsw_node list \<Rightarrow> u32 list \<Rightarrow> nat \<Rightarrow> nat \<Rightarrow> nat \<Rightarrow> dist_heap option" where
  "search_layer_vec fl order ns query_vec ep ef layer =
     (if ep \<ge> length ns then None
      else search_layer fl order ns (\<lambda>nb. vec_dist fl ns nb query_vec) ep ef layer)"

text \<open>The greedy descent through the given layers.\<close>

fun descend :: "(nat \<Rightarrow> nat \<Rightarrow> dist_heap option) \<Rightarrow> nat list \<Rightarrow> nat \<Rightarrow> nat option" where
  "descend search [] ep = Some ep"
| "descend search (lyr # lyrs) ep =
     (case search ep lyr of
        None \<Rightarrow> None
      | Some cands \<Rightarrow> descend search lyrs (case cands of [] \<Rightarrow> ep | (d, c) # rest \<Rightarrow> c))"

section \<open>Insertion\<close>

fun select_loop :: "hnsw_floats \<Rightarrow> hnsw_node list \<Rightarrow> nat \<Rightarrow> nat \<Rightarrow> dist_heap \<Rightarrow> nat list \<Rightarrow> nat list" where
  "select_loop fl ns query m [] selected = selected"
| "select_loop fl ns query m ((dist, idx) # candidates) selected =
     (if idx = query then select_loop fl ns query m candidates selected
      else if length selected \<ge> m then selected
      else if \<forall>s \<in> set selected. \<not> hf_less fl (cosine_dist fl (hn_vector (ns ! idx)) (hn_vector (ns ! s))) dist
      then select_loop fl ns query m candidates (selected @ [idx])
      else select_loop fl ns query m candidates selected)"

definition select_neighbours_heuristic :: "hnsw_floats \<Rightarrow> hnsw_node list \<Rightarrow> nat \<Rightarrow> dist_heap \<Rightarrow> nat \<Rightarrow> nat list" where
  "select_neighbours_heuristic fl ns query candidates m = select_loop fl ns query m candidates []"

definition prune :: "hnsw_floats \<Rightarrow> hnsw_node list \<Rightarrow> nat \<Rightarrow> nat \<Rightarrow> nat \<Rightarrow> nat list" where
  "prune fl ns node layer m_max =
     (let current = hn_neighbours (ns ! node) ! layer;
          cands = sort_by (\<lambda>a b. hf_less fl (fst a) (fst b)) (map (\<lambda>nb. (node_dist fl ns node nb, nb)) current)
      in select_neighbours_heuristic fl ns node cands m_max)"

definition set_layer :: "nat \<Rightarrow> nat \<Rightarrow> nat list \<Rightarrow> hnsw_node list \<Rightarrow> hnsw_node list" where
  "set_layer node layer nbs ns =
     ns[node := (ns ! node)\<lparr>hn_neighbours := (hn_neighbours (ns ! node))[layer := nbs]\<rparr>]"

definition pad_layers :: "nat \<Rightarrow> nat list list \<Rightarrow> nat list list" where
  "pad_layers lyr nbs = nbs @ replicate (lyr + 1 - length nbs) []"

definition hnsw_link :: "hnsw_floats \<Rightarrow> nat \<Rightarrow> nat \<Rightarrow> nat \<Rightarrow> nat \<Rightarrow> hnsw_node list \<Rightarrow> hnsw_node list" where
  "hnsw_link fl new_idx lyr m_max nb ns =
     (let ns1 = ns[nb := (ns ! nb)\<lparr>hn_neighbours := pad_layers lyr (hn_neighbours (ns ! nb))\<rparr>];
          nbs = hn_neighbours (ns1 ! nb) ! lyr;
          ns2 = (if new_idx \<in> set nbs then ns1 else set_layer nb lyr (nbs @ [new_idx]) ns1)
      in if length (hn_neighbours (ns2 ! nb) ! lyr) > m_max
         then set_layer nb lyr (prune fl ns2 nb lyr m_max) ns2 else ns2)"

fun insert_layers ::
  "hnsw_floats \<Rightarrow> (dist_heap \<Rightarrow> dist_heap) \<Rightarrow> nat \<Rightarrow> nat \<Rightarrow> nat \<Rightarrow> nat \<Rightarrow> nat list \<Rightarrow> hnsw_node list \<Rightarrow> nat \<Rightarrow> hnsw_node list option" where
  "insert_layers fl order m m0 ef_build new_idx [] ns ep = Some ns"
| "insert_layers fl order m m0 ef_build new_idx (lyr # lyrs) ns ep =
     (let m_max = (if lyr = 0 then m0 else m)
      in case search_layer_node fl order ns new_idx ep ef_build lyr of
           None \<Rightarrow> None
         | Some cands \<Rightarrow>
             (let selected = select_neighbours_heuristic fl ns new_idx cands m_max;
                  ns1 = set_layer new_idx lyr selected ns;
                  ns2 = fold (hnsw_link fl new_idx lyr m_max) selected ns1
              in insert_layers fl order m m0 ef_build new_idx lyrs ns2 (case cands of [] \<Rightarrow> ep | (d, c) # rest \<Rightarrow> c)))"

datatype hnsw_error =
    Dimension_Mismatch nat nat
  | Zero_Norm
  | Bad_Hnsw_Magic
  | Hnsw_Eof_U32
  | Hnsw_Eof_U8
  | Hnsw_Eof_Key
  | Hnsw_Eof_Vector

definition hnsw_add ::
  "hnsw_floats \<Rightarrow> (dist_heap \<Rightarrow> dist_heap) \<Rightarrow> bytes \<Rightarrow> u32 list \<Rightarrow> hnsw_index \<Rightarrow> (hnsw_error + hnsw_index) option" where
  "hnsw_add fl order key vector h =
     (if length vector \<noteq> hx_dim h then Some (Inl (Dimension_Mismatch (hx_dim h) (length vector)))
      else (case hnsw_normalize fl vector of
              None \<Rightarrow> Some (Inl Zero_Norm)
            | Some v \<Rightarrow>
                (let new_idx = length (hx_nodes h);
                     (level, h1) = random_level fl h;
                     node = \<lparr>hn_vector = v, hn_key = key, hn_neighbours = replicate (level + 1) []\<rparr>;
                     h2 = h1\<lparr>hx_nodes := hx_nodes h1 @ [node]\<rparr>
                 in case hx_entry_point h2 of
                      None \<Rightarrow> Some (Inr (h2\<lparr>hx_entry_point := Some new_idx, hx_entry_level := level\<rparr>))
                    | Some ep0 \<Rightarrow>
                        (let ep_level = hx_entry_level h2
                         in case descend (\<lambda>ep lyr. search_layer_node fl order (hx_nodes h2) new_idx ep 1 lyr)
                                   (rev [level + 1..<ep_level + 1]) ep0 of
                              None \<Rightarrow> None
                            | Some ep \<Rightarrow>
                                (case insert_layers fl order (hx_m h2) (hx_m0 h2) (hx_ef_build h2) new_idx
                                        (rev [0..<min level ep_level + 1]) (hx_nodes h2) ep of
                                   None \<Rightarrow> None
                                 | Some ns \<Rightarrow>
                                     (let h3 = h2\<lparr>hx_nodes := ns\<rparr>
                                      in Some (Inr (if level > ep_level
                                           then h3\<lparr>hx_entry_point := Some new_idx, hx_entry_level := level\<rparr> else h3))))))))"

section \<open>Queries\<close>

record hnsw_result =
  hr_key :: bytes
  hr_distance :: u32
  hr_rank :: nat

definition search_with_ef ::
  "hnsw_floats \<Rightarrow> (dist_heap \<Rightarrow> dist_heap) \<Rightarrow> hnsw_index \<Rightarrow> u32 list \<Rightarrow> nat \<Rightarrow> nat \<Rightarrow> hnsw_result list option" where
  "search_with_ef fl order h query k ef_override =
     (if hx_nodes h = [] \<or> k = 0 \<or> length query \<noteq> hx_dim h then Some []
      else (case hnsw_normalize fl query of
              None \<Rightarrow> Some []
            | Some qv \<Rightarrow>
                (case hx_entry_point h of
                   None \<Rightarrow> None
                 | Some ep0 \<Rightarrow>
                     (case descend (\<lambda>ep lyr. search_layer_vec fl order (hx_nodes h) qv ep 1 lyr)
                             (rev [1..<hx_entry_level h + 1]) ep0 of
                        None \<Rightarrow> None
                      | Some ep \<Rightarrow>
                          (case search_layer_vec fl order (hx_nodes h) qv ep (max ef_override k) 0 of
                             None \<Rightarrow> None
                           | Some cands \<Rightarrow>
                               Some (map (\<lambda>(rank, (dist, idx)).
                                   \<lparr>hr_key = hn_key (hx_nodes h ! idx), hr_distance = dist, hr_rank = rank\<rparr>)
                                 (enumerate 0 (take k (sort_by (\<lambda>a b. hf_less fl (fst a) (fst b)) cands)))))))))"

definition hnsw_search ::
  "hnsw_floats \<Rightarrow> (dist_heap \<Rightarrow> dist_heap) \<Rightarrow> hnsw_index \<Rightarrow> u32 list \<Rightarrow> nat \<Rightarrow> hnsw_result list option" where
  "hnsw_search fl order h query k = search_with_ef fl order h query k (hx_ef_search h)"

end
