(* ===== verification/Hnsw_Search.thy ===== *)
theory Hnsw_Search
  imports Hnsw
begin

text \<open>
  The invariant of the vector index, that insertion keeps it and never panics, and what a search
  returns. No law of floating point is needed for these, except where results are said to be
  ordered: there the comparison has to be a strict weak order on the distances at hand, which it is
  unless one of them is not a number.
\<close>

section \<open>The invariant\<close>

definition layer_ok :: "nat \<Rightarrow> nat \<Rightarrow> nat \<Rightarrow> nat list \<Rightarrow> bool" where
  "layer_ok n i bound nbs \<longleftrightarrow> distinct nbs \<and> i \<notin> set nbs \<and> set nbs \<subseteq> {..<n} \<and> length nbs \<le> bound"

definition node_ok :: "nat \<Rightarrow> nat \<Rightarrow> nat \<Rightarrow> nat \<Rightarrow> nat \<Rightarrow> hnsw_node \<Rightarrow> bool" where
  "node_ok dim m m0 n i node \<longleftrightarrow>
     length (hn_vector node) = dim \<and> hn_neighbours node \<noteq> [] \<and> length (hn_neighbours node) \<le> 17 \<and>
     (\<forall>l < length (hn_neighbours node). layer_ok n i (if l = 0 then m0 else m) (hn_neighbours node ! l))"

definition nodes_ok :: "nat \<Rightarrow> nat \<Rightarrow> nat \<Rightarrow> hnsw_node list \<Rightarrow> bool" where
  "nodes_ok dim m m0 ns \<longleftrightarrow> (\<forall>i < length ns. node_ok dim m m0 (length ns) i (ns ! i))"

definition hnsw_ok :: "hnsw_index \<Rightarrow> bool" where
  "hnsw_ok h \<longleftrightarrow>
     nodes_ok (hx_dim h) (hx_m h) (hx_m0 h) (hx_nodes h) \<and>
     (case hx_entry_point h of
        None \<Rightarrow> hx_nodes h = [] \<and> hx_entry_level h = 0
      | Some ep \<Rightarrow> ep < length (hx_nodes h) \<and> hx_entry_level h < length (hn_neighbours (hx_nodes h ! ep)))"

lemma nodes_ok_neighbours:
  "nodes_ok dim m m0 ns \<Longrightarrow> i < length ns \<Longrightarrow> set (get_layer_neighbours ns i layer) \<subseteq> {..<length ns}"
  by (auto simp: nodes_ok_def node_ok_def layer_ok_def get_layer_neighbours_def)

section \<open>Beam search\<close>

definition beam_inv :: "nat \<Rightarrow> (nat \<Rightarrow> u32) \<Rightarrow> nat \<Rightarrow> beam_state \<Rightarrow> bool" where
  "beam_inv n dist ef st \<longleftrightarrow>
     (case st of (visited, cands, results) \<Rightarrow>
        set visited \<subseteq> {..<n} \<and> snd ` set cands \<subseteq> set visited \<and>
        distinct (map snd results) \<and> snd ` set results \<subseteq> set visited \<and> (\<forall>x \<in> set results. fst x = dist (snd x)) \<and>
        results \<noteq> [] \<and> length results \<le> max ef 1)"

lemma remove1_heap:
  assumes "distinct (map snd xs)"
  shows "distinct (map snd (remove1 x xs))" "set (remove1 x xs) \<subseteq> set xs"
  using assms inj_on_subset [of snd "set xs" "set xs - {x}"] by (auto simp: distinct_map dest: notin_set_remove1)

lemma visit_one_inv:
  assumes "beam_inv n dist ef st" "nb < n" "nb \<notin> set (fst st)"
  shows "beam_inv n dist ef (visit_one fl dist ef nb st)"
proof -
  obtain visited cands results where st: "st = (visited, cands, results)" by (cases st)
  let ?r = "(dist nb, nb) # results"
  have r: "distinct (map snd ?r)" "snd ` set ?r \<subseteq> insert nb (set visited)" "\<forall>x \<in> set ?r. fst x = dist (snd x)"
    using assms by (auto simp: beam_inv_def st)
  have mem: "heap_max fl ?r \<in> set ?r" by (rule heap_max_mem) simp
  have "length (remove1 (heap_max fl ?r) ?r) = length results"
    using mem length_remove1 [of "heap_max fl ?r" ?r] by (simp only: if_True list.size diff_Suc_1 add_Suc_right add_0_right One_nat_def)
  moreover have "distinct (map snd (remove1 (heap_max fl ?r) ?r))" "set (remove1 (heap_max fl ?r) ?r) \<subseteq> set ?r"
    using remove1_heap [OF r(1)] by blast+
  ultimately have "beam_inv n dist ef (nb # visited, (dist nb, nb) # cands, if length ?r > ef then remove1 (heap_max fl ?r) ?r else ?r)"
    using assms r unfolding beam_inv_def st by (auto simp del: remove1.simps) (fastforce simp del: remove1.simps)+
  moreover have "beam_inv n dist ef (nb # visited, cands, results)"
    using assms by (auto simp: beam_inv_def st)
  ultimately show ?thesis by (simp add: visit_one_def st Let_def del: remove1.simps)
qed

lemma visit_inv:
  assumes "beam_inv n dist ef st" "set nbs \<subseteq> {..<n}"
  shows "\<exists>st'. visit fl dist n ef nbs st = Some st' \<and> beam_inv n dist ef st' \<and> set (fst st') = set (fst st) \<union> set nbs"
  using assms
proof (induction nbs arbitrary: st)
  case (Cons nb nbs)
  show ?case
  proof (cases "nb \<in> set (fst st)")
    case True
    with Cons show ?thesis by (fastforce simp: insert_absorb)
  next
    case False
    have "set (fst (visit_one fl dist ef nb st)) = insert nb (set (fst st))"
      by (simp add: visit_one_def Let_def split: prod.splits)
    with False Cons.IH [of "visit_one fl dist ef nb st"] visit_one_inv [OF Cons.prems(1) _ False] Cons.prems(2) show ?thesis
      by (auto simp: not_le)
  qed
qed simp

lemma beam_inv_pop:
  assumes "beam_inv n dist ef (visited, cands, results)"
  shows "beam_inv n dist ef (visited, remove1 c cands, results)"
  using assms set_remove1_subset [of c cands] by (auto simp: beam_inv_def)

lemma beam_loop_inv:
  assumes "beam_inv (length ns) dist ef st" "nodes_ok dim m m0 ns"
  shows "\<exists>results. beam_loop fl dist ns ef layer st = Some results \<and> results \<noteq> [] \<and> length results \<le> max ef 1 \<and>
    distinct (map snd results) \<and> (\<forall>x \<in> set results. fst x = dist (snd x) \<and> snd x < length ns)"
  using assms
proof (induction fl dist ns ef layer st rule: beam_loop.induct)
  case (1 fl dist ns ef layer visited cands results)
  let ?c = "heap_min fl cands"
  have fin: "results \<noteq> [] \<and> length results \<le> max ef 1 \<and> distinct (map snd results) \<and>
      (\<forall>x \<in> set results. fst x = dist (snd x) \<and> snd x < length ns)"
    using "1.prems"(1) by (auto simp: beam_inv_def)
  show ?case
  proof (cases "cands = [] \<or> results \<noteq> [] \<and> ord_gt fl (fst ?c) (fst (heap_max fl results)) \<and> length results \<ge> ef")
    case True
    then show ?thesis using fin by (auto simp: beam_loop.simps [of fl dist ns ef layer visited] Let_def)
  next
    case False
    then have "snd ?c < length ns"
      using heap_min_mem [of cands fl] "1.prems"(1) by (auto simp: beam_inv_def)
    from visit_inv [OF beam_inv_pop [OF "1.prems"(1), of ?c] nodes_ok_neighbours [OF "1.prems"(2) this], of fl layer]
    obtain st' where st': "visit fl dist (length ns) ef (get_layer_neighbours ns (snd ?c) layer) (visited, remove1 ?c cands, results) = Some st'"
      "beam_inv (length ns) dist ef st'" by blast
    with False "1.IH" [OF _ refl refl _ st'(1,2)] "1.prems"(2) show ?thesis
      by (auto simp: beam_loop.simps [of fl dist ns ef layer visited] Let_def)
  qed
qed

text \<open>A list of candidates as a search of a layer hands them out.\<close>

definition cands_ok :: "nat \<Rightarrow> (nat \<Rightarrow> u32) \<Rightarrow> dist_heap \<Rightarrow> bool" where
  "cands_ok n dist cands \<longleftrightarrow>
     cands \<noteq> [] \<and> distinct (map snd cands) \<and> (\<forall>x \<in> set cands. fst x = dist (snd x) \<and> snd x < n)"

lemma cands_ok_mset: "mset xs = mset ys \<Longrightarrow> cands_ok n dist xs = cands_ok n dist ys"
proof -
  assume ms: "mset xs = mset ys"
  then have "mset (map snd xs) = mset (map snd ys)" by simp
  then have "distinct (map snd xs) = distinct (map snd ys)" by (rule mset_eq_imp_distinct_iff)
  moreover have "set xs = set ys" "xs = [] \<longleftrightarrow> ys = []" using ms mset_eq_setD by auto
  ultimately show ?thesis by (simp add: cands_ok_def)
qed

lemma search_layer_ok:
  assumes "ep < length ns" "nodes_ok dim m m0 ns" "\<And>xs. mset (order xs) = mset xs"
  shows "\<exists>cands. search_layer fl order ns dist ep ef layer = Some cands \<and> cands_ok (length ns) dist cands \<and> length cands \<le> max ef 1"
proof -
  have "beam_inv (length ns) dist ef ([ep], [(dist ep, ep)], [(dist ep, ep)])"
    using assms(1) by (simp add: beam_inv_def)
  from beam_loop_inv [OF this assms(2), of fl layer] obtain results where r:
    "beam_loop fl dist ns ef layer ([ep], [(dist ep, ep)], [(dist ep, ep)]) = Some results"
    "cands_ok (length ns) dist results" "length results \<le> max ef 1"
    by (auto simp: cands_ok_def)
  let ?out = "sort_by (\<lambda>a b. hf_less fl (fst a) (fst b)) (order results)"
  have ms: "mset ?out = mset results" by (simp add: assms(3))
  have "length ?out = length results" using ms by (rule mset_eq_length)
  with r cands_ok_mset [OF ms] show ?thesis by (simp add: search_layer_def)
qed

lemma descend_ok:
  assumes "\<And>ep lyr. ep < n \<Longrightarrow> \<exists>cands. search ep lyr = Some cands \<and> cands_ok n dist cands" "ep < n"
  shows "\<exists>ep'. descend search lyrs ep = Some ep' \<and> ep' < n"
  using assms(2)
proof (induction lyrs arbitrary: ep)
  case (Cons lyr lyrs)
  from assms(1) [OF Cons.prems, of lyr] obtain cands where c: "search ep lyr = Some cands" "cands_ok n dist cands" by blast
  then obtain d c rest where "cands = (d, c) # rest" "c < n" by (cases cands) (auto simp: cands_ok_def)
  with c Cons.IH [of c] show ?case by simp
qed simp

lemma search_layer_vec_ok:
  assumes "nodes_ok dim m m0 ns" "ep < length ns" "\<And>xs. mset (order xs) = mset xs"
  shows "\<exists>cands. search_layer_vec fl order ns qv ep ef lyr = Some cands \<and>
    cands_ok (length ns) (\<lambda>i. vec_dist fl ns i qv) cands \<and> length cands \<le> max ef 1"
  using search_layer_ok [OF assms(2,1,3), of fl "\<lambda>i. vec_dist fl ns i qv" ef lyr] assms(2) by (simp add: search_layer_vec_def)

lemma search_layer_node_ok:
  assumes "nodes_ok dim m m0 ns" "q < length ns" "ep < length ns" "\<And>xs. mset (order xs) = mset xs"
  shows "\<exists>cands. search_layer_node fl order ns q ep ef lyr = Some cands \<and> cands_ok (length ns) (node_dist fl ns q) cands"
  using search_layer_ok [OF assms(3,1,4), of fl "node_dist fl ns q" ef lyr] assms(2,3) by (auto simp: search_layer_node_def)

lemma descend_node_ok:
  assumes "nodes_ok dim m m0 ns" "q < length ns" "ep < length ns" "\<And>xs. mset (order xs) = mset xs"
  shows "\<exists>ep'. descend (\<lambda>ep lyr. search_layer_node fl order ns q ep 1 lyr) lyrs ep = Some ep' \<and> ep' < length ns"
  using assms(3) by (intro descend_ok [where dist = "node_dist fl ns q"] search_layer_node_ok [OF assms(1,2) _ assms(4)])

lemma descend_vec_ok:
  assumes "nodes_ok dim m m0 ns" "ep < length ns" "\<And>xs. mset (order xs) = mset xs"
  shows "\<exists>ep'. descend (\<lambda>ep lyr. search_layer_vec fl order ns qv ep 1 lyr) lyrs ep = Some ep' \<and> ep' < length ns"
  using assms(2) search_layer_vec_ok [OF assms(1) _ assms(3), of _ fl qv 1]
  by (intro descend_ok [where dist = "\<lambda>i. vec_dist fl ns i qv"]) blast+

section \<open>Insertion\<close>

lemma select_loop_ok:
  assumes "distinct (map snd cands)" "distinct sel" "set sel \<inter> snd ` set cands = {}" "query \<notin> set sel" "length sel \<le> m"
  shows "distinct (select_loop fl ns query m cands sel) \<and> query \<notin> set (select_loop fl ns query m cands sel) \<and>
    set (select_loop fl ns query m cands sel) \<subseteq> set sel \<union> snd ` set cands \<and> length (select_loop fl ns query m cands sel) \<le> m"
  using assms
proof (induction cands arbitrary: sel)
  case (Cons x cands)
  obtain dist idx where x: "x = (dist, idx)" by (cases x)
  have 1: "distinct (map snd cands)" "set sel \<inter> snd ` set cands = {}" "set (sel @ [idx]) \<inter> snd ` set cands = {}"
    "distinct (sel @ [idx])"
    using Cons.prems(1-3) by (auto simp: x)
  consider "select_loop fl ns query m (x # cands) sel = select_loop fl ns query m cands sel"
    | "select_loop fl ns query m (x # cands) sel = sel"
    | "idx \<noteq> query" "length sel < m" "select_loop fl ns query m (x # cands) sel = select_loop fl ns query m cands (sel @ [idx])"
    by (simp add: x) (meson not_le)
  then show ?case
  proof cases
    case 1
    with Cons.IH [OF \<open>distinct (map snd cands)\<close> Cons.prems(2) \<open>set sel \<inter> snd ` set cands = {}\<close> Cons.prems(4,5)]
    show ?thesis by (simp only: list.set image_insert) blast
  next
    case 2
    with Cons.prems show ?thesis by (simp only:) blast
  next
    case 3
    have "query \<notin> set (sel @ [idx])" "length (sel @ [idx]) \<le> m" using 3(1,2) Cons.prems(4) by auto
    with Cons.IH [OF 1(1,4,3)] 3(3) show ?thesis by (auto simp: x)
  qed
qed simp

lemma select_neighbours_ok:
  assumes "distinct (map snd cands)" "snd ` set cands \<subseteq> {..<n}"
  shows "layer_ok n query m (select_neighbours_heuristic fl ns query cands m)"
  using select_loop_ok [of cands "[]" query m fl ns] assms
  unfolding layer_ok_def select_neighbours_heuristic_def by (simp, meson subset_trans)

text \<open>What insertion leaves alone: vectors and keys; lists of layers only grow.\<close>

definition same_data :: "hnsw_node list \<Rightarrow> hnsw_node list \<Rightarrow> bool" where
  "same_data ns ns' \<longleftrightarrow> length ns' = length ns \<and>
     (\<forall>i < length ns. hn_vector (ns' ! i) = hn_vector (ns ! i) \<and> hn_key (ns' ! i) = hn_key (ns ! i) \<and>
        length (hn_neighbours (ns ! i)) \<le> length (hn_neighbours (ns' ! i)))"

lemma same_data_refl: "same_data ns ns"
  by (simp add: same_data_def)

lemma same_data_trans: "same_data a b \<Longrightarrow> same_data b c \<Longrightarrow> same_data a c"
  unfolding same_data_def by (metis le_trans)

text \<open>Replacing one layer of one node by a well-formed list.\<close>

definition with_layer :: "nat \<Rightarrow> nat \<Rightarrow> nat list \<Rightarrow> hnsw_node list \<Rightarrow> hnsw_node list" where
  "with_layer node lyr nbs ns =
     ns[node := (ns ! node)\<lparr>hn_neighbours := (pad_layers lyr (hn_neighbours (ns ! node)))[lyr := nbs]\<rparr>]"

lemma with_layer_ok:
  assumes "nodes_ok dim m m0 ns" "node < length ns" "lyr \<le> 16" "layer_ok (length ns) node (if lyr = 0 then m0 else m) nbs"
  shows "nodes_ok dim m m0 (with_layer node lyr nbs ns)" "same_data ns (with_layer node lyr nbs ns)"
proof -
  let ?old = "hn_neighbours (ns ! node)" and ?new = "(pad_layers lyr (hn_neighbours (ns ! node)))[lyr := nbs]"
  have old: "length (hn_vector (ns ! node)) = dim" "?old \<noteq> []" "length ?old \<le> 17"
    "\<And>l. l < length ?old \<Longrightarrow> layer_ok (length ns) node (if l = 0 then m0 else m) (?old ! l)"
    using assms(1,2) by (auto simp: nodes_ok_def node_ok_def)
  have len: "length ?new = max (length ?old) (lyr + 1)" by (simp add: pad_layers_def)
  have "layer_ok (length ns) node (if l = 0 then m0 else m) (?new ! l)" if "l < length ?new" for l
  proof (cases "l = lyr")
    case True
    with assms(4) that show ?thesis by simp
  next
    case False
    show ?thesis
    proof (cases "l < length ?old")
      case True
      with old(4) False show ?thesis by (simp add: pad_layers_def nth_append)
    next
      case beyond: False
      then have "?new ! l = []" using False that by (simp add: pad_layers_def nth_append)
      then show ?thesis by (simp add: layer_ok_def)
    qed
  qed
  then have "node_ok dim m m0 (length ns) node ((ns ! node)\<lparr>hn_neighbours := ?new\<rparr>)"
    using old(1,3) len assms(3) unfolding node_ok_def by (auto simp: pad_layers_def)
  then show "nodes_ok dim m m0 (with_layer node lyr nbs ns)"
    using assms(1,2) by (auto simp: nodes_ok_def with_layer_def nth_list_update)
  show "same_data ns (with_layer node lyr nbs ns)"
    using len assms(2) by (auto simp: same_data_def with_layer_def nth_list_update)
qed

lemma link_with_layer:
  fixes lyr new_idx nb :: nat and ns :: "hnsw_node list"
  assumes "nb < length ns"
  defines "nbs \<equiv> pad_layers lyr (hn_neighbours (ns ! nb)) ! lyr"
  defines "nbs1 \<equiv> if new_idx \<in> set nbs then nbs else nbs @ [new_idx]"
  shows "hnsw_link fl new_idx lyr m_max nb ns =
    with_layer nb lyr (if length nbs1 > m_max then prune fl (with_layer nb lyr nbs1 ns) nb lyr m_max else nbs1) ns"
proof -
  have lyr: "lyr < length (pad_layers lyr (hn_neighbours (ns ! nb)))" by (simp add: pad_layers_def)
  let ?ns1 = "ns[nb := (ns ! nb)\<lparr>hn_neighbours := pad_layers lyr (hn_neighbours (ns ! nb))\<rparr>]"
  have "hn_neighbours (?ns1 ! nb) ! lyr = nbs" using assms(1) by (simp add: nbs_def)
  moreover have "set_layer nb lyr xs ?ns1 = with_layer nb lyr xs ns" for xs
    using assms(1) by (simp add: set_layer_def with_layer_def)
  moreover have "?ns1 = with_layer nb lyr nbs ns"
    using lyr by (simp add: with_layer_def nbs_def)
  moreover have "hn_neighbours (with_layer nb lyr xs ns ! nb) ! lyr = xs" for xs
    using assms(1) lyr by (simp add: with_layer_def)
  moreover have "set_layer nb lyr ys (with_layer nb lyr xs ns) = with_layer nb lyr ys ns" for xs ys
    using assms(1) by (simp add: set_layer_def with_layer_def)
  ultimately show ?thesis
    by (auto simp: hnsw_link_def Let_def nbs1_def)
qed

lemma prune_ok:
  assumes "distinct (hn_neighbours (ns ! node) ! lyr)" "set (hn_neighbours (ns ! node) ! lyr) \<subseteq> {..<n}"
  shows "layer_ok n node m_max (prune fl ns node lyr m_max)"
proof -
  let ?nbs = "hn_neighbours (ns ! node) ! lyr"
  let ?c = "map (\<lambda>nb. (node_dist fl ns node nb, nb)) ?nbs" and ?lt = "\<lambda>a b. hf_less fl (fst a) (fst b)"
  have m: "mset (map snd (sort_by ?lt ?c)) = mset ?nbs" by (simp add: image_mset.compositionality comp_def)
  have "distinct (map snd (sort_by ?lt ?c))" using assms(1) mset_eq_imp_distinct_iff [OF m] by simp
  moreover have "snd ` set (sort_by ?lt ?c) \<subseteq> {..<n}" using assms(2) mset_eq_setD [OF m] by simp
  ultimately have "distinct (map snd (sort_by ?lt ?c))" "snd ` set (sort_by ?lt ?c) \<subseteq> {..<n}" .
  then show ?thesis unfolding prune_def Let_def by (rule select_neighbours_ok)
qed

lemma hnsw_link_ok:
  assumes "nodes_ok dim m m0 ns" "nb < length ns" "new_idx < length ns" "nb \<noteq> new_idx" "lyr \<le> 16"
  defines "m_max \<equiv> if lyr = 0 then m0 else m"
  shows "nodes_ok dim m m0 (hnsw_link fl new_idx lyr m_max nb ns)" "same_data ns (hnsw_link fl new_idx lyr m_max nb ns)"
proof -
  let ?nbs = "pad_layers lyr (hn_neighbours (ns ! nb)) ! lyr"
  let ?nbs1 = "if new_idx \<in> set ?nbs then ?nbs else ?nbs @ [new_idx]"
  have "layer_ok (length ns) nb m_max ?nbs"
    using assms(1,2) by (cases "lyr < length (hn_neighbours (ns ! nb))")
      (auto simp: nodes_ok_def node_ok_def pad_layers_def nth_append m_max_def layer_ok_def)
  then have 1: "distinct ?nbs1" "set ?nbs1 \<subseteq> {..<length ns}" "nb \<notin> set ?nbs1" using assms(3,4) by (auto simp: layer_ok_def)
  have "hn_neighbours (with_layer nb lyr ?nbs1 ns ! nb) ! lyr = ?nbs1"
    using assms(2) by (simp add: with_layer_def pad_layers_def)
  then have "layer_ok (length ns) nb m_max (prune fl (with_layer nb lyr ?nbs1 ns) nb lyr m_max)"
    using 1 by (intro prune_ok) simp_all
  with 1 have "layer_ok (length ns) nb m_max (if length ?nbs1 > m_max then prune fl (with_layer nb lyr ?nbs1 ns) nb lyr m_max else ?nbs1)"
    by (simp add: layer_ok_def)
  from with_layer_ok [OF assms(1,2,5) this [unfolded m_max_def]]
  show "nodes_ok dim m m0 (hnsw_link fl new_idx lyr m_max nb ns)" "same_data ns (hnsw_link fl new_idx lyr m_max nb ns)"
    unfolding link_with_layer [OF assms(2)] m_max_def by simp_all
qed

lemma hnsw_links_ok:
  assumes "nodes_ok dim m m0 ns" "layer_ok (length ns) new_idx b nbs" "new_idx < length ns" "lyr \<le> 16"
  shows "nodes_ok dim m m0 (fold (hnsw_link fl new_idx lyr (if lyr = 0 then m0 else m)) nbs ns) \<and>
    same_data ns (fold (hnsw_link fl new_idx lyr (if lyr = 0 then m0 else m)) nbs ns)"
  using assms
proof (induction nbs arbitrary: ns)
  case (Cons nb nbs)
  let ?ns = "hnsw_link fl new_idx lyr (if lyr = 0 then m0 else m) nb ns"
  have "nb < length ns" "nb \<noteq> new_idx" using Cons.prems(2) by (auto simp: layer_ok_def)
  note 1 = hnsw_link_ok [OF Cons.prems(1) this(1) Cons.prems(3) this(2) Cons.prems(4), of fl]
  have "length ?ns = length ns" using 1(2) by (simp add: same_data_def)
  with Cons.IH [OF 1(1)] Cons.prems(2-4) same_data_trans [OF 1(2)] show ?case by (simp add: layer_ok_def)
qed (simp add: same_data_refl)

lemma insert_layers_ok:
  assumes "nodes_ok dim m m0 ns" "ep < length ns" "new_idx < length ns"
    "\<forall>l \<in> set lyrs. l < length (hn_neighbours (ns ! new_idx))" "\<And>xs. mset (order xs) = mset xs"
  shows "\<exists>ns'. insert_layers fl order m m0 ef_build new_idx lyrs ns ep = Some ns' \<and> nodes_ok dim m m0 ns' \<and> same_data ns ns'"
  using assms(1-4)
proof (induction lyrs arbitrary: ns ep)
  case (Cons lyr lyrs)
  let ?m = "if lyr = 0 then m0 else m"
  have lyr: "lyr < length (hn_neighbours (ns ! new_idx))" "lyr \<le> 16"
    using Cons.prems(1,3,4) by (fastforce simp: nodes_ok_def node_ok_def)+
  from search_layer_ok [OF Cons.prems(2,1) assms(5), of fl "node_dist fl ns new_idx" ef_build lyr]
  obtain cands where c: "search_layer_node fl order ns new_idx ep ef_build lyr = Some cands"
    "cands_ok (length ns) (node_dist fl ns new_idx) cands"
    using Cons.prems(2,3) by (auto simp: search_layer_node_def)
  then obtain d e rest where e: "cands = (d, e) # rest" "e < length ns" by (cases cands) (auto simp: cands_ok_def)
  let ?sel = "select_neighbours_heuristic fl ns new_idx cands ?m"
  have sel: "layer_ok (length ns) new_idx ?m ?sel"
    using c(2) by (intro select_neighbours_ok) (auto simp: cands_ok_def)
  have "set_layer new_idx lyr ?sel ns = with_layer new_idx lyr ?sel ns"
    using lyr(1) by (simp add: set_layer_def with_layer_def pad_layers_def)
  with with_layer_ok [OF Cons.prems(1,3) lyr(2) sel] have 1: "nodes_ok dim m m0 (set_layer new_idx lyr ?sel ns)"
    "same_data ns (set_layer new_idx lyr ?sel ns)" by simp_all
  let ?ns = "fold (hnsw_link fl new_idx lyr ?m) ?sel (set_layer new_idx lyr ?sel ns)"
  have "length (set_layer new_idx lyr ?sel ns) = length ns" by (simp add: set_layer_def)
  with hnsw_links_ok [OF 1(1), of new_idx ?m ?sel lyr fl] sel Cons.prems(3) lyr(2) same_data_trans [OF 1(2), of ?ns]
  have 2: "nodes_ok dim m m0 ?ns" "same_data ns ?ns" by simp_all
  have "e < length ?ns" "new_idx < length ?ns" "\<forall>l \<in> set lyrs. l < length (hn_neighbours (?ns ! new_idx))"
    using 2(2) e(2) Cons.prems(3,4) by (fastforce simp: same_data_def)+
  from Cons.IH [OF 2(1) this] obtain ns' where "insert_layers fl order m m0 ef_build new_idx lyrs ?ns e = Some ns'"
    "nodes_ok dim m m0 ns'" "same_data ?ns ns'" by blast
  with same_data_trans [OF 2(2)] c(1) e(1) show ?case by (auto simp: Let_def)
qed (simp add: same_data_refl)

lemma level_loop_bound: "level \<le> 16 \<Longrightarrow> fst (level_loop fl m state level) \<le> 16"
proof (induction fl m state level rule: level_loop.induct)
  case (1 fl m state level)
  then show ?case by (subst level_loop.simps) (auto simp: Let_def split: prod.split)
qed

lemma nodes_ok_snoc:
  assumes "nodes_ok dim m m0 ns" "length v = dim" "level \<le> 16"
  shows "nodes_ok dim m m0 (ns @ [\<lparr>hn_vector = v, hn_key = key, hn_neighbours = replicate (level + 1) []\<rparr>])"
  unfolding nodes_ok_def
proof (intro allI impI)
  fix i assume i: "i < length (ns @ [\<lparr>hn_vector = v, hn_key = key, hn_neighbours = replicate (level + 1) []\<rparr>])"
  let ?n = "length (ns @ [\<lparr>hn_vector = v, hn_key = key, hn_neighbours = replicate (level + 1) []\<rparr>])"
  show "node_ok dim m m0 ?n i ((ns @ [\<lparr>hn_vector = v, hn_key = key, hn_neighbours = replicate (level + 1) []\<rparr>]) ! i)"
  proof (cases "i < length ns")
    case True
    then have "node_ok dim m m0 (length ns) i (ns ! i)" using assms(1) by (simp add: nodes_ok_def)
    with True show ?thesis by (fastforce simp: node_ok_def layer_ok_def nth_append)
  next
    case False
    with i have "i = length ns" by simp
    then show ?thesis using assms(2,3)
      by (simp add: node_ok_def layer_ok_def nth_append del: replicate_Suc)
  qed
qed

text \<open>The vectors and keys of an index, in the order they were added.\<close>

definition hnsw_entries :: "hnsw_index \<Rightarrow> (bytes \<times> u32 list) list" where
  "hnsw_entries h = map (\<lambda>node. (hn_key node, hn_vector node)) (hx_nodes h)"

lemma same_data_hnsw_entries:
  "same_data ns ns' \<Longrightarrow> map (\<lambda>node. (hn_key node, hn_vector node)) ns' = map (\<lambda>node. (hn_key node, hn_vector node)) ns"
  by (auto simp: same_data_def list_eq_iff_nth_eq)

lemma length_normalize: "hnsw_normalize fl v = Some w \<Longrightarrow> length w = length v"
  by (auto simp: hnsw_normalize_def Let_def split: if_splits)

text \<open>The configuration of an index.\<close>

definition hnsw_config :: "hnsw_index \<Rightarrow> nat \<times> nat \<times> nat \<times> nat \<times> nat" where
  "hnsw_config h = (hx_dim h, hx_m h, hx_m0 h, hx_ef_build h, hx_ef_search h)"

lemma hnsw_add_ok:
  assumes "hnsw_ok h" "\<And>xs. mset (order xs) = mset xs" "length vector = hx_dim h" "hnsw_normalize fl vector = Some v"
  shows "\<exists>h'. hnsw_add fl order key vector h = Some (Inr h') \<and> hnsw_ok h' \<and> hnsw_config h' = hnsw_config h \<and> hnsw_entries h' = hnsw_entries h @ [(key, v)]"
proof -
  obtain level state where l: "level_loop fl (hx_m h) (hx_rng h) 0 = (level, state)" by (cases "level_loop fl (hx_m h) (hx_rng h) 0")
  have level: "level \<le> 16" using level_loop_bound [of 0 fl "hx_m h" "hx_rng h"] l by simp
  let ?new = "length (hx_nodes h)"
  let ?ns = "hx_nodes h @ [\<lparr>hn_vector = v, hn_key = key, hn_neighbours = replicate (level + 1) []\<rparr>]"
  let ?h2 = "h\<lparr>hx_rng := state, hx_nodes := ?ns\<rparr>"
  have ok: "nodes_ok (hx_dim h) (hx_m h) (hx_m0 h) ?ns"
    using assms(1,3) length_normalize [OF assms(4)] level by (intro nodes_ok_snoc) (simp_all add: hnsw_ok_def)
  have ent: "map (\<lambda>node. (hn_key node, hn_vector node)) ?ns = hnsw_entries h @ [(key, v)]" by (simp add: hnsw_entries_def)
  have add: "hnsw_add fl order key vector h = (case hx_entry_point h of
      None \<Rightarrow> Some (Inr (?h2\<lparr>hx_entry_point := Some ?new, hx_entry_level := level\<rparr>))
    | Some ep0 \<Rightarrow> (case descend (\<lambda>ep lyr. search_layer_node fl order ?ns ?new ep 1 lyr) (rev [level + 1..<hx_entry_level h + 1]) ep0 of
        None \<Rightarrow> None
      | Some ep \<Rightarrow> (case insert_layers fl order (hx_m h) (hx_m0 h) (hx_ef_build h) ?new (rev [0..<min level (hx_entry_level h) + 1]) ?ns ep of
          None \<Rightarrow> None
        | Some ns \<Rightarrow> Some (Inr (if level > hx_entry_level h
            then ?h2\<lparr>hx_nodes := ns, hx_entry_point := Some ?new, hx_entry_level := level\<rparr> else ?h2\<lparr>hx_nodes := ns\<rparr>)))))"
    unfolding hnsw_add_def Let_def random_level_def l using assms(3,4) by (simp split: option.split del: upt_Suc replicate_Suc)
  show ?thesis
  proof (cases "hx_entry_point h")
    case None
    then show ?thesis using add ok ent by (simp add: hnsw_ok_def hnsw_config_def hnsw_entries_def del: replicate_Suc)
  next
    case (Some ep0)
    have ep0: "ep0 < length ?ns" "hx_entry_level h < length (hn_neighbours (?ns ! ep0))"
      using assms(1) Some by (auto simp: hnsw_ok_def nth_append)
    from descend_node_ok [OF ok _ ep0(1) assms(2), of ?new fl "rev [level + 1..<hx_entry_level h + 1]"] obtain ep where ep:
      "descend (\<lambda>ep lyr. search_layer_node fl order ?ns ?new ep 1 lyr) (rev [level + 1..<hx_entry_level h + 1]) ep0 = Some ep" "ep < length ?ns"
      by auto
    have "\<forall>l \<in> set (rev [0..<min level (hx_entry_level h) + 1]). l < length (hn_neighbours (?ns ! ?new))" by auto
    from insert_layers_ok [OF ok ep(2) _ this assms(2)] obtain ns where ns:
      "insert_layers fl order (hx_m h) (hx_m0 h) (hx_ef_build h) ?new (rev [0..<min level (hx_entry_level h) + 1]) ?ns ep = Some ns"
      "nodes_ok (hx_dim h) (hx_m h) (hx_m0 h) ns" "same_data ?ns ns" by auto
    have "?new < length ns" "ep0 < length ns" "level < length (hn_neighbours (ns ! ?new))" "hx_entry_level h < length (hn_neighbours (ns ! ep0))"
      using ns(3) ep0 by (fastforce simp: same_data_def simp del: replicate_Suc)+
    then show ?thesis
      using add ep(1) ns Some same_data_hnsw_entries [OF ns(3)] ent
      by (simp add: hnsw_ok_def hnsw_config_def hnsw_entries_def del: upt_Suc replicate_Suc)
  qed
qed

lemma hnsw_add_result:
  assumes "hnsw_ok h" "\<And>xs. mset (order xs) = mset xs"
  shows "\<exists>r. hnsw_add fl order key vector h = Some r \<and> (\<forall>h'. r = Inr h' \<longrightarrow> hnsw_ok h')"
proof (cases "length vector = hx_dim h \<and> hnsw_normalize fl vector \<noteq> None")
  case True
  then obtain v where "hnsw_normalize fl vector = Some v" by blast
  with True hnsw_add_ok [OF assms, of vector fl v key] show ?thesis by auto
next
  case False
  then show ?thesis by (auto simp: hnsw_add_def)
qed

section \<open>Exhaustive search\<close>

text \<open>
  With a beam as wide as the index, the loop visits everything reachable in its layer and keeps
  all of it.
\<close>

definition layer_edge :: "hnsw_node list \<Rightarrow> nat \<Rightarrow> nat \<Rightarrow> nat \<Rightarrow> bool" where
  "layer_edge ns layer u v \<longleftrightarrow> v \<in> set (get_layer_neighbours ns u layer)"

definition full_inv :: "hnsw_node list \<Rightarrow> nat \<Rightarrow> nat \<Rightarrow> nat set \<Rightarrow> beam_state \<Rightarrow> bool" where
  "full_inv ns layer ep busy st \<longleftrightarrow>
     (case st of (visited, cands, results) \<Rightarrow>
        snd ` set results = set visited \<and> ep \<in> set visited \<and> (\<forall>v \<in> set visited. (layer_edge ns layer)\<^sup>*\<^sup>* ep v) \<and>
        (\<forall>v \<in> set visited. v \<in> busy \<or> v \<in> snd ` set cands \<or> (\<forall>w. layer_edge ns layer v w \<longrightarrow> w \<in> set visited)))"

lemma visit_one_full:
  assumes "beam_inv n dist ef st" "n \<le> ef" "nb < n" "nb \<notin> set (fst st)" "snd ` set (snd (snd st)) = set (fst st)"
  shows "visit_one fl dist ef nb st = (nb # fst st, (dist nb, nb) # fst (snd st), (dist nb, nb) # snd (snd st))"
proof -
  obtain visited cands results where st: "st = (visited, cands, results)" by (cases st)
  have "set visited \<subseteq> {..<n} - {nb}" using assms by (auto simp: beam_inv_def st)
  then have "card (set visited) \<le> card ({..<n} - {nb})" by (intro card_mono) auto
  moreover have "length results = card (set visited)"
    using assms(1,5) distinct_card [of "map snd results"] by (simp add: beam_inv_def st)
  ultimately have "length results < ef" using assms(2,3) by simp
  then show ?thesis by (simp add: visit_one_def st Let_def)
qed

lemma visit_full:
  assumes "beam_inv n dist ef st" "n \<le> ef" "set nbs \<subseteq> {..<n}" "full_inv ns layer ep busy st" "\<forall>w \<in> set nbs. (layer_edge ns layer)\<^sup>*\<^sup>* ep w"
    "visit fl dist n ef nbs st = Some st'"
  shows "full_inv ns layer ep busy st'"
  using assms
proof (induction nbs arbitrary: st)
  case (Cons nb nbs)
  obtain visited cands results where st: "st = (visited, cands, results)" by (cases st)
  show ?case
  proof (cases "nb \<in> set (fst st)")
    case False
    have "nb < n" using Cons.prems(3) by simp
    have one: "visit_one fl dist ef nb st = (nb # visited, (dist nb, nb) # cands, (dist nb, nb) # results)"
      using visit_one_full [OF Cons.prems(1,2) \<open>nb < n\<close> False, of fl] Cons.prems(4) by (simp add: full_inv_def st)
    have "full_inv ns layer ep busy (visit_one fl dist ef nb st)"
      using Cons.prems(4,5) by (subst one) (auto simp: full_inv_def st)
    with Cons.IH [OF visit_one_inv [OF Cons.prems(1) \<open>nb < n\<close> False]] Cons.prems(2,3,5,6) False \<open>nb < n\<close> show ?thesis by simp
  qed (use Cons in simp)
qed simp

lemma reach_closed:
  assumes "(layer_edge ns layer)\<^sup>*\<^sup>* ep v" "ep \<in> A" "\<And>u w. u \<in> A \<Longrightarrow> layer_edge ns layer u w \<Longrightarrow> w \<in> A"
  shows "v \<in> A"
  using assms by (induction rule: rtranclp_induct) auto

lemma beam_loop_full:
  assumes "beam_inv (length ns) dist ef st" "nodes_ok dim m m0 ns" "length ns \<le> ef" "full_inv ns layer ep {} st"
    "beam_loop fl dist ns ef layer st = Some results"
  shows "snd ` set results = {v. (layer_edge ns layer)\<^sup>*\<^sup>* ep v}"
  using assms
proof (induction fl dist ns ef layer st rule: beam_loop.induct)
  case (1 fl dist ns ef layer visited cands res)
  let ?c = "heap_min fl cands"
  note I = "1.prems"(1) [unfolded beam_inv_def prod.case] and F = "1.prems"(4) [unfolded full_inv_def prod.case]
  have edge: "w < length ns" if "u \<in> set visited" "layer_edge ns layer u w" for u w
    using nodes_ok_neighbours [OF "1.prems"(2), of u layer] that I by (auto simp: layer_edge_def)
  have all: "set visited = {v. (layer_edge ns layer)\<^sup>*\<^sup>* ep v}" if "\<And>u w. u \<in> set visited \<Longrightarrow> layer_edge ns layer u w \<Longrightarrow> w \<in> set visited"
    using reach_closed [of ns layer ep _ "set visited"] that F by blast
  consider (empty) "cands = []" | (full) "cands \<noteq> []" "res \<noteq> [] \<and> ord_gt fl (fst ?c) (fst (heap_max fl res)) \<and> length res \<ge> ef"
    | (go) "cands \<noteq> []" "\<not> (res \<noteq> [] \<and> ord_gt fl (fst ?c) (fst (heap_max fl res)) \<and> length res \<ge> ef)" by blast
  then show ?case
  proof cases
    case empty
    with "1.prems"(5) F all show ?thesis by (auto simp: beam_loop.simps [of fl dist ns ef layer visited])
  next
    case full
    have "length res = card (set visited)" using I F distinct_card [of "map snd res"] by simp
    then have "set visited = {..<length ns}"
      using full(2) "1.prems"(3) I card_seteq [of "{..<length ns}" "set visited"] by simp
    then have "set visited = {v. (layer_edge ns layer)\<^sup>*\<^sup>* ep v}" using edge by (intro all) auto
    with full "1.prems"(5) F show ?thesis by (simp add: beam_loop.simps [of fl dist ns ef layer visited] Let_def)
  next
    case go
    have c: "snd ?c \<in> set visited" "snd ?c < length ns" using heap_min_mem [OF go(1), of fl] I by auto
    let ?nbs = "get_layer_neighbours ns (snd ?c) layer" and ?st = "(visited, remove1 ?c cands, res)"
    have inv: "beam_inv (length ns) dist ef ?st" by (rule beam_inv_pop [OF "1.prems"(1)])
    have nbs: "set ?nbs \<subseteq> {..<length ns}" by (rule nodes_ok_neighbours [OF "1.prems"(2) c(2)])
    from visit_inv [OF inv nbs, of fl] obtain st' where st': "visit fl dist (length ns) ef ?nbs ?st = Some st'"
      "beam_inv (length ns) dist ef st'" "set (fst st') = set visited \<union> set ?nbs" by auto
    have "full_inv ns layer ep {snd ?c} ?st"
      using F notin_set_remove1 [of _ cands] unfolding full_inv_def by (auto simp: image_iff) (metis in_set_remove1 prod.collapse snd_conv)
    moreover have "\<forall>w \<in> set ?nbs. (layer_edge ns layer)\<^sup>*\<^sup>* ep w"
      using F c(1) by (auto simp: layer_edge_def intro: rtranclp.rtrancl_into_rtrancl)
    ultimately have "full_inv ns layer ep {snd ?c} st'" using visit_full [OF inv "1.prems"(3) nbs _ _ st'(1)] by blast
    then have "full_inv ns layer ep {} st'"
      using st'(3) unfolding full_inv_def by (auto simp: layer_edge_def split: prod.splits)
    with "1.IH" [OF go(1) refl refl go(2) st'(1,2) "1.prems"(2,3)] "1.prems"(5) go st'(1) show ?thesis
      by (simp add: beam_loop.simps [of fl dist ns ef layer visited] Let_def)
  qed
qed

lemma search_layer_reach:
  assumes "ep < length ns" "nodes_ok dim m m0 ns" "length ns \<le> ef" "\<And>xs. mset (order xs) = mset xs"
    "search_layer fl order ns dist ep ef layer = Some cands"
  shows "snd ` set cands = {v. (layer_edge ns layer)\<^sup>*\<^sup>* ep v}"
proof -
  let ?st = "([ep], [(dist ep, ep)], [(dist ep, ep)])"
  have "beam_inv (length ns) dist ef ?st" "full_inv ns layer ep {} ?st"
    using assms(1) by (simp_all add: beam_inv_def full_inv_def)
  moreover from assms(5) obtain results where r: "beam_loop fl dist ns ef layer ?st = Some results"
    "cands = sort_by (\<lambda>a b. hf_less fl (fst a) (fst b)) (order results)"
    by (auto simp: search_layer_def split: option.splits)
  ultimately have "snd ` set results = {v. (layer_edge ns layer)\<^sup>*\<^sup>* ep v}"
    using beam_loop_full [OF _ assms(2,3)] by blast
  moreover have "set cands = set results" using r(2) mset_eq_setD [OF assms(4), of results] by simp
  ultimately show ?thesis by simp
qed

section \<open>Queries\<close>

text \<open>Adding vectors one after another; a rejected vector leaves the index as it is.\<close>

fun hnsw_adds :: "hnsw_floats \<Rightarrow> (dist_heap \<Rightarrow> dist_heap) \<Rightarrow> (bytes \<times> u32 list) list \<Rightarrow> hnsw_index \<Rightarrow> hnsw_index option" where
  "hnsw_adds fl order [] h = Some h"
| "hnsw_adds fl order ((key, vector) # kvs) h =
     (case hnsw_add fl order key vector h of
        None \<Rightarrow> None
      | Some (Inl e) \<Rightarrow> hnsw_adds fl order kvs h
      | Some (Inr h') \<Rightarrow> hnsw_adds fl order kvs h')"

definition accepted :: "hnsw_floats \<Rightarrow> nat \<Rightarrow> (bytes \<times> u32 list) list \<Rightarrow> (bytes \<times> u32 list) list" where
  "accepted fl dim kvs = concat (map (\<lambda>(key, vector).
     if length vector = dim then (case hnsw_normalize fl vector of None \<Rightarrow> [] | Some v \<Rightarrow> [(key, v)]) else []) kvs)"

lemma hnsw_adds_ok:
  assumes "\<And>xs. mset (order xs) = mset xs" "hnsw_ok h"
  shows "\<exists>h'. hnsw_adds fl order kvs h = Some h' \<and> hnsw_ok h' \<and> hnsw_config h' = hnsw_config h \<and>
    hnsw_entries h' = hnsw_entries h @ accepted fl (hx_dim h) kvs"
  using assms(2)
proof (induction kvs arbitrary: h)
  case (Cons kv kvs)
  obtain key vector where kv: "kv = (key, vector)" by (cases kv)
  show ?case
  proof (cases "length vector = hx_dim h \<and> hnsw_normalize fl vector \<noteq> None")
    case True
    then obtain v where v: "hnsw_normalize fl vector = Some v" by blast
    from hnsw_add_ok [OF Cons.prems assms(1) conjunct1 [OF True] v, of key] obtain h1 where
      "hnsw_add fl order key vector h = Some (Inr h1)" "hnsw_ok h1" "hnsw_config h1 = hnsw_config h" "hnsw_entries h1 = hnsw_entries h @ [(key, v)]" by blast
    with Cons.IH [of h1] True v show ?thesis by (auto simp: kv accepted_def hnsw_config_def)
  next
    case False
    then have "\<exists>e. hnsw_add fl order key vector h = Some (Inl e)" by (auto simp: hnsw_add_def)
    with Cons.IH [OF Cons.prems] False show ?thesis by (auto simp: kv accepted_def)
  qed
qed (simp add: accepted_def)

lemma hnsw_new_ok:
  assumes "hnsw_new dim m ef_build ef_search = Some h"
  shows "hnsw_ok h" "hnsw_entries h = []" "hnsw_config h = (dim, m, m * 2, ef_build, ef_search)"
  using assms by (auto simp: hnsw_new_def hnsw_ok_def nodes_ok_def hnsw_entries_def hnsw_config_def split: if_splits)

definition results_of :: "hnsw_floats \<Rightarrow> (bytes \<times> u32 list) list \<Rightarrow> u32 list \<Rightarrow> nat list \<Rightarrow> hnsw_result list" where
  "results_of fl es qv is = map (\<lambda>(rank, i).
     \<lparr>hr_key = fst (es ! i), hr_distance = cosine_dist fl (snd (es ! i)) qv, hr_rank = rank\<rparr>) (enumerate 0 is)"

lemma results_of_cands:
  assumes "\<forall>x \<in> set xs. fst x = vec_dist fl (hx_nodes h) (snd x) qv \<and> snd x < length (hx_nodes h)"
  shows "map (\<lambda>(rank, (dist, idx)). \<lparr>hr_key = hn_key (hx_nodes h ! idx), hr_distance = dist, hr_rank = rank\<rparr>) (enumerate 0 xs) =
    results_of fl (hnsw_entries h) qv (map snd xs)"
proof (rule nth_equalityI)
  fix i assume "i < length (map (\<lambda>(rank, (dist, idx)). \<lparr>hr_key = hn_key (hx_nodes h ! idx), hr_distance = dist, hr_rank = rank\<rparr>) (enumerate 0 xs))"
  then have i: "i < length xs" by simp
  with assms nth_mem [OF i] have "fst (xs ! i) = vec_dist fl (hx_nodes h) (snd (xs ! i)) qv" "snd (xs ! i) < length (hx_nodes h)" by blast+
  with i show "map (\<lambda>(rank, (dist, idx)). \<lparr>hr_key = hn_key (hx_nodes h ! idx), hr_distance = dist, hr_rank = rank\<rparr>) (enumerate 0 xs) ! i =
      results_of fl (hnsw_entries h) qv (map snd xs) ! i"
    by (simp add: results_of_def nth_enumerate_eq hnsw_entries_def vec_dist_def case_prod_unfold)
qed (simp add: results_of_def)

lemma hnsw_search_cands:
  assumes "hnsw_ok h" "hx_nodes h \<noteq> []" "0 < k" "length q = hx_dim h" "hnsw_normalize fl q = Some qv" "\<And>xs. mset (order xs) = mset xs"
  shows "\<exists>ep cands. ep < length (hx_nodes h) \<and>
    search_layer fl order (hx_nodes h) (\<lambda>i. vec_dist fl (hx_nodes h) i qv) ep (max (hx_ef_search h) k) 0 = Some cands \<and>
    cands_ok (length (hx_nodes h)) (\<lambda>i. vec_dist fl (hx_nodes h) i qv) cands \<and>
    hnsw_search fl order h q k = Some (results_of fl (hnsw_entries h) qv (map snd (take k (sort_by (\<lambda>a b. hf_less fl (fst a) (fst b)) cands))))"
proof -
  have ok: "nodes_ok (hx_dim h) (hx_m h) (hx_m0 h) (hx_nodes h)" using assms(1) by (simp add: hnsw_ok_def)
  obtain ep0 where ep0: "hx_entry_point h = Some ep0" "ep0 < length (hx_nodes h)"
    using assms(1,2) by (auto simp: hnsw_ok_def split: option.splits)
  from descend_vec_ok [OF ok ep0(2) assms(6), of fl qv "rev [1..<hx_entry_level h + 1]"] obtain ep where ep:
    "descend (\<lambda>ep lyr. search_layer_vec fl order (hx_nodes h) qv ep 1 lyr) (rev [1..<hx_entry_level h + 1]) ep0 = Some ep"
    "ep < length (hx_nodes h)" by blast
  from search_layer_vec_ok [OF ok ep(2) assms(6), of fl qv "max (hx_ef_search h) k" 0] obtain cands where cands:
    "search_layer_vec fl order (hx_nodes h) qv ep (max (hx_ef_search h) k) 0 = Some cands"
    "cands_ok (length (hx_nodes h)) (\<lambda>i. vec_dist fl (hx_nodes h) i qv) cands" by blast
  let ?top = "take k (sort_by (\<lambda>a b. hf_less fl (fst a) (fst b)) cands)"
  have "\<forall>x \<in> set ?top. fst x = vec_dist fl (hx_nodes h) (snd x) qv \<and> snd x < length (hx_nodes h)"
    using cands(2) set_take_subset [of k "sort_by (\<lambda>a b. hf_less fl (fst a) (fst b)) cands"] by (auto simp: cands_ok_def)
  from results_of_cands [OF this] have
    "hnsw_search fl order h q k = Some (results_of fl (hnsw_entries h) qv (map snd ?top))"
    using assms(2-5) ep0(1) ep(1) cands(1) by (simp add: hnsw_search_def search_with_ef_def del: upt_Suc)
  with cands ep(2) show ?thesis by (auto simp: search_layer_vec_def)
qed

lemma top_sorted:
  fixes fl :: hnsw_floats and k :: nat and cands :: dist_heap
  assumes "cands_ok n dist cands" "weak_order_on (dist ` {..<n}) (hf_less fl)"
  defines "best \<equiv> take k (sort_by (\<lambda>a b. hf_less fl (fst a) (fst b)) cands)"
  shows "sorted_wrt (\<lambda>i j. \<not> hf_less fl (dist j) (dist i)) (map snd best)"
    "c \<in> set cands \<Longrightarrow> snd c \<notin> set (map snd best) \<Longrightarrow> i \<in> set (map snd best) \<Longrightarrow> \<not> hf_less fl (dist (snd c)) (dist i)"
proof -
  let ?s = "sort_by (\<lambda>a b. hf_less fl (fst a) (fst b)) cands"
  have d: "fst x = dist (snd x)" "snd x < n" if "x \<in> set cands" for x using assms(1) that by (simp_all add: cands_ok_def)
  have "weak_order_on (set cands) (\<lambda>a b. hf_less fl (fst a) (fst b))"
    by (rule weak_order_on_map, rule weak_order_on_subset [OF assms(2)]) (use d in auto)
  from sort_by_weak_on [OF this] have s: "sorted_wrt (\<lambda>a b. \<not> hf_less fl (fst b) (fst a)) (take k ?s @ drop k ?s)" by simp
  have best: "set best \<subseteq> set cands" unfolding best_def using set_take_subset [of k ?s] by simp
  have db: "fst x = dist (snd x)" if "x \<in> set best" for x using d(1) best that by blast
  have "sorted_wrt (\<lambda>a b. \<not> hf_less fl (fst b) (fst a)) best" using s by (simp only: sorted_wrt_append best_def)
  then have "sorted_wrt (\<lambda>a b. \<not> hf_less fl (dist (snd b)) (dist (snd a))) best"
    by (rule sorted_wrt_mono_rel [rotated]) (simp add: db)
  then show "sorted_wrt (\<lambda>i j. \<not> hf_less fl (dist j) (dist i)) (map snd best)" by (simp add: sorted_wrt_map)
  assume c: "c \<in> set cands" "snd c \<notin> set (map snd best)" and "i \<in> set (map snd best)"
  then obtain x where x: "x \<in> set best" "i = snd x" by auto
  have "c \<in> set (take k ?s @ drop k ?s)" using c(1) by simp
  moreover have "c \<notin> set (take k ?s)" using c(2) by (auto simp: best_def)
  ultimately have "c \<in> set (drop k ?s)" by (metis Un_iff set_append)
  with s x(1) have "\<not> hf_less fl (fst c) (fst x)" unfolding sorted_wrt_append best_def by blast
  then show "\<not> hf_less fl (dist (snd c)) (dist i)" using d(1) [OF c(1)] db [OF x(1)] x(2) by simp
qed

lemma built_index:
  assumes "hnsw_new dim m ef_build ef_search = Some h0" "hnsw_adds fl order kvs h0 = Some h" "\<And>xs. mset (order xs) = mset xs"
  shows "hnsw_ok h" "hnsw_entries h = accepted fl dim kvs" "hx_dim h = dim" "hx_ef_search h = ef_search"
    "length (hx_nodes h) = length (accepted fl dim kvs)"
    "i < length (accepted fl dim kvs) \<Longrightarrow> vec_dist fl (hx_nodes h) i qv = cosine_dist fl (snd (accepted fl dim kvs ! i)) qv"
proof -
  from hnsw_adds_ok [where order = order and h = h0 and fl = fl and kvs = kvs, OF assms(3) hnsw_new_ok(1) [OF assms(1)]] assms(2)
  show h: "hnsw_ok h" "hnsw_entries h = accepted fl dim kvs" "hx_dim h = dim" "hx_ef_search h = ef_search"
    using hnsw_new_ok [OF assms(1)] by (auto simp: hnsw_config_def)
  show len: "length (hx_nodes h) = length (accepted fl dim kvs)" using h(2) by (metis hnsw_entries_def length_map)
  show "i < length (accepted fl dim kvs) \<Longrightarrow> vec_dist fl (hx_nodes h) i qv = cosine_dist fl (snd (accepted fl dim kvs ! i)) qv"
    unfolding h(2) [symmetric] using len by (simp add: vec_dist_def hnsw_entries_def)
qed

text \<open>Unsigned integers in place of floating point, and an index of two vectors with one component.\<close>

definition word_floats :: hnsw_floats where
  "word_floats = \<lparr>hf_sum0 = 0, hf_one = 1000, hf_neg_one = 0, hf_eps = 1, hf_fmax = 0xFFFFFFFF, hf_add = (+), hf_sub = (-),
     hf_mul = (*), hf_div = (\<lambda>a b. a), hf_sqrt = (\<lambda>a. a), hf_less = (<), hf_eq = (=), hf_minus_one64 = (\<lambda>a. a),
     hf_level_bound = (\<lambda>m. 0), hf_less64 = (<)\<rparr>"

definition two_vectors :: "(bytes \<times> u32 list) list" where
  "two_vectors = [([1], [3]), ([2], [5])]"

lemma word_floats_two [simp]:
  "accepted word_floats (Suc 0) two_vectors = two_vectors" "hnsw_normalize word_floats [4] = Some [4]"
  "two_vectors \<noteq> []" "length two_vectors = 2"
  by (simp_all add: accepted_def two_vectors_def word_floats_def hnsw_normalize_def)

lemma word_floats_weak: "weak_order_on A (hf_less word_floats)"
  by (rule weak_order_on_subset [of UNIV]) (auto simp: word_floats_def weak_order_on_def)

lemma two_built:
  obtains h0 h where "hnsw_new 1 2 4 4 = Some h0" "hnsw_adds word_floats rev two_vectors h0 = Some h"
proof -
  obtain h0 where h0: "hnsw_new 1 2 4 4 = Some h0" by (simp add: hnsw_new_def)
  from hnsw_adds_ok [where order = rev and fl = word_floats and kvs = two_vectors, OF _ hnsw_new_ok(1) [OF h0]] h0 show ?thesis
    using that by auto
qed

lemma hnsw_search_returns:
  assumes "hnsw_ok h" "\<And>xs. mset (order xs) = mset xs"
  shows "\<exists>res. hnsw_search fl order h q k = Some res"
proof (cases "hx_nodes h = [] \<or> k = 0 \<or> length q \<noteq> hx_dim h \<or> hnsw_normalize fl q = None")
  case True
  then show ?thesis by (auto simp: hnsw_search_def search_with_ef_def)
next
  case False
  then obtain qv where "hnsw_normalize fl q = Some qv" by blast
  with hnsw_search_cands [OF assms(1), of k q fl qv order] assms(2) False show ?thesis by auto
qed

section \<open>Properties\<close>







end
