(* ===== verification/Hnsw_File.thy ===== *)
theory Hnsw_File
  imports Hnsw_Search
begin

text \<open>
  The file format of the vector index (\<^verbatim>\<open>serialize\<close> and \<^verbatim>\<open>deserialize\<close> of \<^verbatim>\<open>src/index/hnsw.rs\<close>). A reader
  takes the bytes not yet read and returns a value with the rest. The locale \<open>codec\<close> is the contract between
  a writer and its reader; sequences of encoded items are decoded once inside it, and the numbers, the
  layers and the nodes of the format are its instances.
\<close>

section \<open>Definitions\<close>

definition be32 :: "nat \<Rightarrow> bytes" where
  "be32 n = to_be 4 (of_nat n :: u32)"

definition layer_bytes :: "nat list \<Rightarrow> bytes" where
  "layer_bytes layer = be32 (length layer) @ concat (map be32 layer)"

definition hnsw_node_bytes :: "hnsw_node \<Rightarrow> bytes" where
  "hnsw_node_bytes node =
     be32 (length (hn_key node)) @ hn_key node @ concat (map (to_be 4) (hn_vector node)) @
     [of_nat (length (hn_neighbours node))] @ concat (map layer_bytes (hn_neighbours node))"

definition hnsw_serialize :: "hnsw_index \<Rightarrow> bytes" where
  "hnsw_serialize h =
     ascii ''HNSW'' @ be32 (hx_dim h) @ be32 (hx_m h) @ be32 (hx_ef_build h) @ be32 (hx_ef_search h) @
     be32 (length (hx_nodes h)) @ concat (map hnsw_node_bytes (hx_nodes h)) @
     (case hx_entry_point h of Some ep \<Rightarrow> 1 # be32 ep | None \<Rightarrow> [0]) @ be32 (hx_entry_level h)"

type_synonym 'a reader = "bytes \<Rightarrow> hnsw_error + 'a \<times> bytes"

definition hnsw_read_u32 :: "nat reader" where
  "hnsw_read_u32 r = (if length r < 4 then Inl Hnsw_Eof_U32 else Inr (unat (from_be (take 4 r) :: u32), drop 4 r))"

definition hnsw_read_u8 :: "u8 reader" where
  "hnsw_read_u8 r = (case r of [] \<Rightarrow> Inl Hnsw_Eof_U8 | b # r1 \<Rightarrow> Inr (b, r1))"

fun read_list :: "'a reader \<Rightarrow> nat \<Rightarrow> 'a list reader" where
  "read_list rd 0 r = Inr ([], r)"
| "read_list rd (Suc n) r =
     (case rd r of
        Inl e \<Rightarrow> Inl e
      | Inr (x, r1) \<Rightarrow> (case read_list rd n r1 of Inl e \<Rightarrow> Inl e | Inr (xs, r2) \<Rightarrow> Inr (x # xs, r2)))"

definition read_float :: "u32 reader" where
  "read_float r = Inr (from_be (take 4 r), drop 4 r)"

definition read_layer :: "nat list reader" where
  "read_layer r =
     (case hnsw_read_u32 r of Inl e \<Rightarrow> Inl e | Inr (n_nb, r1) \<Rightarrow> read_list hnsw_read_u32 n_nb r1)"

definition read_node :: "nat \<Rightarrow> hnsw_node reader" where
  "read_node dim r =
     (case hnsw_read_u32 r of
        Inl e \<Rightarrow> Inl e
      | Inr (key_len, r1) \<Rightarrow>
          if length r1 < key_len then Inl Hnsw_Eof_Key
          else (let key = take key_len r1; r2 = drop key_len r1
                in if length r2 < dim * 4 then Inl Hnsw_Eof_Vector
                   else (case read_list read_float dim r2 of
                           Inl e \<Rightarrow> Inl e
                         | Inr (vector, r3) \<Rightarrow>
                             (case hnsw_read_u8 r3 of
                                Inl e \<Rightarrow> Inl e
                              | Inr (n_layers, r4) \<Rightarrow>
                                  (case read_list read_layer (unat n_layers) r4 of
                                     Inl e \<Rightarrow> Inl e
                                   | Inr (nbs, r5) \<Rightarrow>
                                       Inr (\<lparr>hn_vector = vector, hn_key = key, hn_neighbours = nbs\<rparr>, r5))))))"

definition read_entry :: "nat option reader" where
  "read_entry r =
     (case hnsw_read_u8 r of
        Inl e \<Rightarrow> Inl e
      | Inr (has_ep, r1) \<Rightarrow>
          if has_ep = 1 then (case hnsw_read_u32 r1 of Inl e \<Rightarrow> Inl e | Inr (ep, r2) \<Rightarrow> Inr (Some ep, r2))
          else Inr (None, r1))"

definition hnsw_deserialize :: "bytes \<Rightarrow> hnsw_error + hnsw_index" where
  "hnsw_deserialize data =
     (if length data < 4 \<or> take 4 data \<noteq> ascii ''HNSW'' then Inl Bad_Hnsw_Magic
      else (case read_list hnsw_read_u32 4 (drop 4 data) of
              Inl e \<Rightarrow> Inl e
            | Inr (cfg, r1) \<Rightarrow>
                (case hnsw_read_u32 r1 of
                   Inl e \<Rightarrow> Inl e
                 | Inr (n_nodes, r2) \<Rightarrow>
                     (case read_list (read_node (cfg ! 0)) n_nodes r2 of
                        Inl e \<Rightarrow> Inl e
                      | Inr (nodes, r3) \<Rightarrow>
                          (case read_entry r3 of
                             Inl e \<Rightarrow> Inl e
                           | Inr (entry, r4) \<Rightarrow>
                               (case hnsw_read_u32 r4 of
                                  Inl e \<Rightarrow> Inl e
                                | Inr (level, r5) \<Rightarrow>
                                    Inr \<lparr>hx_dim = cfg ! 0, hx_m = cfg ! 1, hx_m0 = cfg ! 1 * 2, hx_ef_build = cfg ! 2,
                                      hx_ef_search = cfg ! 3, hx_nodes = nodes, hx_entry_point = entry,
                                      hx_entry_level = level, hx_rng = rng_new 42\<rparr>))))))"

section \<open>Writers and readers\<close>

locale codec =
  fixes enc :: "'a \<Rightarrow> bytes" and dec :: "'a reader" and fits :: "'a \<Rightarrow> bool"
  assumes dec_enc: "fits x \<Longrightarrow> dec (enc x @ r) = Inr (x, r)"
begin

lemma read_list_enc: "\<forall>x \<in> set xs. fits x \<Longrightarrow> read_list dec (length xs) (concat (map enc xs) @ r) = Inr (xs, r)"
  by (induction xs) (simp_all add: dec_enc)

end

lemma length_be32 [simp]: "length (be32 n) = 4"
  by (simp add: be32_def)

interpretation u32_codec: codec be32 hnsw_read_u32 "\<lambda>n. n < 2 ^ 32"
  by unfold_locales (simp add: hnsw_read_u32_def be32_def unat_of_nat)

interpretation float_codec: codec "to_be 4 :: u32 \<Rightarrow> bytes" read_float "\<lambda>_. True"
  by unfold_locales (simp add: read_float_def)

definition layer_fits :: "nat list \<Rightarrow> bool" where
  "layer_fits layer \<longleftrightarrow> length layer < 2 ^ 32 \<and> (\<forall>i \<in> set layer. i < 2 ^ 32)"

interpretation layer_codec: codec layer_bytes read_layer layer_fits
  by unfold_locales
    (simp add: read_layer_def layer_bytes_def layer_fits_def u32_codec.dec_enc u32_codec.read_list_enc)

definition node_fits :: "nat \<Rightarrow> hnsw_node \<Rightarrow> bool" where
  "node_fits dim node \<longleftrightarrow>
     length (hn_key node) < 2 ^ 32 \<and> length (hn_vector node) = dim \<and> length (hn_neighbours node) < 256 \<and>
     (\<forall>l \<in> set (hn_neighbours node). layer_fits l)"

interpretation node_codec: codec hnsw_node_bytes "read_node dim" "node_fits dim" for dim
proof
  fix node :: hnsw_node and r
  assume fits: "node_fits dim node"
  let ?v = "concat (map (to_be 4) (hn_vector node))" and ?l = "concat (map layer_bytes (hn_neighbours node))"
  have "length ?v = dim * 4"
    using fits by (simp add: node_fits_def length_concat comp_def sum_list_triv)
  moreover have "read_list read_float dim (?v @ s) = Inr (hn_vector node, s)" for s
    using float_codec.read_list_enc [of "hn_vector node" s] fits by (simp add: node_fits_def)
  moreover have "read_list read_layer (length (hn_neighbours node)) (?l @ r) = Inr (hn_neighbours node, r)"
    using layer_codec.read_list_enc [of "hn_neighbours node" r] fits by (simp add: node_fits_def)
  moreover have "unat (of_nat (length (hn_neighbours node)) :: u8) = length (hn_neighbours node)"
    using fits by (simp add: node_fits_def unat_of_nat)
  moreover have "hnsw_read_u32 (be32 (length (hn_key node)) @ s) = Inr (length (hn_key node), s)" for s
    using fits by (intro u32_codec.dec_enc) (simp add: node_fits_def)
  ultimately show "read_node dim (hnsw_node_bytes node @ r) = Inr (node, r)"
    by (simp add: read_node_def hnsw_node_bytes_def hnsw_read_u8_def)
qed

interpretation entry_codec: codec "\<lambda>e. case e of Some ep \<Rightarrow> 1 # be32 ep | None \<Rightarrow> [0]" read_entry "\<lambda>e. \<forall>ep. e = Some ep \<longrightarrow> ep < 2 ^ 32"
  by unfold_locales (auto simp: read_entry_def hnsw_read_u8_def u32_codec.dec_enc split: option.split)

section \<open>Round trip\<close>

definition file_fits :: "hnsw_index \<Rightarrow> bool" where
  "file_fits h \<longleftrightarrow>
     hx_dim h < 2 ^ 32 \<and> hx_m h < 2 ^ 32 \<and> hx_ef_build h < 2 ^ 32 \<and> hx_ef_search h < 2 ^ 32 \<and> hx_m0 h = hx_m h * 2 \<and>
     length (hx_nodes h) < 2 ^ 32 \<and> (\<forall>node \<in> set (hx_nodes h). node_fits (hx_dim h) node) \<and>
     (\<forall>ep. hx_entry_point h = Some ep \<longrightarrow> ep < 2 ^ 32) \<and> hx_entry_level h < 2 ^ 32"

lemma hnsw_file_image:
  assumes "file_fits h"
  shows "hnsw_deserialize (hnsw_serialize h) = Inr (h\<lparr>hx_rng := rng_new 42\<rparr>)"
proof -
  let ?cfg = "[hx_dim h, hx_m h, hx_ef_build h, hx_ef_search h]"
  let ?entry = "case hx_entry_point h of Some ep \<Rightarrow> 1 # be32 ep | None \<Rightarrow> [0]" and ?level = "be32 (hx_entry_level h)"
  have cfg: "read_list hnsw_read_u32 4 (be32 (hx_dim h) @ be32 (hx_m h) @ be32 (hx_ef_build h) @ be32 (hx_ef_search h) @ s) = Inr (?cfg, s)" for s
  proof -
    have len: "length ?cfg = 4" and fits: "\<forall>n \<in> set ?cfg. n < 2 ^ 32" using assms by (simp_all add: file_fits_def)
    show ?thesis using u32_codec.read_list_enc [OF fits, of s] unfolding len by (simp only: list.map concat.simps append_assoc append_Nil2 append_Nil)
  qed
  moreover have "hnsw_read_u32 (be32 (length (hx_nodes h)) @ s) = Inr (length (hx_nodes h), s)" for s
    using assms by (intro u32_codec.dec_enc) (simp add: file_fits_def)
  moreover have "read_list (read_node (hx_dim h)) (length (hx_nodes h)) (concat (map hnsw_node_bytes (hx_nodes h)) @ s) = Inr (hx_nodes h, s)" for s
    using assms by (intro node_codec.read_list_enc) (simp add: file_fits_def)
  moreover have "read_entry (?entry @ s) = Inr (hx_entry_point h, s)" for s
    using assms by (intro entry_codec.dec_enc) (simp add: file_fits_def)
  moreover have "hnsw_read_u32 ?level = Inr (hx_entry_level h, [])"
    using u32_codec.dec_enc [of "hx_entry_level h" "[]"] assms by (simp add: file_fits_def)
  moreover have "take 4 (ascii ''HNSW'' @ s) = ascii ''HNSW''" "drop 4 (ascii ''HNSW'' @ s) = s" "length (ascii ''HNSW'') = 4" for s
    by (simp_all add: ascii_def)
  ultimately show ?thesis
    using assms by (simp add: hnsw_deserialize_def hnsw_serialize_def file_fits_def)
qed

lemma hnsw_ok_file_fits:
  assumes "hnsw_ok h" "hx_m0 h = hx_m h * 2" "hx_dim h < 2 ^ 32" "hx_m h < 2 ^ 32" "hx_ef_build h < 2 ^ 32" "hx_ef_search h < 2 ^ 32"
    "length (hx_nodes h) < 2 ^ 32" "\<forall>(key, v) \<in> set (hnsw_entries h). length key < 2 ^ 32"
  shows "file_fits h"
proof -
  let ?n = "length (hx_nodes h)"
  have "node_fits (hx_dim h) (hx_nodes h ! i)" if i: "i < ?n" for i
  proof -
    let ?node = "hx_nodes h ! i"
    have ok: "node_ok (hx_dim h) (hx_m h) (hx_m0 h) ?n i ?node" using assms(1) i by (simp add: hnsw_ok_def nodes_ok_def)
    have "layer_fits nbs" if "nbs \<in> set (hn_neighbours ?node)" for nbs
    proof -
      from that ok have nbs: "distinct nbs" "set nbs \<subseteq> {..<?n}" by (auto simp: node_ok_def layer_ok_def in_set_conv_nth)
      then have "length nbs \<le> ?n" using card_mono [OF _ nbs(2)] distinct_card [of nbs] by simp
      with nbs(2) assms(7) show ?thesis unfolding layer_fits_def by (auto dest: subsetD)
    qed
    moreover have "length (hn_key ?node) < 2 ^ 32" using assms(8) i by (auto simp: hnsw_entries_def)
    ultimately show ?thesis using ok by (simp add: node_fits_def node_ok_def)
  qed
  then have "\<forall>node \<in> set (hx_nodes h). node_fits (hx_dim h) node" by (auto simp: in_set_conv_nth)
  moreover have "hx_entry_level h < 2 ^ 32 \<and> (\<forall>ep. hx_entry_point h = Some ep \<longrightarrow> ep < 2 ^ 32)"
  proof (cases "hx_entry_point h")
    case (Some ep)
    then have ep: "ep < ?n" "hx_entry_level h < length (hn_neighbours (hx_nodes h ! ep))" using assms(1) by (simp_all add: hnsw_ok_def)
    moreover have "length (hn_neighbours (hx_nodes h ! ep)) \<le> 17" using assms(1) ep(1) by (simp add: hnsw_ok_def nodes_ok_def node_ok_def)
    ultimately show ?thesis using Some assms(7) by simp
  qed (use assms(1) in \<open>simp add: hnsw_ok_def\<close>)
  ultimately show ?thesis using assms by (simp add: file_fits_def)
qed

lemma accepted_sub:
  "length (accepted fl dim kvs) \<le> length kvs" "set (map fst (accepted fl dim kvs)) \<subseteq> set (map fst kvs)"
proof -
  have "length (accepted fl dim kvs) \<le> length kvs \<and> set (map fst (accepted fl dim kvs)) \<subseteq> set (map fst kvs)"
  proof (induction kvs)
    case (Cons kv kvs)
    have "accepted fl dim (kv # kvs) = accepted fl dim kvs \<or> (\<exists>v. accepted fl dim (kv # kvs) = (fst kv, v) # accepted fl dim kvs)"
      by (cases kv) (simp add: accepted_def split: option.split)
    with Cons show ?case by (elim disjE exE) (simp_all only: list.map list.size list.set fst_conv insert_mono subset_insertI2, simp_all)
  qed (simp add: accepted_def)
  then show "length (accepted fl dim kvs) \<le> length kvs" "set (map fst (accepted fl dim kvs)) \<subseteq> set (map fst kvs)" by blast+
qed

text \<open>
  (C18) An index built by insertions, with sizes below \<open>2 ^ 32\<close>, is read back from its file as it was
  written, except that the random number generator starts over; every search gives the same answer
  before and after.
\<close>

theorem hnsw_file_roundtrip:
  assumes "hnsw_new dim m ef_build ef_search = Some h0" "hnsw_adds fl order kvs h0 = Some h" "\<And>xs. mset (order xs) = mset xs"
    "dim < 2 ^ 32" "m < 2 ^ 32" "ef_build < 2 ^ 32" "ef_search < 2 ^ 32" "length kvs < 2 ^ 32" "\<forall>(key, v) \<in> set kvs. length key < 2 ^ 32"
  shows "hnsw_deserialize (hnsw_serialize h) = Inr (h\<lparr>hx_rng := rng_new 42\<rparr>) \<and>
    hnsw_search fl order (h\<lparr>hx_rng := rng_new 42\<rparr>) q k = hnsw_search fl order h q k"
proof -
  note accepted_sub [of fl dim kvs]
  moreover have "hnsw_config h = (dim, m, m * 2, ef_build, ef_search)"
    using hnsw_adds_ok [where order = order and h = h0 and fl = fl and kvs = kvs, OF assms(3) hnsw_new_ok(1) [OF assms(1)]]
      assms(2) hnsw_new_ok(3) [OF assms(1)] by auto
  moreover have "\<forall>key \<in> set (map fst kvs). length key < 2 ^ 32" using assms(9) by auto
  ultimately have "\<forall>key \<in> set (map fst (hnsw_entries h)). length key < 2 ^ 32" "length (hx_nodes h) < 2 ^ 32"
    "hx_dim h = dim" "hx_m h = m" "hx_m0 h = m * 2" "hx_ef_build h = ef_build" "hx_ef_search h = ef_search"
    using built_index(2,5) [OF assms(1-3)] assms(8) by (auto simp only: hnsw_config_def prod.inject)
  then have "file_fits h"
    using assms(4-7) by (intro hnsw_ok_file_fits built_index(1) [OF assms(1-3)]) auto
  then show ?thesis by (simp add: hnsw_file_image hnsw_search_def search_with_ef_def cong: if_cong option.case_cong)
qed

theorem hnsw_file_roundtrip_witness:
  "\<exists>h0 h. hnsw_new 1 2 4 4 = Some h0 \<and> hnsw_adds word_floats rev two_vectors h0 = Some h \<and>
     hnsw_deserialize (hnsw_serialize h) = Inr (h\<lparr>hx_rng := rng_new 42\<rparr>)"
proof -
  obtain h0 h where h: "hnsw_new 1 2 4 4 = Some h0" "hnsw_adds word_floats rev two_vectors h0 = Some h" by (rule two_built)
  have "\<forall>(key, v) \<in> set two_vectors. length key < 2 ^ 32" by (simp add: two_vectors_def)
  with hnsw_file_roundtrip [OF h] h show ?thesis by auto
qed

end
