(* ===== verification/Index_Manager.thy ===== *)
theory Index_Manager
  imports Bm25 Fuzzy Graph Hnsw_File
begin

text \<open>
  \<^verbatim>\<open>src/index/manager.rs\<close>: the component that keeps the query indices in step with the
  records. Query execution is in theory \<open>Index_Query\<close>.
\<close>

section \<open>Definitions\<close>

record index_manager =
  im_bm25 :: bm25_index
  im_fuzzy :: fuzzy_matcher
  im_hnsw :: "hnsw_index option"
  im_graph :: relation_graph
  im_hnsw_dim :: nat

definition DEFAULT_DIM :: nat where
  "DEFAULT_DIM = 0"

definition index_manager_new :: index_manager where
  "index_manager_new =
     \<lparr>im_bm25 = bm25_new, im_fuzzy = fuzzy_new 4, im_hnsw = None, im_graph = graph_new,
      im_hnsw_dim = DEFAULT_DIM\<rparr>"

definition on_put :: "bytes \<Rightarrow> bytes \<Rightarrow> index_manager \<Rightarrow> index_manager" where
  "on_put key value im =
     (let b1 = (if bm25_contains_key (im_bm25 im) key then remove_document key (im_bm25 im) else im_bm25 im)
      in im\<lparr>im_bm25 := add_document_direct key key value b1, im_fuzzy := fuzzy_add key (im_fuzzy im)\<rparr>)"

definition on_delete :: "bytes \<Rightarrow> index_manager \<Rightarrow> index_manager" where
  "on_delete key im = im\<lparr>im_bm25 := remove_document key (im_bm25 im)\<rparr>"

definition on_add_edge :: "str \<Rightarrow> str \<Rightarrow> str \<Rightarrow> index_manager \<Rightarrow> index_manager" where
  "on_add_edge src dst relation im =
     (case relation_from_str relation of
        None \<Rightarrow> im
      | Some rel \<Rightarrow> im\<lparr>im_graph := add_edge src dst rel (im_graph im)\<rparr>)"

text \<open>The first vector fixes the dimension; a vector of no components panics there. A rejected vector is ignored.\<close>

definition on_put_vector ::
  "hnsw_floats \<Rightarrow> (dist_heap \<Rightarrow> dist_heap) \<Rightarrow> bytes \<Rightarrow> u32 list \<Rightarrow> index_manager \<Rightarrow> index_manager option" where
  "on_put_vector hf order key vector im =
     (case (case im_hnsw im of
              Some h \<Rightarrow> Some (h, im)
            | None \<Rightarrow>
                (case hnsw_with_defaults (length vector) of
                   None \<Rightarrow> None
                 | Some h \<Rightarrow> Some (h, im\<lparr>im_hnsw_dim := length vector, im_hnsw := Some h\<rparr>))) of
        None \<Rightarrow> None
      | Some (h, im1) \<Rightarrow>
          (case hnsw_add hf order key vector h of
             None \<Rightarrow> None
           | Some (Inl e) \<Rightarrow> Some im1
           | Some (Inr h1) \<Rightarrow> Some (im1\<lparr>im_hnsw := Some h1\<rparr>)))"

record index_stats =
  is_bm25_docs :: nat
  is_bm25_vocab :: nat
  is_fuzzy_symbols :: nat
  is_hnsw_vectors :: nat
  is_graph_nodes :: nat
  is_graph_edges :: nat

definition index_manager_stats :: "index_manager \<Rightarrow> index_stats" where
  "index_manager_stats im =
     \<lparr>is_bm25_docs = bm25_len (im_bm25 im), is_bm25_vocab = bm25_vocab_size (im_bm25 im),
      is_fuzzy_symbols = fuzzy_len (im_fuzzy im),
      is_hnsw_vectors = (case im_hnsw im of None \<Rightarrow> 0 | Some h \<Rightarrow> hnsw_len h),
      is_graph_nodes = node_count (im_graph im), is_graph_edges = rg_edge_count (im_graph im)\<rparr>"

end
