(* ===== verification/Planner.thy ===== *)
theory Planner
  imports Bm25 Utf8 Float_Ops
begin

text \<open>
  \<^verbatim>\<open>src/query/planner.rs\<close>: which indices a query consults and how their results are merged.
  Vectors stay abstract, since a plan only asks whether one is given. Floating-point arithmetic
  is the parameter \<open>float_ops\<close>, and the iteration
  order of the score table, which the standard library leaves open, is a parameter too. The
  lemmas characterise the plan for every query and show that merging by reciprocal ranks returns
  every key once with the sum of its contributions, best first.
\<close>

section \<open>Plans\<close>

datatype query_step = Step_Bm25 | Step_Hnsw | Step_Fuzzy | Step_Graph

record 'v query_spec =
  qs_text :: str
  qs_vector :: "'v list"
  qs_top_k :: nat
  qs_max_depth :: nat
  qs_relations :: "str list"
  qs_lang_filter :: "str list"
  qs_type_filter :: "str list"
  qs_file_filter :: "str list"
  qs_merge_strategy :: u8
  qs_timeout_ms :: u32

definition query_spec_default :: "'v query_spec" where
  "query_spec_default =
     \<lparr>qs_text = [], qs_vector = [], qs_top_k = 10, qs_max_depth = 3, qs_relations = [], qs_lang_filter = [],
      qs_type_filter = [], qs_file_filter = [], qs_merge_strategy = 0x01, qs_timeout_ms = 5000\<rparr>"

text \<open>The characters with the property White\_Space, which \<^verbatim>\<open>str::trim\<close> removes, as UTF-8.\<close>

definition whitespace :: "bytes list" where
  "whitespace =
     [[0x09], [0x0A], [0x0B], [0x0C], [0x0D], [0x20], [0xC2, 0x85], [0xC2, 0xA0], [0xE1, 0x9A, 0x80],
      [0xE2, 0x80, 0x80], [0xE2, 0x80, 0x81], [0xE2, 0x80, 0x82], [0xE2, 0x80, 0x83], [0xE2, 0x80, 0x84],
      [0xE2, 0x80, 0x85], [0xE2, 0x80, 0x86], [0xE2, 0x80, 0x87], [0xE2, 0x80, 0x88], [0xE2, 0x80, 0x89],
      [0xE2, 0x80, 0x8A], [0xE2, 0x80, 0xA8], [0xE2, 0x80, 0xA9], [0xE2, 0x80, 0xAF], [0xE2, 0x81, 0x9F],
      [0xE3, 0x80, 0x80]]"

definition trim :: "str \<Rightarrow> str" where
  "trim s =
     concat (rev (dropWhile (\<lambda>c. c \<in> set whitespace) (rev (dropWhile (\<lambda>c. c \<in> set whitespace) (utf8_chars s)))))"

fun contains_seq :: "bytes \<Rightarrow> bytes \<Rightarrow> bool" where
  "contains_seq p [] = (p = [])"
| "contains_seq p (b # bs) = (take (length p) (b # bs) = p \<or> contains_seq p bs)"

text \<open>
  The loop over the characters runs only when all of them are ASCII, so that characters are bytes.
\<close>

fun camel_case :: "bytes \<Rightarrow> bool" where
  "camel_case (a # b # bs) = ((is_ascii_uppercase b \<and> is_ascii_lowercase a) \<or> camel_case (b # bs))"
| "camel_case bs = False"

definition looks_symbol_like :: "str \<Rightarrow> bool" where
  "looks_symbol_like txt =
     (if txt = [] then False
      else if contains_seq (ascii ''::'') txt \<or> 0x2E \<in> set txt \<or> 0x5F \<in> set txt then True
      else if 0x20 \<notin> set txt \<and> list_all is_ascii_alphanumeric txt then camel_case txt
      else False)"

fun retain_first :: "'a list \<Rightarrow> 'a list \<Rightarrow> 'a list" where
  "retain_first seen [] = []"
| "retain_first seen (s # ss) = (if s \<in> set seen then retain_first seen ss else s # retain_first (seen @ [s]) ss)"

definition plan :: "'v query_spec \<Rightarrow> query_step list" where
  "plan q =
     (let has_text = trim (qs_text q) \<noteq> []; has_vector = qs_vector q \<noteq> []; has_graph = qs_relations q \<noteq> [];
          is_symbol = looks_symbol_like (qs_text q); is_short = length (qs_text q) \<le> 32;
          steps0 = (if has_graph then [Step_Graph] else []);
          steps1 = (if has_text \<and> is_symbol \<and> is_short then steps0 @ [Step_Fuzzy, Step_Bm25]
                    else steps0 @ (if has_text then [Step_Bm25] else []) @ (if has_vector then [Step_Hnsw] else []) @
                           (if has_text \<and> is_symbol then [Step_Fuzzy] else []));
          steps2 = (if has_vector \<and> Step_Hnsw \<notin> set steps1 then steps1 @ [Step_Hnsw] else steps1)
      in retain_first [] steps2)"

section \<open>Reciprocal rank fusion\<close>

record 'f ranked_hit =
  rh_key :: bytes
  rh_score :: 'f
  rh_rank :: nat

definition rrf_hit :: "'f float_ops \<Rightarrow> 'f \<Rightarrow> nat \<times> bytes \<Rightarrow> (bytes \<times> 'f) list \<Rightarrow> (bytes \<times> 'f) list" where
  "rrf_hit fl k ik scores =
     (case ik of (i, key) \<Rightarrow>
        (let rank = fl_of_nat fl (i + 1);
             old = (case map_of scores key of Some s \<Rightarrow> s | None \<Rightarrow> fl_of_nat fl 0)
         in hm_insert key (fl_add fl old (fl_div fl (fl_of_nat fl 1) (fl_add fl k rank))) scores))"

definition rrf_scores :: "'f float_ops \<Rightarrow> 'f \<Rightarrow> bytes list list \<Rightarrow> (bytes \<times> 'f) list" where
  "rrf_scores fl k ls = fold (\<lambda>l. fold (rrf_hit fl k) (enumerate 0 l)) ls []"

definition merge_rrf ::
  "'f float_ops \<Rightarrow> ((bytes \<times> 'f) list \<Rightarrow> (bytes \<times> 'f) list) \<Rightarrow> 'f ranked_hit list list \<Rightarrow> 'f \<Rightarrow> 'f ranked_hit list" where
  "merge_rrf fl iteration ls k =
     (let scores = rrf_scores fl k (map (map rh_key) ls);
          merged = sort_by (\<lambda>a b. fl_less fl (rh_score b) (rh_score a))
            (map (\<lambda>(key, score). \<lparr>rh_key = key, rh_score = score, rh_rank = 0\<rparr>) (iteration scores))
      in map (\<lambda>(i, hit). hit\<lparr>rh_rank := i\<rparr>) (enumerate 0 merged))"

section \<open>Lemmas\<close>

lemma retain_first_distinct: "distinct xs \<Longrightarrow> set xs \<inter> set seen = {} \<Longrightarrow> retain_first seen xs = xs"
  by (induction seen xs rule: retain_first.induct) auto

text \<open>What one ranked list adds to the score of a key, and the score over all lists.\<close>

definition rrf_add :: "'f float_ops \<Rightarrow> 'f \<Rightarrow> bytes \<Rightarrow> nat \<times> bytes \<Rightarrow> 'f \<Rightarrow> 'f" where
  "rrf_add fl k key ik acc =
     (if snd ik = key then fl_add fl acc (fl_div fl (fl_of_nat fl 1) (fl_add fl k (fl_of_nat fl (fst ik + 1)))) else acc)"

definition rrf_sum :: "'f float_ops \<Rightarrow> 'f \<Rightarrow> bytes list list \<Rightarrow> bytes \<Rightarrow> 'f" where
  "rrf_sum fl k ls key = fold (\<lambda>l. fold (rrf_add fl k key) (enumerate 0 l)) ls (fl_of_nat fl 0)"

lemma rrf_hit_lookup:
  "(case map_of (rrf_hit fl k ik scores) key of Some s \<Rightarrow> s | None \<Rightarrow> fl_of_nat fl 0) =
     rrf_add fl k key ik (case map_of scores key of Some s \<Rightarrow> s | None \<Rightarrow> fl_of_nat fl 0)"
  "map_of (rrf_hit fl k ik scores) key = None \<longleftrightarrow> map_of scores key = None \<and> snd ik \<noteq> key"
  by (cases ik; auto simp: rrf_hit_def rrf_add_def Let_def)+

lemma rrf_hits_lookup:
  "(case map_of (fold (rrf_hit fl k) es scores) key of Some s \<Rightarrow> s | None \<Rightarrow> fl_of_nat fl 0) =
     fold (rrf_add fl k key) es (case map_of scores key of Some s \<Rightarrow> s | None \<Rightarrow> fl_of_nat fl 0)"
  "map_of (fold (rrf_hit fl k) es scores) key = None \<longleftrightarrow> map_of scores key = None \<and> key \<notin> snd ` set es"
  by (induction es arbitrary: scores) (auto simp: rrf_hit_lookup)

lemma rrf_scores_lookup:
  "map_of (rrf_scores fl k ls) key = (if \<exists>l \<in> set ls. key \<in> set l then Some (rrf_sum fl k ls key) else None)"
proof -
  let ?f = "\<lambda>l. fold (rrf_hit fl k) (enumerate 0 l)"
  have "(case map_of (fold ?f ls scores) key of Some s \<Rightarrow> s | None \<Rightarrow> fl_of_nat fl 0) =
      fold (\<lambda>l. fold (rrf_add fl k key) (enumerate 0 l)) ls (case map_of scores key of Some s \<Rightarrow> s | None \<Rightarrow> fl_of_nat fl 0) \<and>
    (map_of (fold ?f ls scores) key = None \<longleftrightarrow> map_of scores key = None \<and> (\<forall>l \<in> set ls. key \<notin> set l))" for scores
  proof (induction ls arbitrary: scores)
    case (Cons l ls)
    have "snd ` set (enumerate 0 l) = set l" by (metis list.set_map map_snd_enumerate)
    with Cons show ?case by (simp add: rrf_hits_lookup)
  qed simp
  from this [of "[]"] show ?thesis by (auto simp: rrf_scores_def rrf_sum_def split: option.splits)
qed

lemma rrf_scores_distinct: "distinct (map fst (rrf_scores fl k ls))"
proof -
  have hit: "distinct (map fst m) \<Longrightarrow> distinct (map fst (rrf_hit fl k ik m))" for ik m
    by (cases ik) (simp add: rrf_hit_def Let_def distinct_hm_insert)
  have hits: "distinct (map fst m) \<Longrightarrow> distinct (map fst (fold (rrf_hit fl k) es m))" for es m
    by (induction es arbitrary: m) (simp_all add: hit)
  have "distinct (map fst m) \<Longrightarrow> distinct (map fst (fold (\<lambda>l. fold (rrf_hit fl k) (enumerate 0 l)) ls m))" for m
    by (induction ls arbitrary: m) (simp_all add: hits)
  then show ?thesis by (simp add: rrf_scores_def)
qed

lemma rrf_scores_mem: "(key, score) \<in> set (rrf_scores fl k ls) \<Longrightarrow> score = rrf_sum fl k ls key"
  using map_of_is_SomeI [OF rrf_scores_distinct, of key score fl k ls]
  by (simp add: rrf_scores_lookup split: if_splits)

lemma merge_rrf_spec:
  assumes "\<And>xs. mset (iteration xs) = mset xs" "weak_order (fl_less fl)"
  shows "distinct (map rh_key (merge_rrf fl iteration ls k)) \<and>
    set (map rh_key (merge_rrf fl iteration ls k)) = (\<Union>l \<in> set ls. rh_key ` set l) \<and>
    (\<forall>hit \<in> set (merge_rrf fl iteration ls k). rh_score hit = rrf_sum fl k (map (map rh_key) ls) (rh_key hit)) \<and>
    map rh_rank (merge_rrf fl iteration ls k) = [0..<length (merge_rrf fl iteration ls k)] \<and>
    sorted_wrt (\<lambda>a b. \<not> fl_less fl (rh_score a) (rh_score b)) (merge_rrf fl iteration ls k)"
proof -
  let ?keys = "map (map rh_key) ls" and ?hit = "\<lambda>(key, score). \<lparr>rh_key = key, rh_score = score, rh_rank = 0\<rparr>"
  let ?sc = "rrf_scores fl k ?keys" and ?lt = "\<lambda>a b. fl_less fl (rh_score b) (rh_score a)"
  let ?merged = "sort_by ?lt (map ?hit (iteration ?sc))" and ?res = "merge_rrf fl iteration ls k"
  have res: "?res = map (\<lambda>(i, hit). hit\<lparr>rh_rank := i\<rparr>) (enumerate 0 ?merged)"
    by (simp add: merge_rrf_def Let_def)
  have keys: "map rh_key ?res = map rh_key ?merged"
    unfolding res by (intro nth_equalityI) (simp_all add: nth_enumerate_eq)
  have ms: "mset (map rh_key ?merged) = mset (map fst ?sc)"
    by (simp add: assms(1) image_mset.compositionality case_prod_unfold comp_def)
  have "distinct (map rh_key ?merged)"
    using rrf_scores_distinct [of fl k ?keys] mset_eq_imp_distinct_iff [OF ms] by simp
  moreover have "set (map rh_key ?merged) = (\<Union>l \<in> set ls. rh_key ` set l)"
  proof -
    have "set (map rh_key ?merged) = dom (map_of ?sc)"
      using mset_eq_setD [OF ms] by (simp add: dom_map_of_conv_image_fst)
    moreover have "dom (map_of ?sc) = (\<Union>l \<in> set ls. rh_key ` set l)"
      unfolding dom_def rrf_scores_lookup by auto
    ultimately show ?thesis by simp
  qed
  moreover have "rh_score hit = rrf_sum fl k ?keys (rh_key hit)" if "hit \<in> set ?res" for hit
  proof -
    from that obtain i where "i < length ?merged" "hit = (?merged ! i)\<lparr>rh_rank := i\<rparr>"
      by (auto simp: res in_set_enumerate_eq)
    moreover have "set ?merged = ?hit ` set ?sc"
      using mset_eq_setD [OF assms(1)] by simp
    ultimately obtain key score where "(key, score) \<in> set ?sc" "rh_key hit = key" "rh_score hit = score"
      using nth_mem [of i ?merged] by auto
    then show ?thesis by (simp add: rrf_scores_mem)
  qed
  moreover have "map rh_rank ?res = [0..<length ?res]"
    unfolding res by (intro nth_equalityI) (simp_all add: nth_enumerate_eq)
  moreover have "sorted_wrt (\<lambda>a b. \<not> ?lt b a) ?merged"
    by (rule sort_by_weak, rule weak_order_map [OF weak_order_flip [OF assms(2)]])
  then have "sorted_wrt (\<lambda>a b. \<not> fl_less fl (rh_score a) (rh_score b)) ?res"
    unfolding res by (simp add: sorted_wrt_iff_nth_less nth_enumerate_eq)
  ultimately show ?thesis using keys by simp
qed

section \<open>Properties\<close>

text \<open>The steps a query calls for, and the order in which they run.\<close>

fun wanted :: "'v query_spec \<Rightarrow> query_step \<Rightarrow> bool" where
  "wanted q Step_Graph = (qs_relations q \<noteq> [])"
| "wanted q Step_Hnsw = (qs_vector q \<noteq> [])"
| "wanted q Step_Bm25 = (trim (qs_text q) \<noteq> [])"
| "wanted q Step_Fuzzy = (trim (qs_text q) \<noteq> [] \<and> looks_symbol_like (qs_text q))"

definition priority :: "'v query_spec \<Rightarrow> query_step list" where
  "priority q =
     (if wanted q Step_Fuzzy \<and> length (qs_text q) \<le> 32 then [Step_Graph, Step_Fuzzy, Step_Bm25, Step_Hnsw]
      else [Step_Graph, Step_Bm25, Step_Hnsw, Step_Fuzzy])"

text \<open>
  A plan consists of exactly the steps the query calls for, each once, the graph first, and the
  symbol lookup before the keyword search only for short symbols.
\<close>

theorem plan_exact: "plan q = filter (wanted q) (priority q) \<and> distinct (plan q)"
proof -
  have "plan q = filter (wanted q) (priority q)"
    by (simp add: plan_def priority_def Let_def)
  moreover have "distinct (filter (wanted q) (priority q))"
    by (simp add: priority_def)
  ultimately show ?thesis by simp
qed

text \<open>
  Merging by reciprocal ranks: whatever the arithmetic, as long as its order is a strict weak
  one, and whatever the iteration order of the score table, every key of the input lists comes
  out once, with the sum of its contributions, numbered from zero, and no hit scores above an
  earlier one.
\<close>

theorem merge_rrf_exact:
  assumes "\<And>xs. mset (iteration xs) = mset xs" "weak_order (fl_less fl)"
  shows "distinct (map rh_key (merge_rrf fl iteration ls k)) \<and>
    set (map rh_key (merge_rrf fl iteration ls k)) = (\<Union>l \<in> set ls. rh_key ` set l) \<and>
    (\<forall>hit \<in> set (merge_rrf fl iteration ls k). rh_score hit = rrf_sum fl k (map (map rh_key) ls) (rh_key hit)) \<and>
    map rh_rank (merge_rrf fl iteration ls k) = [0..<length (merge_rrf fl iteration ls k)] \<and>
    sorted_wrt (\<lambda>a b. \<not> fl_less fl (rh_score a) (rh_score b)) (merge_rrf fl iteration ls k)"
  by (rule merge_rrf_spec [OF assms])

text \<open>Two lists that share a key.\<close>

definition hit_of :: "u8 \<Rightarrow> nat ranked_hit" where
  "hit_of b = \<lparr>rh_key = [b], rh_score = 0, rh_rank = 0\<rparr>"

theorem merge_rrf_exact_witness:
  "set (map rh_key (merge_rrf nat_floats rev [[hit_of 1, hit_of 2], [hit_of 2]] 60)) = {[1], [2]} \<and>
   map rh_rank (merge_rrf nat_floats rev [[hit_of 1, hit_of 2], [hit_of 2]] 60) = [0, 1]"
proof -
  have "length (merge_rrf nat_floats rev [[hit_of 1, hit_of 2], [hit_of 2]] 60) = 2" by code_simp
  with merge_rrf_exact [of rev nat_floats "[[hit_of 1, hit_of 2], [hit_of 2]]" 60] show ?thesis
    by (auto simp: hit_of_def upt_rec)
qed

end
