(* ===== verification/Index_Query.thy ===== *)
theory Index_Query
  imports Index_Manager Bm25_Search Graph_Search Planner
begin

text \<open>
  Query execution of \<^verbatim>\<open>src/index/manager.rs\<close>: every planned step asks its index, and the ranked lists
  are merged. The floating-point instructions and the orders the standard library leaves open are
  collected in the record \<open>query_env\<close>. The lemmas follow the indices through any sequence of updates.
\<close>

section \<open>Definitions\<close>

record 'f query_env =
  qe_fl :: "'f float_ops"
  qe_hf :: hnsw_floats
  qe_widen :: "u32 \<Rightarrow> 'f" \<comment> \<open>from \<open>f32\<close> to \<open>f64\<close>\<close>
  qe_hits :: "(nat \<times> nat) list \<Rightarrow> (nat \<times> nat) list"
  qe_arrange :: "(nat \<times> 'f) list \<Rightarrow> (nat \<times> 'f) list"
  qe_heap :: "dist_heap \<Rightarrow> dist_heap"
  qe_rrf :: "(bytes \<times> 'f) list \<Rightarrow> (bytes \<times> 'f) list"

definition ranked :: "(bytes \<times> 'f) list \<Rightarrow> 'f ranked_hit list" where
  "ranked xs = map (\<lambda>(i, (key, score)). \<lparr>rh_key = key, rh_score = score, rh_rank = i\<rparr>) (enumerate 0 xs)"

fun step_hits ::
  "'f query_env \<Rightarrow> u32 query_spec \<Rightarrow> index_manager \<Rightarrow> query_step \<Rightarrow> ('f ranked_hit list \<times> index_manager) option" where
  "step_hits env q im Step_Bm25 =
     Some (ranked (map (\<lambda>r. (br_key r, br_score r))
       (bm25_search (qe_fl env) (qe_arrange env) (im_bm25 im) (qs_text q) (qs_top_k q * 2))), im)"
| "step_hits env q im Step_Fuzzy =
     Some (ranked (map (\<lambda>m. (fm_symbol m, fm_jaccard m))
       (fuzzy_query (qe_fl env) (qe_hits env) (im_fuzzy im) (qs_text q) (qs_top_k q * 2))), im)"
| "step_hits env q im Step_Hnsw =
     (case im_hnsw im of
        None \<Rightarrow> Some ([], im)
      | Some h \<Rightarrow>
          if qs_vector q = [] then Some ([], im)
          else (case hnsw_search (qe_hf env) (qe_heap env) h (qs_vector q) (qs_top_k q * 2) of
                  None \<Rightarrow> None
                | Some rs \<Rightarrow>
                    Some (ranked (map (\<lambda>r. (hr_key r, fl_sub (qe_fl env) (fl_of_nat (qe_fl env) 1) (qe_widen env (hr_distance r)))) rs), im)))"
| "step_hits env q im Step_Graph =
     (if qs_text q = [] then Some ([], im)
      else (let flt = (case qs_relations q of [] \<Rightarrow> None | r # _ \<Rightarrow> relation_from_str r);
                (results, g) = bfs (qs_text q) (ascii ''forward'') (qs_max_depth q) flt (im_graph im)
            in Some (ranked (map (\<lambda>r. (tr_key r, fl_div (qe_fl env) (fl_of_nat (qe_fl env) 1)
                 (fl_add (qe_fl env) (fl_of_nat (qe_fl env) 1) (fl_of_nat (qe_fl env) (tr_depth r)))))
                 (filter (\<lambda>r. tr_depth r > 0) results)), im\<lparr>im_graph := g\<rparr>)))"

fun run_steps ::
  "'f query_env \<Rightarrow> u32 query_spec \<Rightarrow> query_step list \<Rightarrow> index_manager \<Rightarrow> ('f ranked_hit list list \<times> index_manager) option" where
  "run_steps env q [] im = Some ([], im)"
| "run_steps env q (step # steps) im =
     (case step_hits env q im step of
        None \<Rightarrow> None
      | Some (hits, im1) \<Rightarrow>
          (case run_steps env q steps im1 of
             None \<Rightarrow> None
           | Some (ls, im2) \<Rightarrow> Some ((if hits \<noteq> [] then [hits] else []) @ ls, im2)))"

definition index_query ::
  "'f query_env \<Rightarrow> u32 query_spec \<Rightarrow> index_manager \<Rightarrow> ('f ranked_hit list \<times> index_manager) option" where
  "index_query env q im =
     (case run_steps env q (plan q) im of
        None \<Rightarrow> None
      | Some (all_lists, im1) \<Rightarrow>
          Some (if all_lists = [] then []
                else take (qs_top_k q) (merge_rrf (qe_fl env) (qe_rrf env) all_lists (fl_of_nat (qe_fl env) 60)), im1))"

section \<open>Updates\<close>

datatype index_op =
    Ix_Put bytes bytes
  | Ix_Delete bytes
  | Ix_Vector bytes "u32 list"
  | Ix_Edge str str str

fun index_step :: "hnsw_floats \<Rightarrow> (dist_heap \<Rightarrow> dist_heap) \<Rightarrow> index_op \<Rightarrow> index_manager \<Rightarrow> index_manager option" where
  "index_step hf order (Ix_Put key val) im = Some (on_put key val im)"
| "index_step hf order (Ix_Delete key) im = Some (on_delete key im)"
| "index_step hf order (Ix_Vector key vector) im = on_put_vector hf order key vector im"
| "index_step hf order (Ix_Edge s d r) im = Some (on_add_edge s d r im)"

fun index_run :: "hnsw_floats \<Rightarrow> (dist_heap \<Rightarrow> dist_heap) \<Rightarrow> index_op list \<Rightarrow> index_manager \<Rightarrow> index_manager option" where
  "index_run hf order [] im = Some im"
| "index_run hf order (op # ops) im =
     (case index_step hf order op im of None \<Rightarrow> None | Some im1 \<Rightarrow> index_run hf order ops im1)"

text \<open>The history of documents the updates amount to: all token lists ever added, and the live one of each key.\<close>

type_synonym doc_history = "str list list \<times> (bytes \<rightharpoonup> nat)"

fun doc_step :: "index_op \<Rightarrow> doc_history \<Rightarrow> doc_history" where
  "doc_step (Ix_Put key val) (hist, live) = (hist @ [tokenize key @ tokenize val], live(key \<mapsto> length hist))"
| "doc_step (Ix_Delete key) (hist, live) = (hist, live(key := None))"
| "doc_step (Ix_Vector key vector) hl = hl"
| "doc_step (Ix_Edge s d r) hl = hl"

lemma on_put_rep:
  assumes "bm_rep (im_bm25 im) hist live"
  shows "bm_rep (im_bm25 (on_put key val im)) (hist @ [tokenize key @ tokenize val]) (live(key \<mapsto> length hist))"
proof -
  let ?b = "if bm25_contains_key (im_bm25 im) key then remove_document key (im_bm25 im) else im_bm25 im"
  have "live(key := None) = live" if "\<not> bm25_contains_key (im_bm25 im) key"
    using assms that by (auto simp: bm25_contains_key_def bm_rep_def)
  with bm_rep_remove [OF assms, of key] assms have "bm_rep ?b hist (live(key := None))" by auto
  from add_document_direct_rep [OF this, of key key val] show ?thesis by (simp add: on_put_def Let_def)
qed

text \<open>The vector index of a manager is well-formed, and has as many layers and neighbours as the defaults allow.\<close>

definition vectors_ok :: "index_manager \<Rightarrow> bool" where
  "vectors_ok im \<longleftrightarrow> (\<forall>h. im_hnsw im = Some h \<longrightarrow> hnsw_ok h)"

lemma on_put_vector_ok:
  assumes "on_put_vector hf order key v im = Some im'" "vectors_ok im" "\<And>xs. mset (order xs) = mset xs"
  shows "vectors_ok im' \<and> im_bm25 im' = im_bm25 im \<and> im_fuzzy im' = im_fuzzy im \<and> im_graph im' = im_graph im"
proof -
  from assms(1) obtain h im1 where h: "(case im_hnsw im of Some h \<Rightarrow> Some (h, im)
      | None \<Rightarrow> (case hnsw_with_defaults (length v) of None \<Rightarrow> None
         | Some h \<Rightarrow> Some (h, im\<lparr>im_hnsw_dim := length v, im_hnsw := Some h\<rparr>))) = Some (h, im1)"
    by (auto simp: on_put_vector_def split: option.splits)
  then have 1: "hnsw_ok h" "im_hnsw im1 = Some h" "im_bm25 im1 = im_bm25 im" "im_fuzzy im1 = im_fuzzy im" "im_graph im1 = im_graph im"
    using assms(2) hnsw_new_ok(1) by (auto simp: vectors_ok_def hnsw_with_defaults_def split: option.splits)
  from hnsw_add_result [OF 1(1) assms(3), of hf key v] obtain r where
    "hnsw_add hf order key v h = Some r" "\<forall>h'. r = Inr h' \<longrightarrow> hnsw_ok h'" by blast
  with assms(1) h 1 show ?thesis by (auto simp: on_put_vector_def vectors_ok_def split: sum.splits)
qed

lemma index_step_ok:
  assumes "index_step hf order op im = Some im'" "bm_rep (im_bm25 im) (fst hl) (snd hl)" "vectors_ok im" "\<And>xs. mset (order xs) = mset xs"
  shows "bm_rep (im_bm25 im') (fst (doc_step op hl)) (snd (doc_step op hl)) \<and> vectors_ok im'"
proof (cases op)
  case (Ix_Put key val)
  with assms on_put_rep [OF assms(2), of key val] show ?thesis
    by (cases hl) (auto simp: vectors_ok_def on_put_def Let_def)
next
  case (Ix_Delete key)
  with assms bm_rep_remove [OF assms(2), of key] show ?thesis
    by (cases hl) (auto simp: vectors_ok_def on_delete_def)
next
  case (Ix_Edge s d r)
  with assms show ?thesis by (auto simp: vectors_ok_def on_add_edge_def split: option.splits)
next
  case (Ix_Vector key v)
  with assms on_put_vector_ok [of hf order key v im im'] show ?thesis by auto
qed

lemma index_run_ok:
  assumes "index_run hf order ops im = Some im'" "bm_rep (im_bm25 im) (fst hl) (snd hl)" "vectors_ok im" "\<And>xs. mset (order xs) = mset xs"
  shows "bm_rep (im_bm25 im') (fst (fold doc_step ops hl)) (snd (fold doc_step ops hl)) \<and> vectors_ok im'"
  using assms(1-3)
proof (induction ops arbitrary: im hl)
  case (Cons op ops)
  then obtain im1 where "index_step hf order op im = Some im1" "index_run hf order ops im1 = Some im'"
    by (auto split: option.splits)
  with Cons.IH [of im1 "doc_step op hl"] index_step_ok [OF this(1) Cons.prems(2,3) assms(4)] show ?case by simp
qed simp

lemma index_manager_new_ok: "bm_rep (im_bm25 index_manager_new) [] Map.empty" "vectors_ok index_manager_new"
  by (simp_all add: index_manager_new_def bm_rep_new vectors_ok_def)



section \<open>Queries\<close>

text \<open>What the planned steps find, in the order of the plan; a step without a hit adds no list.\<close>

definition answers :: "'f query_env \<Rightarrow> u32 query_spec \<Rightarrow> index_manager \<Rightarrow> 'f ranked_hit list list" where
  "answers env q im = filter (\<lambda>l. l \<noteq> []) (map (\<lambda>step. fst (the (step_hits env q im step))) (plan q))"

definition found_keys :: "'f query_env \<Rightarrow> u32 query_spec \<Rightarrow> index_manager \<Rightarrow> bytes list list" where
  "found_keys env q im = map (map rh_key) (answers env q im)"

lemma step_hits_returns:
  assumes "vectors_ok im" "\<And>xs. mset (qe_heap env xs) = mset xs"
  shows "\<exists>hits g. step_hits env q im step = Some (hits, im\<lparr>im_graph := g\<rparr>)"
proof (cases step)
  case Step_Hnsw
  show ?thesis
  proof (cases "im_hnsw im")
    case (Some h)
    then obtain rs where "hnsw_search (qe_hf env) (qe_heap env) h (qs_vector q) (qs_top_k q * 2) = Some rs"
      using hnsw_search_returns [OF _ assms(2), of h "qe_hf env" "qs_vector q" "qs_top_k q * 2"] assms(1) by (auto simp: vectors_ok_def)
    with Some Step_Hnsw show ?thesis by (auto intro: exI [of _ "im_graph im"])
  qed (use Step_Hnsw in \<open>auto intro: exI [of _ "im_graph im"]\<close>)
qed (auto simp: Let_def case_prod_unfold intro: exI [of _ "im_graph im"])

lemma step_hits_graph:
  assumes "step \<noteq> Step_Graph" "step_hits env q im step = Some (hits, im1)"
  shows "step_hits env q (im\<lparr>im_graph := g\<rparr>) step = Some (hits, im1\<lparr>im_graph := g\<rparr>) \<and> im1 = im"
  using assms by (cases step) (auto split: option.splits if_splits)

lemma run_steps_answers:
  assumes "vectors_ok im" "\<And>xs. mset (qe_heap env xs) = mset xs" "distinct steps"
  shows "\<exists>g. run_steps env q steps im =
    Some (filter (\<lambda>l. l \<noteq> []) (map (\<lambda>step. fst (the (step_hits env q im step))) steps), im\<lparr>im_graph := g\<rparr>)"
  using assms(1,3)
proof (induction steps arbitrary: im)
  case Nil
  show ?case by (auto intro: exI [of _ "im_graph im"])
next
  case (Cons step steps)
  from step_hits_returns [OF Cons.prems(1) assms(2), of q step] obtain hits g where
    h: "step_hits env q im step = Some (hits, im\<lparr>im_graph := g\<rparr>)" by blast
  have "vectors_ok (im\<lparr>im_graph := g\<rparr>)" using Cons.prems(1) by (simp add: vectors_ok_def)
  from Cons.IH [OF this] Cons.prems(2) obtain g' where
    "run_steps env q steps (im\<lparr>im_graph := g\<rparr>) =
      Some (filter (\<lambda>l. l \<noteq> []) (map (\<lambda>step. fst (the (step_hits env q (im\<lparr>im_graph := g\<rparr>) step))) steps), im\<lparr>im_graph := g'\<rparr>)" by auto
  moreover have "map (\<lambda>step. fst (the (step_hits env q (im\<lparr>im_graph := g\<rparr>) step))) steps = map (\<lambda>step. fst (the (step_hits env q im step))) steps"
  proof (cases "step = Step_Graph")
    case True
    have "fst (the (step_hits env q (im\<lparr>im_graph := g\<rparr>) s)) = fst (the (step_hits env q im s))" if "s \<in> set steps" for s
    proof -
      have "s \<noteq> Step_Graph" using that True Cons.prems(2) by auto
      moreover obtain hs im1 where "step_hits env q im s = Some (hs, im1)" using step_hits_returns [OF Cons.prems(1) assms(2), of q s] by blast
      ultimately show ?thesis using step_hits_graph [of s env q im hs im1 g] by simp
    qed
    then show ?thesis by simp
  next
    case False
    then have "im\<lparr>im_graph := g\<rparr> = im" using step_hits_graph [OF False h] by simp
    then show ?thesis by simp
  qed
  ultimately show ?case by (auto simp: h)
qed

lemma take_upt_min: "take n [0..<m] = [0..<min m n]"
  by (cases "n \<le> m") (simp_all add: min_def)

lemma plan_distinct: "distinct (plan q)"
  by (simp add: plan_def Let_def)

lemma index_query_spec:
  assumes "vectors_ok im" "\<And>xs. mset (qe_heap env xs) = mset xs" "\<And>xs. mset (qe_rrf env xs) = mset xs" "weak_order (fl_less (qe_fl env))"
  shows "\<exists>res im'. index_query env q im = Some (res, im') \<and> (\<exists>g. im' = im\<lparr>im_graph := g\<rparr>) \<and> length res \<le> qs_top_k q \<and> distinct (map rh_key res) \<and>
    map rh_rank res = [0..<length res] \<and> sorted_wrt (\<lambda>a b. \<not> fl_less (qe_fl env) (rh_score a) (rh_score b)) res \<and>
    (\<forall>hit \<in> set res. (\<exists>l \<in> set (found_keys env q im). rh_key hit \<in> set l) \<and> rh_score hit = rrf_sum (qe_fl env) (fl_of_nat (qe_fl env) 60) (found_keys env q im) (rh_key hit)) \<and>
    (\<forall>l \<in> set (found_keys env q im). \<forall>key \<in> set l. key \<in> rh_key ` set res \<or>
       length res = qs_top_k q \<and> (\<forall>hit \<in> set res. \<not> fl_less (qe_fl env) (rh_score hit) (rrf_sum (qe_fl env) (fl_of_nat (qe_fl env) 60) (found_keys env q im) key)))"
proof -
  let ?fl = "qe_fl env" and ?ls = "answers env q im" and ?k = "fl_of_nat (qe_fl env) 60" and ?found = "found_keys env q im"
  let ?m = "merge_rrf ?fl (qe_rrf env) ?ls ?k"
  from run_steps_answers [OF assms(1) assms(2) plan_distinct, of q] obtain g where
    "run_steps env q (plan q) im = Some (?ls, im\<lparr>im_graph := g\<rparr>)" by (auto simp: answers_def)
  then have res: "index_query env q im = Some (if ?ls = [] then [] else take (qs_top_k q) ?m, im\<lparr>im_graph := g\<rparr>)"
    by (simp add: index_query_def)
  note spec = merge_rrf_spec [where iteration = "qe_rrf env" and fl = ?fl and ls = ?ls and k = ?k, OF assms(3,4)]
  have "?m = []" if "?ls = []" using spec that by simp
  with res have res: "index_query env q im = Some (take (qs_top_k q) ?m, im\<lparr>im_graph := g\<rparr>)" by auto
  have m: "distinct (map rh_key ?m)" "set (map rh_key ?m) = (\<Union>l \<in> set ?ls. rh_key ` set l)"
    "\<And>hit. hit \<in> set ?m \<Longrightarrow> rh_score hit = rrf_sum ?fl ?k ?found (rh_key hit)" "map rh_rank ?m = [0..<length ?m]"
    "sorted_wrt (\<lambda>a b. \<not> fl_less ?fl (rh_score a) (rh_score b)) ?m"
    using spec unfolding found_keys_def by blast+
  let ?res = "take (qs_top_k q) ?m"
  have sub: "set ?res \<subseteq> set ?m" by (rule set_take_subset)
  have keys: "(\<exists>l \<in> set ?found. key \<in> set l) \<longleftrightarrow> key \<in> rh_key ` set ?m" for key
    using m(2) by (auto simp: found_keys_def)
  have out: "key \<in> rh_key ` set ?res \<or> length ?res = qs_top_k q \<and> (\<forall>hit \<in> set ?res. \<not> fl_less ?fl (rh_score hit) (rrf_sum ?fl ?k ?found key))"
    if "key \<in> rh_key ` set ?m" for key
  proof (cases "key \<in> rh_key ` set ?res")
    case False
    from that obtain x where x: "x \<in> set ?m" "key = rh_key x" by auto
    with False have "x \<in> set (drop (qs_top_k q) ?m)" by (metis Un_iff append_take_drop_id imageI set_append)
    moreover from this have "length ?res = qs_top_k q" by (auto simp: min_def not_le dest: length_pos_if_in_set)
    moreover have "sorted_wrt (\<lambda>a b. \<not> fl_less ?fl (rh_score a) (rh_score b)) (?res @ drop (qs_top_k q) ?m)" using m(5) by simp
    then have "\<forall>hit \<in> set ?res. \<forall>y \<in> set (drop (qs_top_k q) ?m). \<not> fl_less ?fl (rh_score hit) (rh_score y)"
      unfolding sorted_wrt_append by blast
    ultimately show ?thesis unfolding x(2) m(3) [OF x(1), symmetric] by blast
  qed simp
  have "\<forall>l \<in> set ?found. \<forall>key \<in> set l. key \<in> rh_key ` set ?res \<or> length ?res = qs_top_k q \<and>
      (\<forall>hit \<in> set ?res. \<not> fl_less ?fl (rh_score hit) (rrf_sum ?fl ?k ?found key))"
    using keys out by blast
  moreover have "\<forall>hit \<in> set ?res. (\<exists>l \<in> set ?found. rh_key hit \<in> set l) \<and> rh_score hit = rrf_sum ?fl ?k ?found (rh_key hit)"
    using keys sub m(3) by blast
  moreover have "map rh_rank ?res = [0..<length ?res]" "distinct (map rh_key ?res)"
    using m(4) m(1) by (simp_all add: take_map [symmetric] take_upt_min)
  moreover have "sorted_wrt (\<lambda>a b. \<not> fl_less ?fl (rh_score a) (rh_score b)) ?res" using m(5) by (rule sorted_wrt_take)
  moreover have "length ?res \<le> qs_top_k q" by simp
  ultimately show ?thesis using res by blast
qed


text \<open>An environment over words and natural numbers, and a symbol that two indices find.\<close>

definition nat_env :: "nat query_env" where
  "nat_env = \<lparr>qe_fl = nat_floats, qe_hf = word_floats, qe_widen = unat, qe_hits = rev, qe_arrange = rev, qe_heap = rev, qe_rrf = rev\<rparr>"


end
