(* ===== verification/Engine.thy ===== *)
theory Engine
  imports Wal Memtable Cache Bg_Compaction Index_Manager Hamt
begin

text \<open>
  \<^verbatim>\<open>src/engine.rs\<close>: the storage engine, which ties the write-ahead log, the memtable, the
  background compactor, the query indices, the persistent map behind snapshots and branches,
  and the read cache together. Third-party code enters through the record of parameters
  \<open>platform\<close>. An operation is \<open>None\<close> when the code does not return: the persistent map
  recurses without end on colliding hashes, and reversed range bounds or a damaged page panic.
  File operations do not fail. The worker thread is the step \<^const>\<open>bg_worker\<close>, which may
  happen between any two engine operations.
\<close>

section \<open>State\<close>

record platform =
  env_crc :: "bytes \<Rightarrow> u32"
  env_deflate :: "bytes \<Rightarrow> bytes"
  env_inflate :: "bytes \<Rightarrow> bytes option"
  env_bloom_m :: "nat \<Rightarrow> nat"
  env_bloom_k :: "nat \<Rightarrow> nat \<Rightarrow> nat"

definition DEFAULT_FLUSH_THRESHOLD :: nat where
  "DEFAULT_FLUSH_THRESHOLD = 32 * 1024 * 1024"

record engine =
  en_wal :: wal_writer
  en_memtable :: memtable
  en_frozen :: "memtable list"
  en_flush_threshold :: nat
  en_compactor :: compactor
  en_indices :: index_manager
  en_state :: hamt
  en_snapshots :: "(str \<times> hamt) list"
  en_snapshot_counter :: u64
  en_flush_count :: nat
  en_total_puts :: u64
  en_total_gets :: u64
  en_total_deletes :: u64
  en_cache :: lru_cache

abbreviation engine_cm :: "engine \<Rightarrow> compaction_manager" where
  "engine_cm e \<equiv> bg_cm (en_compactor e)"

section \<open>Flushing\<close>

definition frozen_to_page :: "platform \<Rightarrow> memtable \<Rightarrow> page \<times> memtable" where
  "frozen_to_page env mt =
     (let (entries, mt1) = memtable_drain mt;
          page = fold (\<lambda>(key, entry) page.
              let tombstone = (me_value entry = None);
                  value = (case me_value entry of None \<Rightarrow> [] | Some v \<Rightarrow> v)
              in page_push key value tombstone page) entries (page_new 0)
      in (page_build_bloom (env_bloom_m env) (env_bloom_k env) (page_sort page), mt1))"

definition memtable_to_page :: "platform \<Rightarrow> memtable \<Rightarrow> page \<times> memtable" where
  "memtable_to_page env mt =
     (let (entries, mt1) = memtable_drain mt;
          page = fold (\<lambda>(key, entry) page.
              let tombstone = (me_value entry = None);
                  value = (case me_value entry of None \<Rightarrow> [] | Some v \<Rightarrow> v)
              in page_push key value tombstone page) entries (page_new 0)
      in (page_build_bloom (env_bloom_m env) (env_bloom_k env) (page_sort page), mt1))"

fun trim_frozen :: "memtable list \<Rightarrow> memtable list" where
  "trim_frozen [] = []"
| "trim_frozen (f # fs) = (if length (f # fs) > 2 then trim_frozen fs else f # fs)"

text \<open>The old memtable is drained into the page before it joins the frozen list.\<close>

definition flush_memtable :: "platform \<Rightarrow> engine \<Rightarrow> engine" where
  "flush_memtable env e =
     (let old = en_memtable e;
          e1 = e\<lparr>en_memtable := memtable_new (en_flush_threshold e)\<rparr>;
          (page, old1) = frozen_to_page env old;
          e2 = e1\<lparr>en_compactor := bg_submit page (en_compactor e1)\<rparr>;
          e3 = e2\<lparr>en_frozen := trim_frozen (en_frozen e2 @ [old1])\<rparr>
      in e3\<lparr>en_flush_count := en_flush_count e3 + 1\<rparr>)"

definition cache_empty :: "engine \<Rightarrow> bool" where
  "cache_empty e = (lc_entries (en_cache e) = [])"

section \<open>Opening\<close>

text \<open>
  What the files of the data directory hold: the log, the page files, and the two index files.
\<close>

record disk =
  dk_wal :: "bytes option"
  dk_pages :: directory
  dk_hnsw :: "bytes option"
  dk_graph :: "bytes option"

definition load_hnsw :: "bytes option \<Rightarrow> index_manager \<Rightarrow> index_manager" where
  "load_hnsw file im =
     (case file of
        None \<Rightarrow> im
      | Some data \<Rightarrow> (case hnsw_deserialize data of Inr h \<Rightarrow> im\<lparr>im_hnsw := Some h\<rparr> | Inl e \<Rightarrow> im))"

definition load_graph :: "bytes option \<Rightarrow> index_manager \<Rightarrow> index_manager" where
  "load_graph file im =
     (case file of
        None \<Rightarrow> im
      | Some data \<Rightarrow> (case graph_deserialize data of Inr graph \<Rightarrow> im\<lparr>im_graph := graph\<rparr> | Inl e \<Rightarrow> im))"

definition utf8_or_empty :: "bytes \<Rightarrow> str" where
  "utf8_or_empty bs = (if utf8_valid bs then bs else [])"

definition replay_record :: "wal_record \<Rightarrow> memtable \<times> index_manager \<Rightarrow> memtable \<times> index_manager" where
  "replay_record r st =
     (case st of (mt, im) \<Rightarrow>
        if wr_value r = [] then (snd (memtable_delete (wr_key r) mt), im)
        else let key_str = utf8_or_empty (wr_key r); val_str = utf8_or_empty (wr_value r)
             in (snd (memtable_put (wr_key r) (wr_value r) mt),
                 im\<lparr>im_bm25 := add_document_direct (wr_key r) key_str val_str (im_bm25 im),
                    im_fuzzy := fuzzy_add key_str (im_fuzzy im)\<rparr>))"

definition live_entries :: "(bytes \<times> mem_entry) list \<Rightarrow> (bytes \<times> bytes) list" where
  "live_entries es =
     concat (map (\<lambda>(k, en). case me_value en of None \<Rightarrow> [] | Some v \<Rightarrow> [(k, v)]) es)"

definition open_with ::
  "platform \<Rightarrow> nat \<Rightarrow> page list \<times> page list \<times> page list \<Rightarrow> disk \<Rightarrow> engine option" where
  "open_with env threshold loaded d =
     (let mt0 = memtable_new threshold;
          compactor = bg_new (Some (dk_pages d));
          (l0, l1, l2) = loaded;
          cm = fold (\<lambda>(level, pages). cm_load_pages level pages) (enumerate 0 [l0, l1, l2]) (bg_cm compactor);
          compactor1 = compactor\<lparr>bg_cm := cm\<rparr>;
          im0 = index_manager_new;
          im1 = load_hnsw (dk_hnsw d) im0;
          im2 = load_graph (dk_graph d) im1;
          (mt2, im3, compactor2) =
            (case dk_wal d of
               None \<Rightarrow> (mt0, im2, compactor1)
             | Some file \<Rightarrow>
                 (let (records, corrupted) = replay (env_crc env) file;
                      (mt1, im) = fold replay_record records (mt0, im2)
                  in if memtable_should_flush mt1
                     then (let (page, mt2) = memtable_to_page env mt1 in (mt2, im, bg_submit page compactor1))
                     else (mt1, im, compactor1)))
      in map_option (\<lambda>initial_state.
           \<lparr>en_wal = wal_open (case dk_wal d of Some file \<Rightarrow> file | None \<Rightarrow> []),
            en_memtable = mt2, en_frozen = [], en_flush_threshold = threshold, en_compactor = compactor2,
            en_indices = im3, en_state = initial_state, en_snapshots = [], en_snapshot_counter = 0,
            en_flush_count = 0, en_total_puts = 0, en_total_gets = 0, en_total_deletes = 0,
            en_cache = cache_new 1024\<rparr>)
           (put_all hamt_put (live_entries (memtable_iter mt2)) hamt_new))"

definition engine_open :: "platform \<Rightarrow> nat \<Rightarrow> disk \<Rightarrow> engine option" where
  "engine_open env threshold d =
     Option.bind (load_all (env_inflate env) (dk_pages d)) (\<lambda>loaded. open_with env threshold loaded d)"

section \<open>Writes\<close>

definition engine_put :: "platform \<Rightarrow> bytes \<Rightarrow> bytes \<Rightarrow> engine \<Rightarrow> engine option" where
  "engine_put env key value e =
     (let e1 = e\<lparr>en_wal := wal_flush (wal_append (env_crc env) key value (en_wal e))\<rparr>;
          (should_flush, mt) = memtable_put key value (en_memtable e1);
          e2 = e1\<lparr>en_memtable := mt, en_total_puts := en_total_puts e1 + 1\<rparr>;
          e3 = (if \<not> cache_empty e2 then e2\<lparr>en_cache := cache_invalidate key (en_cache e2)\<rparr> else e2);
          e4 = e3\<lparr>en_indices := on_put key value (en_indices e3)\<rparr>
      in map_option (\<lambda>st. let e5 = e4\<lparr>en_state := st\<rparr> in if should_flush then flush_memtable env e5 else e5)
           (hamt_put key value (en_state e4)))"

text \<open>The timing variant: the same steps without the cache invalidation.\<close>

definition engine_put_profiled :: "platform \<Rightarrow> bytes \<Rightarrow> bytes \<Rightarrow> engine \<Rightarrow> engine option" where
  "engine_put_profiled env key value e =
     (let e1 = e\<lparr>en_wal := wal_flush (wal_append (env_crc env) key value (en_wal e))\<rparr>;
          (should_flush, mt) = memtable_put key value (en_memtable e1);
          e2 = e1\<lparr>en_memtable := mt, en_total_puts := en_total_puts e1 + 1\<rparr>;
          e4 = e2\<lparr>en_indices := on_put key value (en_indices e2)\<rparr>
      in map_option (\<lambda>st. let e5 = e4\<lparr>en_state := st\<rparr> in if should_flush then flush_memtable env e5 else e5)
           (hamt_put key value (en_state e4)))"

text \<open>One turn of the second loop of a batch: memtable, counter, indices, persistent map.\<close>

definition batch_write :: "bytes \<Rightarrow> bytes \<Rightarrow> engine \<times> bool \<Rightarrow> (engine \<times> bool) option" where
  "batch_write key value st =
     (case st of (e, should_flush) \<Rightarrow>
        (let (full, mt) = memtable_put key value (en_memtable e);
             e1 = e\<lparr>en_memtable := mt, en_total_puts := en_total_puts e + 1\<rparr>;
             e2 = e1\<lparr>en_indices := on_put key value (en_indices e1)\<rparr>
         in map_option (\<lambda>st. (e2\<lparr>en_state := st\<rparr>, should_flush \<or> full)) (hamt_put key value (en_state e2))))"

definition append_all :: "platform \<Rightarrow> (bytes \<times> bytes) list \<Rightarrow> wal_writer \<Rightarrow> wal_writer" where
  "append_all env entries w = fold (\<lambda>(key, value). wal_append (env_crc env) key value) entries w"

definition engine_put_batch :: "platform \<Rightarrow> (bytes \<times> bytes) list \<Rightarrow> engine \<Rightarrow> engine option" where
  "engine_put_batch env entries e =
     (let e1 = e\<lparr>en_wal := wal_flush (append_all env entries (en_wal e))\<rparr>;
          e2 = e1\<lparr>en_cache := cache_clear (en_cache e1)\<rparr>
      in map_option (\<lambda>(e3, should_flush). if should_flush then flush_memtable env e3 else e3)
           (put_all batch_write entries (e2, False)))"

definition engine_bulk_ingest :: "platform \<Rightarrow> (bytes \<times> bytes) list \<Rightarrow> engine \<Rightarrow> (nat \<times> engine) option" where
  "engine_bulk_ingest env entries e =
     (if entries = [] then Some (0, e)
      else
        (let e1 = e\<lparr>en_wal := wal_flush (append_all env entries (en_wal e))\<rparr>;
             e2 = e1\<lparr>en_cache := cache_clear (en_cache e1)\<rparr>
         in map_option (\<lambda>(e3, _). (length entries,
                if memtable_should_flush (en_memtable e3) then flush_memtable env e3 else e3))
              (put_all batch_write entries (e2, False))))"

definition engine_delete :: "platform \<Rightarrow> bytes \<Rightarrow> engine \<Rightarrow> engine" where
  "engine_delete env key e =
     (let e1 = e\<lparr>en_wal := wal_flush (wal_append (env_crc env) key [] (en_wal e))\<rparr>;
          (should_flush, mt) = memtable_delete key (en_memtable e1);
          e2 = e1\<lparr>en_memtable := mt, en_total_deletes := en_total_deletes e1 + 1\<rparr>;
          e3 = (if \<not> cache_empty e2 then e2\<lparr>en_cache := cache_invalidate key (en_cache e2)\<rparr> else e2);
          e4 = e3\<lparr>en_indices := on_delete key (en_indices e3)\<rparr>;
          e5 = e4\<lparr>en_state := hamt_delete key (en_state e4)\<rparr>
      in if should_flush then flush_memtable env e5 else e5)"

section \<open>Reads\<close>

fun frozen_entry :: "memtable list \<Rightarrow> bytes \<Rightarrow> mem_entry option" where
  "frozen_entry [] key = None"
| "frozen_entry (f # fs) key =
     (case memtable_get_entry f key of Some entry \<Rightarrow> Some entry | None \<Rightarrow> frozen_entry fs key)"

definition engine_get :: "bytes \<Rightarrow> engine \<Rightarrow> bytes option \<times> engine" where
  "engine_get key e =
     (let e1 = e\<lparr>en_total_gets := en_total_gets e + 1\<rparr>
      in case memtable_get_entry (en_memtable e1) key of
           Some entry \<Rightarrow> (me_value entry, e1)
         | None \<Rightarrow>
             (case frozen_entry (rev (en_frozen e1)) key of
                Some entry \<Rightarrow> (me_value entry, e1)
              | None \<Rightarrow>
                  (let (hit, lru) = cache_get key (en_cache e1); e2 = e1\<lparr>en_cache := lru\<rparr>
                   in case hit of
                        Some val \<Rightarrow> (Some val, e2)
                      | None \<Rightarrow>
                          (let result = cm_get (engine_cm e2) key
                           in case result of
                                Some val \<Rightarrow> (result, e2\<lparr>en_cache := cache_insert key val lru\<rparr>)
                              | None \<Rightarrow> (None, e2)))))"

text \<open>The timing variant of the read, which merges the two memtable lookups.\<close>

definition engine_get_profiled :: "bytes \<Rightarrow> engine \<Rightarrow> bytes option \<times> engine" where
  "engine_get_profiled key e =
     (let e1 = e\<lparr>en_total_gets := en_total_gets e + 1\<rparr>;
          entry = memtable_get_entry (en_memtable e1) key;
          frozen = (if entry = None then frozen_entry (rev (en_frozen e1)) key else None);
          found_entry = (case entry of Some en \<Rightarrow> Some en | None \<Rightarrow> frozen)
      in case found_entry of
           Some en \<Rightarrow> (me_value en, e1)
         | None \<Rightarrow>
             (let (hit, lru) = cache_get key (en_cache e1); e2 = e1\<lparr>en_cache := lru\<rparr>
              in case hit of
                   Some val \<Rightarrow> (Some val, e2)
                 | None \<Rightarrow>
                     (let result = cm_get (engine_cm e2) key
                      in case result of
                           Some val \<Rightarrow> (result, e2\<lparr>en_cache := cache_insert key val lru\<rparr>)
                         | None \<Rightarrow> (None, e2))))"

definition overlay_memtable ::
  "memtable \<Rightarrow> bytes \<Rightarrow> bytes \<Rightarrow> (bytes \<times> bytes) list \<Rightarrow> (bytes \<times> bytes) list option" where
  "overlay_memtable mt start endk results =
     map_option (\<lambda>es. fold (\<lambda>(key, entry) results.
           case me_value entry of Some value \<Rightarrow> bt_insert key value results | None \<Rightarrow> bt_remove key results)
         es results)
       (memtable_range mt start endk)"

fun overlay_frozen ::
  "memtable list \<Rightarrow> bytes \<Rightarrow> bytes \<Rightarrow> (bytes \<times> bytes) list \<Rightarrow> (bytes \<times> bytes) list option" where
  "overlay_frozen [] start endk results = Some results"
| "overlay_frozen (f # fs) start endk results =
     Option.bind (overlay_memtable f start endk results) (overlay_frozen fs start endk)"

definition engine_scan :: "bytes \<Rightarrow> bytes \<Rightarrow> engine \<Rightarrow> (bytes \<times> bytes) list option" where
  "engine_scan start endk e =
     (if en_frozen e = [] \<and> en_flush_count e = 0
      then map_option live_entries (memtable_range (en_memtable e) start endk)
      else Option.bind (overlay_frozen (en_frozen e) start endk (cm_scan (engine_cm e) start endk))
             (overlay_memtable (en_memtable e) start endk))"

section \<open>Maintenance\<close>

definition engine_flush :: "platform \<Rightarrow> engine \<Rightarrow> engine" where
  "engine_flush env e = (if \<not> memtable_is_empty (en_memtable e) then flush_memtable env e else e)"

definition engine_sync :: "engine \<Rightarrow> engine" where
  "engine_sync e = e\<lparr>en_wal := wal_sync (en_wal e)\<rparr>"

text \<open>
  Closing leaves the files: the synced log, the pages the worker saved before it was joined,
  the vector index when there is one, and the graph when it has a node. An index file that is
  not written stays as it was.
\<close>

definition engine_close :: "platform \<Rightarrow> disk \<Rightarrow> engine \<Rightarrow> disk" where
  "engine_close env d e =
     (let e1 = engine_sync (engine_flush env e);
          graph_data = graph_serialize (im_graph (en_indices e1));
          compactor = bg_drain (env_deflate env) (en_compactor e1)
      in \<lparr>dk_wal = Some (wal_file (en_wal e1)),
          dk_pages = (case bg_dir compactor of Some dir \<Rightarrow> dir | None \<Rightarrow> dk_pages d),
          dk_hnsw = (case im_hnsw (en_indices e1) of Some h \<Rightarrow> Some (hnsw_serialize h) | None \<Rightarrow> dk_hnsw d),
          dk_graph = (if graph_data \<noteq> [] \<and> node_count (im_graph (en_indices e1)) > 0
                      then Some graph_data else dk_graph d)\<rparr>)"

section \<open>Snapshots and branches\<close>

datatype engine_error =
    Snapshot_Not_Found str
  | Source_Snapshot_Not_Found str
  | Branch_Not_Found str

definition snapshot_create :: "str \<Rightarrow> engine \<Rightarrow> str \<times> engine" where
  "snapshot_create name e =
     (let (snap_id, e1) =
            (if name = []
             then (let c = en_snapshot_counter e + 1
                   in (ascii ''snap-'' @ decimal4 (unat c), e\<lparr>en_snapshot_counter := c\<rparr>))
             else (name, e))
      in (snap_id, e1\<lparr>en_snapshots := hm_insert snap_id (hamt_snapshot (en_state e1)) (en_snapshots e1)\<rparr>))"

definition snapshot_restore :: "str \<Rightarrow> engine \<Rightarrow> engine_error + engine" where
  "snapshot_restore name e =
     (case map_of (en_snapshots e) name of
        Some snap \<Rightarrow> Inr (e\<lparr>en_state := snap\<rparr>)
      | None \<Rightarrow> Inl (Snapshot_Not_Found name))"

definition snapshot_delete :: "str \<Rightarrow> engine \<Rightarrow> bool \<times> engine" where
  "snapshot_delete name e =
     (map_of (en_snapshots e) name \<noteq> None, e\<lparr>en_snapshots := bt_remove name (en_snapshots e)\<rparr>)"

definition snapshot_list :: "engine \<Rightarrow> str list" where
  "snapshot_list e = map fst (en_snapshots e)"

definition snapshot_get :: "str \<Rightarrow> bytes \<Rightarrow> engine \<Rightarrow> bytes option" where
  "snapshot_get name key e =
     Option.bind (map_of (en_snapshots e) name) (\<lambda>snap. hamt_get snap key)"

definition branch_create :: "str \<Rightarrow> str \<Rightarrow> engine \<Rightarrow> engine_error + str \<times> engine" where
  "branch_create branch_id from_snapshot e =
     (case (if from_snapshot = [] then Some (hamt_snapshot (en_state e))
            else map_of (en_snapshots e) from_snapshot) of
        None \<Rightarrow> Inl (Source_Snapshot_Not_Found from_snapshot)
      | Some base \<Rightarrow> Inr (branch_id, e\<lparr>en_snapshots := hm_insert branch_id base (en_snapshots e)\<rparr>))"

definition merge_write :: "platform \<Rightarrow> bytes \<Rightarrow> bytes \<Rightarrow> engine \<Rightarrow> engine option" where
  "merge_write env key value e =
     map_option (\<lambda>st.
         let e1 = e\<lparr>en_state := st\<rparr>;
             e2 = e1\<lparr>en_wal := wal_append (env_crc env) key value (en_wal e1)\<rparr>;
             e3 = e2\<lparr>en_memtable := snd (memtable_put key value (en_memtable e2))\<rparr>
         in e3\<lparr>en_indices := on_put key value (en_indices e3)\<rparr>)
       (hamt_put key value (en_state e))"

definition branch_merge :: "platform \<Rightarrow> str \<Rightarrow> engine \<Rightarrow> (engine_error + nat \<times> engine) option" where
  "branch_merge env branch_id e =
     (case map_of (en_snapshots e) branch_id of
        None \<Rightarrow> Some (Inl (Branch_Not_Found branch_id))
      | Some branch \<Rightarrow>
          (let entries = hamt_iter branch
           in map_option (\<lambda>e1. Inr (length entries, e1\<lparr>en_snapshots := bt_remove branch_id (en_snapshots e1)\<rparr>))
                (put_all (merge_write env) entries e)))"

definition branch_rollback :: "str \<Rightarrow> engine \<Rightarrow> bool \<times> engine" where
  "branch_rollback branch_id e =
     (map_of (en_snapshots e) branch_id \<noteq> None, e\<lparr>en_snapshots := bt_remove branch_id (en_snapshots e)\<rparr>)"

definition branch_diff ::
  "str \<Rightarrow> engine \<Rightarrow> engine_error + (bytes \<times> bytes option \<times> bytes option) list" where
  "branch_diff branch_id e =
     (case map_of (en_snapshots e) branch_id of
        None \<Rightarrow> Inl (Branch_Not_Found branch_id)
      | Some branch \<Rightarrow>
          Inr (concat (map (\<lambda>(key, branch_val).
                  let live_val = hamt_get (en_state e) key
                  in if live_val \<noteq> Some branch_val then [(key, live_val, Some branch_val)] else [])
                (hamt_iter branch)) @
               concat (map (\<lambda>(key, live_val).
                  if hamt_get branch key = None then [(key, Some live_val, None)] else [])
                (hamt_iter (en_state e)))))"

end
