(* ===== verification/Engine_Refinement.thy ===== *)
theory Engine_Refinement
  imports Engine
begin

text \<open>
  What the engine promises: it is a map from keys to values together with a second map behind
  snapshots and branches, and named copies of that second map. The lemmas show that every
  operation keeps the engine's invariant and acts on this abstraction as specified, as long as
  the worker has handled the flushed pages before the next operation and no compaction of L0
  has happened. What happens outside these conditions is stated by properties of their own.
\<close>

section \<open>Pages from memtables\<close>

definition entry_record :: "bytes \<times> mem_entry \<Rightarrow> page_record" where
  "entry_record ke =
     \<lparr>pr_key = fst ke, pr_value = (case me_value (snd ke) of None \<Rightarrow> [] | Some v \<Rightarrow> v),
      pr_tombstone = (me_value (snd ke) = None)\<rparr>"

lemma entry_record_key [simp]: "pr_key (entry_record ke) = fst ke"
  by (simp add: entry_record_def)

lemma page_build_bloom_records [simp]: "pg_records (page_build_bloom m k p) = pg_records p"
  by (simp add: page_build_bloom_def Let_def)

lemma frozen_to_page_records:
  assumes "memtable_ok mt"
  shows "pg_records (fst (frozen_to_page env mt)) = map entry_record (mt_entries mt)"
proof -
  have push: "pg_records (fold (\<lambda>(key, entry) page.
          page_push key (case me_value entry of None \<Rightarrow> [] | Some v \<Rightarrow> v) (me_value entry = None) page) es p) =
      pg_records p @ map entry_record es" for es p
    by (induction es arbitrary: p) (auto simp: page_push_def entry_record_def)
  have "sort_key pr_key (map entry_record (mt_entries mt)) = map entry_record (mt_entries mt)"
    using assms by (intro sort_key_unique) (simp_all add: memtable_ok_def bt_ok_def comp_def)
  then show ?thesis
    by (simp add: frozen_to_page_def memtable_drain_def Let_def page_sort_def push page_new_def)
qed

lemma memtable_to_page_frozen: "memtable_to_page = frozen_to_page"
  by (intro ext) (simp add: memtable_to_page_def frozen_to_page_def)

lemma frozen_to_page_page:
  assumes "memtable_ok mt"
  shows "page_ok (fst (frozen_to_page env mt))"
    and "page_entry (fst (frozen_to_page env mt)) k = mem_entry_of mt k"
proof -
  show ok: "page_ok (fst (frozen_to_page env mt))"
    using assms unfolding page_ok_def frozen_to_page_records [OF assms] memtable_ok_def bt_ok_def
    by (simp add: comp_def)
  have "map record_entry (map entry_record (mt_entries mt)) = map (\<lambda>(k, e). (k, me_value e)) (mt_entries mt)"
    by (auto simp: record_entry_def entry_record_def split: option.split)
  note entries = this
  show "page_entry (fst (frozen_to_page env mt)) k = mem_entry_of mt k"
    unfolding page_entry_map_of [OF ok] frozen_to_page_records [OF assms] entries
    by (simp add: mem_entry_of_def memtable_get_entry_def bt_get_def map_of_map_snd)
qed

lemma frozen_to_page_drained: "snd (frozen_to_page env mt) = snd (memtable_drain mt)"
  by (simp add: frozen_to_page_def memtable_drain_def Let_def)

section \<open>The cache as a map\<close>

definition cache_val :: "lru_cache \<Rightarrow> bytes \<Rightarrow> bytes option" where
  "cache_val c k = map_option ce_value (map_of (lc_entries c) k)"

lemma cache_get_val: "fst (cache_get k c) = cache_val c k"
  by (simp add: cache_get_def cache_val_def Let_def split: option.split)

lemma cache_get_keeps: "cache_val (snd (cache_get k c)) = cache_val c"
proof (cases "map_of (lc_entries c) k")
  case (Some en)
  then have "k \<in> fst ` set (lc_entries c)" by (auto dest: map_of_SomeD intro: rev_image_eqI)
  with Some show ?thesis by (auto simp: cache_get_def cache_val_def Let_def map_of_hm_set)
qed (simp add: cache_get_def)

lemma cache_insert_val: "cache_val (cache_insert k v c) k' = Some w \<Longrightarrow> k' = k \<and> w = v \<or> cache_val c k' = Some w"
  by (auto simp: cache_insert_def cache_val_def Let_def map_of_hm_set split: option.splits if_splits)

lemma cache_invalidate_val [simp]: "cache_val (cache_invalidate k c) = (cache_val c)(k := None)"
  by (rule ext) (simp add: cache_invalidate_def cache_val_def)

lemma cache_clear_val [simp]: "cache_val (cache_clear c) k = None"
  by (simp add: cache_clear_def cache_val_def)

lemma cache_empty_val: "lc_entries c = [] \<Longrightarrow> cache_val c k = None"
  by (simp add: cache_val_def)

section \<open>Invariant and abstraction\<close>

definition engine_map :: "engine \<Rightarrow> bytes \<Rightarrow> bytes option" where
  "engine_map e k = resolve (mem_entry_of (en_memtable e) k) (cm_get (engine_cm e) k)"

definition cache_coherent :: "engine \<Rightarrow> bool" where
  "cache_coherent e =
     (\<forall>k v. cache_val (en_cache e) k = Some v \<longrightarrow>
        mem_entry_of (en_memtable e) k = None \<and> cm_get (engine_cm e) k = Some v)"

definition layers_ok :: "engine \<Rightarrow> bool" where
  "layers_ok e =
     (memtable_ok (en_memtable e) \<and> (\<forall>f \<in> set (en_frozen e). mt_entries f = []) \<and>
      bg_queue (en_compactor e) = [] \<and> cm_pages_ok (engine_cm e) \<and>
      cm_l1 (engine_cm e) = [] \<and> cm_l2 (engine_cm e) = [] \<and>
      length (cm_l0 (engine_cm e)) = en_flush_count e)"

definition states_ok :: "engine \<Rightarrow> bool" where
  "states_ok e = (hamt_ok (en_state e) \<and> list_all (\<lambda>(n, h). hamt_ok h) (en_snapshots e))"

definition engine_ok :: "engine \<Rightarrow> bool" where
  "engine_ok e = (layers_ok e \<and> cache_coherent e \<and> states_ok e)"

text \<open>The steps of the writes before a possible flush.\<close>

definition catch_up :: "platform \<Rightarrow> engine \<Rightarrow> engine" where
  "catch_up env e = e\<lparr>en_compactor := bg_drain (env_deflate env) (en_compactor e)\<rparr>"

lemma bg_drain_idle: "bg_queue c = [] \<Longrightarrow> bg_drain deflate c = c"
  by (simp add: bg_drain_def)

lemma catch_up_idle: "layers_ok e \<Longrightarrow> catch_up env e = e"
  by (simp add: catch_up_def bg_drain_idle layers_ok_def)

lemma set_trim_frozen: "set (trim_frozen fs) \<subseteq> set fs"
  by (induction fs) auto

lemma flush_memtable_fields:
  "en_memtable (flush_memtable env e) = memtable_new (en_flush_threshold e)"
  "en_compactor (flush_memtable env e) = bg_submit (fst (frozen_to_page env (en_memtable e))) (en_compactor e)"
  "en_frozen (flush_memtable env e) = trim_frozen (en_frozen e @ [snd (memtable_drain (en_memtable e))])"
  "en_flush_count (flush_memtable env e) = en_flush_count e + 1"
  "en_cache (flush_memtable env e) = en_cache e"
  "en_state (flush_memtable env e) = en_state e"
  "en_snapshots (flush_memtable env e) = en_snapshots e"
  "en_snapshot_counter (flush_memtable env e) = en_snapshot_counter e"
  "en_wal (flush_memtable env e) = en_wal e"
  using frozen_to_page_drained [of env "en_memtable e"]
  by (auto simp: flush_memtable_def Let_def split: prod.splits)

lemma flushed_cm:
  assumes "bg_queue (en_compactor e) = []"
  shows "engine_cm (catch_up env (flush_memtable env e)) =
      add_l0_page (env_deflate env) (fst (frozen_to_page env (en_memtable e))) (engine_cm e)"
    and "bg_queue (en_compactor (catch_up env (flush_memtable env e))) = []"
  using assms by (simp_all add: catch_up_def bg_drain_state flush_memtable_fields bg_submit_def)

lemma flush_layers:
  assumes "layers_ok e" "en_flush_count e < 3"
  shows "layers_ok (catch_up env (flush_memtable env e))"
    and "cm_get (engine_cm (catch_up env (flush_memtable env e))) k = engine_map e k"
    and "mem_entry_of (en_memtable (catch_up env (flush_memtable env e))) k = None"
proof -
  let ?p = "fst (frozen_to_page env (en_memtable e))"
  have ok: "memtable_ok (en_memtable e)" and q: "bg_queue (en_compactor e) = []"
    and cm: "cm_pages_ok (engine_cm e)" "cm_l1 (engine_cm e) = []" "cm_l2 (engine_cm e) = []"
      "length (cm_l0 (engine_cm e)) < 3"
    and frozen: "\<forall>f \<in> set (en_frozen e). mt_entries f = []"
    using assms by (simp_all add: layers_ok_def)
  have add: "add_l0_page (env_deflate env) ?p (engine_cm e) = (engine_cm e)\<lparr>cm_l0 := cm_l0 (engine_cm e) @ [?p]\<rparr>"
    using cm(4) by (simp add: add_l0_page_def L0_LIMIT_def Let_def)
  have "\<forall>f \<in> set (trim_frozen (en_frozen e @ [snd (memtable_drain (en_memtable e))])). mt_entries f = []"
    using frozen set_trim_frozen by (fastforce simp: memtable_drain_def)
  moreover have "length (cm_l0 (engine_cm e)) = en_flush_count e"
    using assms(1) by (simp add: layers_ok_def)
  ultimately show "layers_ok (catch_up env (flush_memtable env e))"
    using flushed_cm [OF q, of env] cm frozen_to_page_page(1) [OF ok, of env]
    by (simp add: layers_ok_def add) (auto simp: catch_up_def flush_memtable_fields cm_pages_ok_def)
  show "cm_get (engine_cm (catch_up env (flush_memtable env e))) k = engine_map e k"
    using frozen_to_page_page(2) [OF ok, of env k]
    by (simp add: flushed_cm(1) [OF q] add engine_map_def cm_get_search search_pages_Cons split: option.split)
  show "mem_entry_of (en_memtable (catch_up env (flush_memtable env e))) k = None"
    by (simp add: catch_up_def flush_memtable_fields)
qed

lemma flush_keeps:
  assumes "engine_ok e" "en_flush_count e < 3"
  shows "engine_ok (catch_up env (flush_memtable env e))"
    and "engine_map (catch_up env (flush_memtable env e)) = engine_map e"
proof -
  have l: "layers_ok e" and c: "cache_coherent e" and s: "states_ok e"
    using assms(1) by (simp_all add: engine_ok_def)
  note fl = flush_layers [OF l assms(2), of env]
  show map: "engine_map (catch_up env (flush_memtable env e)) = engine_map e"
    by (rule ext) (simp add: engine_map_def [of "catch_up env _"] fl)
  have "cache_coherent (catch_up env (flush_memtable env e))"
    using c unfolding cache_coherent_def fl by (simp add: catch_up_def flush_memtable_fields engine_map_def)
  moreover have "states_ok (catch_up env (flush_memtable env e))"
    using s by (simp add: states_ok_def catch_up_def flush_memtable_fields)
  ultimately show "engine_ok (catch_up env (flush_memtable env e))"
    using fl(1) by (simp add: engine_ok_def)
qed

section \<open>Writes\<close>

text \<open>What a write does before a possible flush: one memtable entry, no stale cache entry.\<close>

definition wrote :: "bytes \<Rightarrow> bytes option \<Rightarrow> engine \<Rightarrow> engine \<Rightarrow> bool" where
  "wrote k v e e' =
     (en_memtable e' = mem_write k v (en_memtable e) \<and> en_frozen e' = en_frozen e \<and>
      en_compactor e' = en_compactor e \<and> en_flush_count e' = en_flush_count e \<and>
      en_snapshots e' = en_snapshots e \<and> en_snapshot_counter e' = en_snapshot_counter e \<and>
      cache_val (en_cache e') = (cache_val (en_cache e))(k := None) \<and>
      (hamt_ok (en_state e) \<longrightarrow> hamt_ok (en_state e') \<and>
         hamt_get (en_state e') = (hamt_get (en_state e))(k := v)))"

lemma wrote_layers:
  assumes "layers_ok e" "wrote k v e e'"
  shows "layers_ok e'" "engine_map e' = (engine_map e)(k := v)"
  using assms by (auto simp: wrote_def layers_ok_def engine_map_def memtable_ok_write mem_entry_of_write)

lemma wrote_ok:
  assumes "engine_ok e" "wrote k v e e'"
  shows "engine_ok e'"
  using assms wrote_layers [of e k v e']
  by (auto simp: engine_ok_def wrote_def cache_coherent_def states_ok_def mem_entry_of_write)

lemma engine_put_wrote:
  assumes "engine_put env k v e = Some e'"
  obtains e1 where "wrote k (Some v) e e1"
    "e' = (if memtable_should_flush (en_memtable e1) then flush_memtable env e1 else e1)"
proof -
  let ?e1 = "e\<lparr>en_wal := wal_flush (wal_append (env_crc env) k v (en_wal e)),
      en_memtable := mem_write k (Some v) (en_memtable e), en_total_puts := en_total_puts e + 1,
      en_cache := if cache_empty e then en_cache e else cache_invalidate k (en_cache e),
      en_indices := on_put k v (en_indices e)\<rparr>"
  from assms obtain st where st: "hamt_put k v (en_state e) = Some st"
    and e': "e' = (if memtable_should_flush (mem_write k (Some v) (en_memtable e))
      then flush_memtable env (?e1\<lparr>en_state := st\<rparr>) else ?e1\<lparr>en_state := st\<rparr>)"
    by (auto simp: engine_put_def Let_def memtable_put_write cache_empty_def split: if_splits)
  have "wrote k (Some v) e (?e1\<lparr>en_state := st\<rparr>)"
    using hamt_kv.put_ok [OF _ st] hamt_kv.put_get [OF _ st]
    by (auto simp: wrote_def cache_empty_def cache_empty_val)
  moreover obtain e1 where "e1 = ?e1\<lparr>en_state := st\<rparr>" "en_memtable e1 = mem_write k (Some v) (en_memtable e)"
    by simp
  ultimately show thesis using e' by (intro that [of e1]) simp_all
qed

lemma engine_delete_wrote:
  obtains e1 where "wrote k None e e1"
    "engine_delete env k e = (if memtable_should_flush (en_memtable e1) then flush_memtable env e1 else e1)"
proof -
  let ?e1 = "e\<lparr>en_wal := wal_flush (wal_append (env_crc env) k [] (en_wal e)),
      en_memtable := mem_write k None (en_memtable e), en_total_deletes := en_total_deletes e + 1,
      en_cache := if cache_empty e then en_cache e else cache_invalidate k (en_cache e),
      en_indices := on_delete k (en_indices e), en_state := hamt_delete k (en_state e)\<rparr>"
  have "wrote k None e ?e1"
    using hamt_kv.delete_ok hamt_kv.delete_get
    by (auto simp: wrote_def cache_empty_def cache_empty_val)
  moreover have "engine_delete env k e =
      (if memtable_should_flush (en_memtable ?e1) then flush_memtable env ?e1 else ?e1)"
    by (simp add: engine_delete_def Let_def memtable_delete_write cache_empty_def)
  ultimately show thesis by (rule that)
qed

text \<open>The loop of the batch writes and of branch merges, on the two maps of the engine.\<close>

interpretation batch_live: kv_writer batch_write "\<lambda>st. engine_map (fst st)"
  "\<lambda>st. layers_ok (fst st) \<and> lc_entries (en_cache (fst st)) = []"
proof
  fix m m' :: "engine \<times> bool" and k v
  assume ok: "layers_ok (fst m) \<and> lc_entries (en_cache (fst m)) = []" and put: "batch_write k v m = Some m'"
  obtain e b where m: "m = (e, b)" by fastforce
  from put m have m': "en_memtable (fst m') = mem_write k (Some v) (en_memtable e)"
    "en_frozen (fst m') = en_frozen e" "en_compactor (fst m') = en_compactor e"
    "en_flush_count (fst m') = en_flush_count e" "en_cache (fst m') = en_cache e"
    by (auto simp: batch_write_def memtable_put_write Let_def)
  show "layers_ok (fst m') \<and> lc_entries (en_cache (fst m')) = []"
    using ok m m' by (auto simp: layers_ok_def memtable_ok_write)
  show "engine_map (fst m') = (engine_map (fst m))(k \<mapsto> v)"
    using m m' by (auto simp: engine_map_def mem_entry_of_write fun_eq_iff)
qed

interpretation batch_state: hashed_writer batch_write "\<lambda>st. hamt_get (en_state (fst st))"
  "\<lambda>st. hamt_ok (en_state (fst st))" fnv1a
proof (unfold_locales, goal_cases)
  case (3 m k v)
  then show ?case
    using hamt_hashed.put_returns [of "en_state (fst m)" k v]
    by (auto simp: batch_write_def memtable_put_write Let_def simp del: inj_on_insert split: prod.splits)
qed (auto simp: batch_write_def memtable_put_write Let_def hamt_kv.put_get hamt_kv.put_ok)

interpretation merge_live: kv_writer "merge_write env" engine_map layers_ok for env
proof
  fix m m' k v assume ok: "layers_ok m" and put: "merge_write env k v m = Some m'"
  from put have m': "en_memtable m' = mem_write k (Some v) (en_memtable m)"
    "en_frozen m' = en_frozen m" "en_compactor m' = en_compactor m" "en_flush_count m' = en_flush_count m"
    by (auto simp: merge_write_def memtable_put_write Let_def)
  show "layers_ok m'" using ok m' by (auto simp: layers_ok_def memtable_ok_write)
  show "engine_map m' = (engine_map m)(k \<mapsto> v)"
    using m' by (auto simp: engine_map_def mem_entry_of_write fun_eq_iff)
qed

interpretation merge_state: hashed_writer "merge_write env" "\<lambda>e. hamt_get (en_state e)"
  "\<lambda>e. hamt_ok (en_state e)" fnv1a for env
proof (unfold_locales, goal_cases)
  case (3 m k v)
  then show ?case
    using hamt_hashed.put_returns [of "en_state m" k v]
    by (auto simp: merge_write_def memtable_put_write Let_def simp del: inj_on_insert split: prod.splits)
qed (auto simp: merge_write_def memtable_put_write Let_def hamt_kv.put_get hamt_kv.put_ok)

lemma batch_keeps:
  assumes "put_all batch_write kvs (e, b) = Some (e', b')"
  shows "en_cache e' = en_cache e \<and> en_snapshots e' = en_snapshots e \<and> en_frozen e' = en_frozen e \<and>
    en_snapshot_counter e' = en_snapshot_counter e \<and> en_flush_count e' = en_flush_count e \<and>
    en_compactor e' = en_compactor e \<and> en_wal e' = en_wal e"
  using assms
proof (induction kvs arbitrary: e b)
  case (Cons kv kvs)
  then obtain e1 b1 where e1: "batch_write (fst kv) (snd kv) (e, b) = Some (e1, b1)"
    "put_all batch_write kvs (e1, b1) = Some (e', b')"
    by (auto split: option.splits)
  from e1(1) have "en_cache e1 = en_cache e \<and> en_snapshots e1 = en_snapshots e \<and> en_frozen e1 = en_frozen e \<and>
      en_snapshot_counter e1 = en_snapshot_counter e \<and> en_flush_count e1 = en_flush_count e \<and>
      en_compactor e1 = en_compactor e \<and> en_wal e1 = en_wal e"
    by (auto simp: batch_write_def Let_def split: prod.splits)
  with Cons.IH [OF e1(2)] show ?case by simp
qed simp

text \<open>Both batch operations: the right-biased union with the pairs, then perhaps a flush.\<close>

definition batch_wrote :: "(bytes \<times> bytes) list \<Rightarrow> engine \<Rightarrow> engine \<Rightarrow> bool" where
  "batch_wrote kvs e e' =
     (engine_ok e' \<and> engine_map e' = engine_map e ++ map_of (rev kvs) \<and>
      hamt_get (en_state e') = hamt_get (en_state e) ++ map_of (rev kvs) \<and>
      en_snapshots e' = en_snapshots e \<and> en_snapshot_counter e' = en_snapshot_counter e \<and>
      en_flush_count e' = en_flush_count e)"

lemma batch_loop:
  assumes "engine_ok e" "e1 = e\<lparr>en_wal := w, en_cache := cache_clear (en_cache e)\<rparr>"
    "put_all batch_write kvs (e1, False) = Some (e2, b)"
  shows "batch_wrote kvs e e2"
proof -
  have l: "layers_ok e1" and c: "lc_entries (en_cache e1) = []" and h: "hamt_ok (en_state e1)"
    and s: "states_ok e1" and m: "engine_map e1 = engine_map e" "en_state e1 = en_state e"
      "en_snapshots e1 = en_snapshots e" "en_snapshot_counter e1 = en_snapshot_counter e"
      "en_flush_count e1 = en_flush_count e"
    using assms(1,2)
    by (auto simp: engine_ok_def layers_ok_def states_ok_def cache_clear_def engine_map_def fun_eq_iff)
  have "layers_ok e2 \<and> lc_entries (en_cache e2) = []" "engine_map e2 = engine_map e ++ map_of (rev kvs)"
    using batch_live.put_all_ok [OF _ assms(3)] batch_live.put_all_get [OF _ assms(3)] l c m by simp_all
  moreover have "hamt_ok (en_state e2)" "hamt_get (en_state e2) = hamt_get (en_state e) ++ map_of (rev kvs)"
    using batch_state.put_all_ok [OF _ assms(3)] batch_state.put_all_get [OF _ assms(3)] h m by simp_all
  ultimately show ?thesis
    using batch_keeps [OF assms(3)] s m
    by (auto simp: batch_wrote_def engine_ok_def states_ok_def cache_coherent_def cache_empty_val)
qed

lemma engine_put_batch_wrote:
  assumes "engine_ok e" "engine_put_batch env kvs e = Some e'"
  obtains e1 b where "batch_wrote kvs e e1" "e' = (if b then flush_memtable env e1 else e1)"
proof -
  let ?e1 = "e\<lparr>en_wal := wal_flush (append_all env kvs (en_wal e)), en_cache := cache_clear (en_cache e)\<rparr>"
  from assms(2) obtain e2 b where "put_all batch_write kvs (?e1, False) = Some (e2, b)"
    "e' = (if b then flush_memtable env e2 else e2)"
    by (auto simp: engine_put_batch_def Let_def)
  with batch_loop [OF assms(1) refl] show thesis by (intro that) blast+
qed

lemma engine_bulk_ingest_wrote:
  assumes "engine_ok e" "engine_bulk_ingest env kvs e = Some (n, e')"
  obtains e1 b where "batch_wrote kvs e e1" "e' = (if b then flush_memtable env e1 else e1)" "n = length kvs"
proof (cases "kvs = []")
  case True
  with assms show thesis
    by (intro that [of e False]) (auto simp: engine_bulk_ingest_def batch_wrote_def)
next
  case False
  let ?e1 = "e\<lparr>en_wal := wal_flush (append_all env kvs (en_wal e)), en_cache := cache_clear (en_cache e)\<rparr>"
  from assms(2) False obtain e2 b where "put_all batch_write kvs (?e1, False) = Some (e2, b)"
    "e' = (if memtable_should_flush (en_memtable e2) then flush_memtable env e2 else e2)" "n = length kvs"
    by (auto simp: engine_bulk_ingest_def Let_def)
  with batch_loop [OF assms(1) refl] show thesis by (intro that) blast+
qed

section \<open>Reads\<close>

lemma frozen_entry_empty: "\<forall>f \<in> set fs. mt_entries f = [] \<Longrightarrow> frozen_entry fs k = None"
  by (induction fs) (auto simp: memtable_get_entry_def)

lemma engine_get_reads:
  assumes "layers_ok e" "cache_coherent e"
  shows "fst (engine_get k e) = engine_map e k"
proof -
  have "frozen_entry (rev (en_frozen e)) k = None"
    using assms(1) by (intro frozen_entry_empty) (simp add: layers_ok_def)
  moreover have "cache_val (en_cache e) k = Some v \<Longrightarrow> cm_get (engine_cm e) k = Some v" for v
    using assms(2) by (simp add: cache_coherent_def)
  ultimately show ?thesis
    using cache_get_val [of k "en_cache e", symmetric]
    by (auto simp: engine_get_def engine_map_def mem_entry_of_def Let_def split: option.split prod.split)
qed

lemma engine_get_fields:
  "en_memtable (snd (engine_get k e)) = en_memtable e" "en_frozen (snd (engine_get k e)) = en_frozen e"
  "en_compactor (snd (engine_get k e)) = en_compactor e" "en_state (snd (engine_get k e)) = en_state e"
  "en_snapshots (snd (engine_get k e)) = en_snapshots e" "en_flush_count (snd (engine_get k e)) = en_flush_count e"
  "en_snapshot_counter (snd (engine_get k e)) = en_snapshot_counter e" "en_wal (snd (engine_get k e)) = en_wal e"
  by (simp_all add: engine_get_def Let_def split: option.split prod.split)

lemma engine_get_cache:
  assumes "cache_val (en_cache (snd (engine_get k e))) k' = Some v"
  shows "cache_val (en_cache e) k' = Some v \<or>
    k' = k \<and> mem_entry_of (en_memtable e) k = None \<and> cm_get (engine_cm e) k = Some v"
proof -
  obtain hit lru where c: "cache_get k (en_cache e) = (hit, lru)" by fastforce
  then have "cache_val lru = cache_val (en_cache e)"
    using cache_get_keeps [of k "en_cache e"] by simp
  with assms c show ?thesis
    by (auto simp: engine_get_def Let_def mem_entry_of_def split: option.splits dest!: cache_insert_val)
qed

lemma engine_get_keeps:
  assumes "engine_ok e"
  shows "engine_ok (snd (engine_get k e))" "engine_map (snd (engine_get k e)) = engine_map e"
proof -
  show "engine_map (snd (engine_get k e)) = engine_map e"
    by (rule ext) (simp add: engine_map_def engine_get_fields)
  have "cache_coherent (snd (engine_get k e))"
    using assms engine_get_cache [of k e] by (fastforce simp: engine_ok_def cache_coherent_def engine_get_fields)
  with assms show "engine_ok (snd (engine_get k e))"
    by (simp add: engine_ok_def layers_ok_def states_ok_def engine_get_fields)
qed

lemma overlay_memtable_run:
  "start \<le> endk \<Longrightarrow> overlay_memtable mt start endk m = Some (overlay (mem_run mt start endk) m)"
proof -
  have "fold (\<lambda>(key, entry) results.
      case me_value entry of Some value \<Rightarrow> bt_insert key value results | None \<Rightarrow> bt_remove key results) es m =
    overlay (map (\<lambda>(k, en). (k, me_value en)) es) m" for es
    by (induction es arbitrary: m) (auto simp: overlay_def split: option.split)
  moreover assume "start \<le> endk"
  ultimately show ?thesis
    by (simp add: overlay_memtable_def memtable_range_def mem_run_def not_less [symmetric])
qed

lemma overlay_frozen_empty:
  "start \<le> endk \<Longrightarrow> \<forall>f \<in> set fs. mt_entries f = [] \<Longrightarrow> overlay_frozen fs start endk m = Some m"
  by (induction fs) (simp_all add: overlay_memtable_run mem_run_def bt_range_def overlay_def)

lemma live_entries_keys: "fst ` set (live_entries es) \<subseteq> fst ` set es"
  by (force simp: live_entries_def split: option.splits)

lemma live_entries_bt:
  assumes "bt_ok es"
  shows "bt_ok (live_entries es)" "bt_get (live_entries es) k = Option.bind (bt_get es k) me_value"
proof -
  have "bt_ok (live_entries es) \<and> bt_get (live_entries es) k = Option.bind (bt_get es k) me_value"
    using assms
  proof (induction es)
    case (Cons ke es)
    obtain k' en where ke: "ke = (k', en)" by fastforce
    have live: "live_entries (ke # es) = (case me_value en of None \<Rightarrow> [] | Some v \<Rightarrow> [(k', v)]) @ live_entries es"
      by (simp add: live_entries_def ke)
    have none: "bt_get (live_entries es) k' = None"
      using Cons.prems ke live_entries_keys [of es] by (fastforce simp: bt_ok_Cons bt_get_None_iff)
    have "k' < a" if "(a, b) \<in> set (live_entries es)" for a b
      using that Cons.prems ke live_entries_keys [of es] by (fastforce simp: bt_ok_Cons)
    then show ?case
      using Cons ke none
      by (auto simp: live [unfolded ke] bt_ok_Cons bt_get_def split: option.split)
  qed (simp add: live_entries_def)
  then show "bt_ok (live_entries es)" "bt_get (live_entries es) k = Option.bind (bt_get es k) me_value"
    by blast+
qed

lemma engine_scan_fast:
  assumes "memtable_ok (en_memtable e)" "en_frozen e = []" "en_flush_count e = 0" "start \<le> endk"
  shows "\<exists>xs. engine_scan start endk e = Some xs \<and> bt_ok xs \<and>
    (\<forall>k. bt_get xs k = (if start \<le> k \<and> k < endk then memtable_get (en_memtable e) k else None))"
proof -
  have "bt_ok (bt_range (mt_entries (en_memtable e)) start endk)"
    using assms(1) by (simp add: memtable_ok_def)
  note live_entries_bt [OF this]
  with assms show ?thesis
    by (auto simp: engine_scan_def memtable_range_def memtable_get_def)
qed

lemma engine_scan_reads:
  assumes "layers_ok e" "start \<le> endk"
  shows "\<exists>xs. engine_scan start endk e = Some xs \<and> bt_ok xs \<and>
    (\<forall>k. bt_get xs k = (if start \<le> k \<and> k < endk then engine_map e k else None))"
proof (cases "en_frozen e = [] \<and> en_flush_count e = 0")
  case True
  then have "cm_get (engine_cm e) k = None" for k
    using assms(1) by (simp add: layers_ok_def cm_get_search)
  then have "memtable_get (en_memtable e) = engine_map e"
    by (intro ext) (simp add: engine_map_def memtable_get_entry_of)
  moreover have "memtable_ok (en_memtable e)"
    using assms(1) by (simp add: layers_ok_def)
  ultimately show ?thesis
    using engine_scan_fast [of e start endk] True assms(2) by metis
next
  case False
  let ?base = "cm_scan (engine_cm e) start endk"
  have ok: "memtable_ok (en_memtable e)" "cm_pages_ok (engine_cm e)" "\<forall>f \<in> set (en_frozen e). mt_entries f = []"
    using assms(1) by (simp_all add: layers_ok_def)
  have scan: "engine_scan start endk e = Some (overlay (mem_run (en_memtable e) start endk) ?base)"
    using False overlay_frozen_empty [OF assms(2) ok(3)] overlay_memtable_run [OF assms(2)]
    by (auto simp: engine_scan_def)
  have "bt_get (overlay (mem_run (en_memtable e) start endk) ?base) k =
      (if start \<le> k \<and> k < endk then engine_map e k else None)" for k
    using mem_run.range_keys [OF ok(1)] mem_run.range_entry [OF ok(1)]
    by (simp add: bt_get_overlay cm_scan_get [OF ok(2)] engine_map_def)
  with scan show ?thesis by (auto intro: bt_ok_overlay bt_ok_cm_scan)
qed

lemma engine_scan_panics: "endk < start \<Longrightarrow> engine_scan start endk e = None"
proof -
  assume "endk < start"
  then have panic: "memtable_range m start endk = None" for m
    by (simp add: memtable_range_def)
  then have "overlay_memtable m start endk r = None" for m r
    by (simp add: overlay_memtable_def)
  then have "Option.bind (overlay_frozen fs start endk r) (overlay_memtable m start endk) = None" for fs m r
    by (cases "overlay_frozen fs start endk r") simp_all
  with panic show ?thesis by (simp add: engine_scan_def)
qed

lemma engine_scan_returns: "start \<le> endk \<Longrightarrow> \<exists>xs. engine_scan start endk e = Some xs"
proof -
  assume le: "start \<le> endk"
  have "\<exists>xs. overlay_frozen fs start endk m = Some xs" for fs m
    by (induction fs arbitrary: m) (simp_all add: overlay_memtable_run [OF le])
  with le show ?thesis
    by (auto simp: engine_scan_def overlay_memtable_run memtable_range_def bind_eq_Some_conv)
qed

end
