(* ===== verification/Engine_Run.thy ===== *)
theory Engine_Run
  imports Engine_Refinement
begin

text \<open>
  Runs of the engine against its specification: a live map, the map of the persistent state,
  named copies of the latter and the counter for automatic snapshot names. The first part
  defines the calls, the specification and the simulation; the properties follow.
\<close>

section \<open>Calls\<close>

datatype engine_op =
    EPut bytes bytes
  | EPutBatch "(bytes \<times> bytes) list"
  | EBulkIngest "(bytes \<times> bytes) list"
  | EDelete bytes
  | EGet bytes
  | EScan bytes bytes
  | EFlush
  | ESync
  | ESnapshotCreate str
  | ESnapshotRestore str
  | ESnapshotDelete str
  | ESnapshotGet str bytes
  | EBranchCreate str str
  | EBranchRollback str

datatype engine_out =
    ODone
  | OCount nat
  | OValue "bytes option"
  | OEntries "(bytes \<times> bytes) list"
  | OName str
  | OFlag bool
  | OError engine_error

fun engine_do :: "platform \<Rightarrow> engine_op \<Rightarrow> engine \<Rightarrow> (engine_out \<times> engine) option" where
  "engine_do env (EPut k v) e = map_option (Pair ODone) (engine_put env k v e)"
| "engine_do env (EPutBatch kvs) e = map_option (Pair ODone) (engine_put_batch env kvs e)"
| "engine_do env (EBulkIngest kvs) e = map_option (\<lambda>(n, e'). (OCount n, e')) (engine_bulk_ingest env kvs e)"
| "engine_do env (EDelete k) e = Some (ODone, engine_delete env k e)"
| "engine_do env (EGet k) e = (case engine_get k e of (v, e') \<Rightarrow> Some (OValue v, e'))"
| "engine_do env (EScan a b) e = map_option (\<lambda>xs. (OEntries xs, e)) (engine_scan a b e)"
| "engine_do env EFlush e = Some (ODone, engine_flush env e)"
| "engine_do env ESync e = Some (ODone, engine_sync e)"
| "engine_do env (ESnapshotCreate n) e = (case snapshot_create n e of (i, e') \<Rightarrow> Some (OName i, e'))"
| "engine_do env (ESnapshotRestore n) e =
     Some (case snapshot_restore n e of Inl err \<Rightarrow> (OError err, e) | Inr e' \<Rightarrow> (ODone, e'))"
| "engine_do env (ESnapshotDelete n) e = (case snapshot_delete n e of (b, e') \<Rightarrow> Some (OFlag b, e'))"
| "engine_do env (ESnapshotGet n k) e = Some (OValue (snapshot_get n k e), e)"
| "engine_do env (EBranchCreate b n) e =
     Some (case branch_create b n e of Inl err \<Rightarrow> (OError err, e) | Inr (i, e') \<Rightarrow> (OName i, e'))"
| "engine_do env (EBranchRollback b) e = (case branch_rollback b e of (f, e') \<Rightarrow> Some (OFlag f, e'))"

text \<open>A run in which the worker has emptied its queue before the next call.\<close>

primrec engine_run :: "platform \<Rightarrow> engine_op list \<Rightarrow> engine \<Rightarrow> (engine_out list \<times> engine) option" where
  "engine_run env [] e = Some ([], e)"
| "engine_run env (op # ops) e =
     (case engine_do env op e of
        None \<Rightarrow> None
      | Some (out, e1) \<Rightarrow>
          map_option (\<lambda>(outs, e'). (out # outs, e')) (engine_run env ops (catch_up env e1)))"

section \<open>Specification\<close>

record store_spec =
  sp_live :: "bytes \<rightharpoonup> bytes"
  sp_state :: "bytes \<rightharpoonup> bytes"
  sp_snapshots :: "str \<Rightarrow> (bytes \<rightharpoonup> bytes) option"
  sp_counter :: u64

definition spec_update :: "(bytes \<times> bytes option) list \<Rightarrow> store_spec \<Rightarrow> store_spec" where
  "spec_update ws s =
     s\<lparr>sp_live := fold (\<lambda>(k, v) m. m(k := v)) ws (sp_live s),
       sp_state := fold (\<lambda>(k, v) m. m(k := v)) ws (sp_state s)\<rparr>"

definition snap_name :: "str \<Rightarrow> store_spec \<Rightarrow> str" where
  "snap_name n s = (if n = [] then ascii ''snap-'' @ decimal4 (unat (sp_counter s + 1)) else n)"

fun spec_next :: "engine_op \<Rightarrow> store_spec \<Rightarrow> store_spec" where
  "spec_next (EPut k v) s = spec_update [(k, Some v)] s"
| "spec_next (EPutBatch kvs) s = spec_update (map (\<lambda>(k, v). (k, Some v)) kvs) s"
| "spec_next (EBulkIngest kvs) s = spec_update (map (\<lambda>(k, v). (k, Some v)) kvs) s"
| "spec_next (EDelete k) s = spec_update [(k, None)] s"
| "spec_next (ESnapshotCreate n) s =
     s\<lparr>sp_snapshots := (sp_snapshots s)(snap_name n s \<mapsto> sp_state s),
       sp_counter := (if n = [] then sp_counter s + 1 else sp_counter s)\<rparr>"
| "spec_next (ESnapshotRestore n) s =
     (case sp_snapshots s n of None \<Rightarrow> s | Some m \<Rightarrow> s\<lparr>sp_state := m\<rparr>)"
| "spec_next (ESnapshotDelete n) s = s\<lparr>sp_snapshots := (sp_snapshots s)(n := None)\<rparr>"
| "spec_next (EBranchCreate b n) s =
     (case if n = [] then Some (sp_state s) else sp_snapshots s n of
        None \<Rightarrow> s
      | Some m \<Rightarrow> s\<lparr>sp_snapshots := (sp_snapshots s)(b \<mapsto> m)\<rparr>)"
| "spec_next (EBranchRollback b) s = s\<lparr>sp_snapshots := (sp_snapshots s)(b := None)\<rparr>"
| "spec_next _ s = s"

fun spec_out :: "engine_op \<Rightarrow> store_spec \<Rightarrow> engine_out \<Rightarrow> bool" where
  "spec_out (EBulkIngest kvs) s out = (out = OCount (length kvs))"
| "spec_out (EGet k) s out = (out = OValue (sp_live s k))"
| "spec_out (EScan a b) s out =
     (\<exists>xs. out = OEntries xs \<and> bt_ok xs \<and>
        (\<forall>k. bt_get xs k = (if a \<le> k \<and> k < b then sp_live s k else None)))"
| "spec_out (ESnapshotCreate n) s out = (out = OName (snap_name n s))"
| "spec_out (ESnapshotRestore n) s out =
     (out = (if sp_snapshots s n = None then OError (Snapshot_Not_Found n) else ODone))"
| "spec_out (ESnapshotDelete n) s out = (out = OFlag (sp_snapshots s n \<noteq> None))"
| "spec_out (ESnapshotGet n k) s out = (out = OValue (Option.bind (sp_snapshots s n) (\<lambda>m. m k)))"
| "spec_out (EBranchCreate b n) s out =
     (out = (if n \<noteq> [] \<and> sp_snapshots s n = None then OError (Source_Snapshot_Not_Found n) else OName b))"
| "spec_out (EBranchRollback b) s out = (out = OFlag (sp_snapshots s b \<noteq> None))"
| "spec_out _ s out = (out = ODone)"

primrec spec_run :: "engine_op list \<Rightarrow> store_spec \<Rightarrow> engine_out list \<Rightarrow> store_spec \<Rightarrow> bool" where
  "spec_run [] s outs s' = (outs = [] \<and> s' = s)"
| "spec_run (op # ops) s outs s' =
     (\<exists>out outs'. outs = out # outs' \<and> spec_out op s out \<and> spec_run ops (spec_next op s) outs' s')"

section \<open>Simulation\<close>

definition engine_abs :: "engine \<Rightarrow> store_spec" where
  "engine_abs e =
     \<lparr>sp_live = engine_map e, sp_state = hamt_get (en_state e),
      sp_snapshots = (\<lambda>n. map_option hamt_get (map_of (en_snapshots e) n)),
      sp_counter = en_snapshot_counter e\<rparr>"

definition simulates :: "platform \<Rightarrow> engine_op \<Rightarrow> engine \<Rightarrow> engine_out \<Rightarrow> engine \<Rightarrow> bool" where
  "simulates env op e out e' =
     (engine_ok e' \<and> engine_abs e' = spec_next op (engine_abs e) \<and> spec_out op (engine_abs e) out)"

lemma engine_abs_sel [simp]:
  "sp_live (engine_abs e) = engine_map e" "sp_state (engine_abs e) = hamt_get (en_state e)"
  "sp_snapshots (engine_abs e) n = map_option hamt_get (map_of (en_snapshots e) n)"
  "sp_counter (engine_abs e) = en_snapshot_counter e"
  by (simp_all add: engine_abs_def)

lemma finish_write:
  assumes "engine_ok e1" "e2 = (if b then flush_memtable env e1 else e1)" "en_flush_count (catch_up env e2) < 4"
  shows "engine_ok (catch_up env e2)" "engine_abs (catch_up env e2) = engine_abs e1"
proof -
  have "engine_ok (catch_up env e2) \<and> engine_abs (catch_up env e2) = engine_abs e1"
  proof (cases b)
    case True
    then have "en_flush_count e1 < 3" "e2 = flush_memtable env e1"
      using assms(2,3) by (simp_all add: catch_up_def flush_memtable_fields)
    then show ?thesis
      using flush_keeps [OF assms(1), of env]
      by (simp add: engine_abs_def) (simp add: catch_up_def flush_memtable_fields)
  next
    case False
    with assms(1,2) show ?thesis by (simp add: catch_up_idle engine_ok_def)
  qed
  then show "engine_ok (catch_up env e2)" "engine_abs (catch_up env e2) = engine_abs e1" by blast+
qed

lemma wrote_abs:
  assumes "engine_ok e" "wrote k v e e1"
  shows "engine_abs e1 = spec_update [(k, v)] (engine_abs e)"
proof -
  have "hamt_ok (en_state e)" "layers_ok e"
    using assms(1) by (simp_all add: engine_ok_def states_ok_def)
  with assms(2) wrote_layers(2) [OF _ assms(2)] show ?thesis
    by (simp add: engine_abs_def spec_update_def wrote_def)
qed

lemma fold_upd_map_of: "fold (\<lambda>(k, v) m. m(k := v)) (map (\<lambda>(k, v). (k, Some v)) kvs) m = m ++ map_of (rev kvs)"
  by (induction kvs arbitrary: m) (auto simp: map_add_def fun_eq_iff split: option.split)

lemma batch_wrote_abs:
  "batch_wrote kvs e e1 \<Longrightarrow> engine_abs e1 = spec_update (map (\<lambda>(k, v). (k, Some v)) kvs) (engine_abs e)"
  by (simp add: batch_wrote_def engine_abs_def spec_update_def fold_upd_map_of)

text \<open>Operations that leave the layers of the read path alone.\<close>

lemma state_change:
  assumes "engine_ok e" "states_ok e'" "en_memtable e' = en_memtable e" "en_frozen e' = en_frozen e"
    "en_compactor e' = en_compactor e" "en_flush_count e' = en_flush_count e" "en_cache e' = en_cache e"
  shows "engine_ok e'" "engine_map e' = engine_map e" "catch_up env e' = e'"
  using assms catch_up_idle [of e' env]
  by (auto simp: engine_ok_def layers_ok_def cache_coherent_def engine_map_def fun_eq_iff)

lemma snapshots_ok_remove [simp]:
  "list_all (\<lambda>(n, h). hamt_ok h) m \<Longrightarrow> list_all (\<lambda>(n, h). hamt_ok h) (bt_remove k m)"
  by (auto simp: list_all_iff bt_remove_def)

lemma snapshots_ok_insert [simp]:
  "list_all (\<lambda>(n, h). hamt_ok h) m \<Longrightarrow> hamt_ok h \<Longrightarrow> list_all (\<lambda>(n, h). hamt_ok h) (hm_insert k h m)"
  by (simp add: hm_insert_def)

lemma list_all_lookup: "list_all P m \<Longrightarrow> map_of m n = Some h \<Longrightarrow> P (n, h)"
  by (auto simp: list_all_iff dest: map_of_SomeD)

definition is_write :: "engine_op \<Rightarrow> bool" where
  "is_write op = (case op of EPut _ _ \<Rightarrow> True | EPutBatch _ \<Rightarrow> True | EBulkIngest _ \<Rightarrow> True
     | EDelete _ \<Rightarrow> True | EFlush \<Rightarrow> True | _ \<Rightarrow> False)"

lemma write_simulates:
  assumes ok: "engine_ok e" and "is_write op" and go: "engine_do env op e = Some (out, e1)"
    and few: "en_flush_count (catch_up env e1) < 4"
  shows "simulates env op e out (catch_up env e1)"
proof -
  obtain e2 b where "engine_ok e2" "e1 = (if b then flush_memtable env e2 else e2)"
    and spec: "engine_abs e2 = spec_next op (engine_abs e)" "spec_out op (engine_abs e) out"
  proof (cases op)
    case (EPut k v)
    with go have put: "engine_put env k v e = Some e1" and out: "out = ODone" by auto
    from put obtain e2 where "wrote k (Some v) e e2"
      "e1 = (if memtable_should_flush (en_memtable e2) then flush_memtable env e2 else e2)"
      by (rule engine_put_wrote)
    with EPut out wrote_ok [OF ok] wrote_abs [OF ok] show thesis by (intro that) simp_all
  next
    case (EPutBatch kvs)
    with go have put: "engine_put_batch env kvs e = Some e1" and out: "out = ODone" by auto
    from ok put obtain e2 b where "batch_wrote kvs e e2" "e1 = (if b then flush_memtable env e2 else e2)"
      by (rule engine_put_batch_wrote)
    with EPutBatch out batch_wrote_abs [of kvs e e2] show thesis
      by (intro that [of e2 b]) (simp_all add: batch_wrote_def)
  next
    case (EBulkIngest kvs)
    with go obtain n where put: "engine_bulk_ingest env kvs e = Some (n, e1)" and out: "out = OCount n" by auto
    from ok put obtain e2 b where "batch_wrote kvs e e2" "e1 = (if b then flush_memtable env e2 else e2)" "n = length kvs"
      by (rule engine_bulk_ingest_wrote)
    with EBulkIngest out batch_wrote_abs [of kvs e e2] show thesis
      by (intro that [of e2 b]) (simp_all add: batch_wrote_def)
  next
    case (EDelete k)
    obtain e2 where "wrote k None e e2"
      "engine_delete env k e = (if memtable_should_flush (en_memtable e2) then flush_memtable env e2 else e2)"
      by (rule engine_delete_wrote)
    with EDelete go wrote_ok [OF ok] wrote_abs [OF ok] show thesis
      by (intro that [of e2 "memtable_should_flush (en_memtable e2)"]) auto
  next
    case EFlush
    with go ok show thesis
      by (intro that [of e "\<not> memtable_is_empty (en_memtable e)"]) (auto simp: engine_flush_def)
  qed (use assms(2) in \<open>simp_all add: is_write_def\<close>)
  with finish_write [of e2 e1 b env] few spec show ?thesis by (simp add: simulates_def)
qed

lemma snapshots_simulate:
  assumes ok: "engine_ok e" and "engine_do env op e = Some (out, e1)"
    and "op \<in> {ESnapshotCreate n, ESnapshotRestore n, ESnapshotDelete n, ESnapshotGet n k, EBranchCreate b n,
          EBranchRollback n}"
  shows "simulates env op e out (catch_up env e1)"
proof -
  have st: "list_all (\<lambda>(n, h). hamt_ok h) (en_snapshots e)" "hamt_ok (en_state e)"
    using ok by (simp_all add: engine_ok_def states_ok_def)
  then have "states_ok e1 \<and> en_memtable e1 = en_memtable e \<and> en_frozen e1 = en_frozen e \<and>
      en_compactor e1 = en_compactor e \<and> en_flush_count e1 = en_flush_count e \<and> en_cache e1 = en_cache e"
    using assms(2,3) list_all_lookup [OF st(1), of n]
    by (auto simp: snapshot_create_def snapshot_restore_def snapshot_delete_def branch_create_def
        branch_rollback_def hamt_snapshot_def Let_def states_ok_def split: option.splits if_splits)
  with state_change [OF ok, of e1]
  have same: "engine_ok e1" "engine_map e1 = engine_map e" "catch_up env e1 = e1" by auto
  have "engine_abs e1 = spec_next op (engine_abs e) \<and> spec_out op (engine_abs e) out"
    using assms(2,3) same(2)
    by (auto simp: engine_abs_def snapshot_create_def snapshot_restore_def snapshot_delete_def snapshot_get_def
        branch_create_def branch_rollback_def hamt_snapshot_def snap_name_def Let_def fun_eq_iff
        bind_map_option comp_def split: option.splits if_splits)
  with same show ?thesis by (simp add: simulates_def)
qed

lemma engine_do_simulates:
  assumes ok: "engine_ok e" and go: "engine_do env op e = Some (out, e1)"
    and few: "en_flush_count (catch_up env e1) < 4"
  shows "simulates env op e out (catch_up env e1)"
proof (cases "is_write op")
  case True
  with assms show ?thesis by (intro write_simulates)
next
  case False
  have l: "layers_ok e" "cache_coherent e" using ok by (simp_all add: engine_ok_def)
  from False consider (snap) n k b where "op \<in> {ESnapshotCreate n, ESnapshotRestore n, ESnapshotDelete n,
        ESnapshotGet n k, EBranchCreate b n, EBranchRollback n}"
    | (get) k where "op = EGet k" | (scan) a b where "op = EScan a b" | (sync) "op = ESync"
    by (cases op) (auto simp: is_write_def)
  then show ?thesis
  proof cases
    case snap
    with ok go show ?thesis by (rule snapshots_simulate)
  next
    case (get k)
    with go have e1: "e1 = snd (engine_get k e)" "out = OValue (engine_map e k)"
      using engine_get_reads [OF l, of k] by (auto split: prod.splits)
    have "catch_up env e1 = e1"
      using catch_up_idle engine_get_keeps [OF ok, of k] e1(1) by (simp add: engine_ok_def)
    with get e1 engine_get_keeps [OF ok, of k] show ?thesis
      by (simp add: simulates_def engine_abs_def engine_get_fields)
  next
    case (scan a b)
    with go have "a \<le> b" using engine_scan_panics [of b a e] by (cases "a \<le> b") auto
    moreover from scan go have "e1 = e" by auto
    ultimately show ?thesis
      using engine_scan_reads [OF l(1), of a b] scan go ok catch_up_idle [OF l(1), of env]
      by (auto simp: simulates_def)
  next
    case sync
    with go have e1: "e1 = engine_sync e" "out = ODone" by auto
    have "engine_ok e1" "engine_map e1 = engine_map e" "catch_up env e1 = e1"
      by (rule state_change [OF ok]; use ok in \<open>simp add: e1 engine_sync_def engine_ok_def states_ok_def\<close>)+
    with sync e1 show ?thesis by (simp add: simulates_def engine_abs_def engine_sync_def)
  qed
qed

lemma flush_if_count: "en_flush_count e \<le> en_flush_count (if b then flush_memtable env e else e)"
  by (simp add: flush_memtable_fields)

lemma flush_count_mono:
  assumes "engine_do env op e = Some (out, e1)"
  shows "en_flush_count e \<le> en_flush_count e1"
proof -
  have batch: "en_flush_count e2 = en_flush_count e"
    if "put_all batch_write kvs (e\<lparr>en_wal := w, en_cache := c\<rparr>, b) = Some (e2, b')" for w c b b' kvs e2
    using batch_keeps [OF that] by simp
  show ?thesis
  proof (cases op)
    case (EPut k v)
    with assms obtain e2 where "wrote k (Some v) e e2"
      "e1 = (if memtable_should_flush (en_memtable e2) then flush_memtable env e2 else e2)"
      using engine_put_wrote [of env k v e e1] by auto
    then show ?thesis using flush_if_count [of e2] by (simp add: wrote_def)
  next
    case (EDelete k)
    obtain e2 where e2: "wrote k None e e2"
      "engine_delete env k e = (if memtable_should_flush (en_memtable e2) then flush_memtable env e2 else e2)"
      by (rule engine_delete_wrote)
    have "e1 = engine_delete env k e" "en_flush_count e2 = en_flush_count e"
      using EDelete assms e2(1) by (simp_all add: wrote_def)
    then show ?thesis unfolding e2(2) using flush_if_count [of e2] by simp
  next
    case (EGet k)
    with assms have "e1 = snd (engine_get k e)" by (auto split: prod.splits)
    then show ?thesis by (simp add: engine_get_fields)
  qed (use assms batch in \<open>auto simp: engine_put_batch_def engine_bulk_ingest_def Let_def flush_memtable_fields
      engine_flush_def engine_sync_def snapshot_create_def snapshot_restore_def
      snapshot_delete_def branch_create_def branch_rollback_def
      split: if_splits option.splits prod.splits sum.splits\<close>)
qed

lemma run_count_mono: "engine_run env ops e = Some (outs, e') \<Longrightarrow> en_flush_count e \<le> en_flush_count e'"
proof (induction ops arbitrary: e outs)
  case (Cons op ops)
  then obtain out e1 outs' where "engine_do env op e = Some (out, e1)"
    "engine_run env ops (catch_up env e1) = Some (outs', e')"
    by (auto split: option.splits)
  with Cons.IH flush_count_mono [of env op e out e1] show ?case by (fastforce simp: catch_up_def)
qed simp

lemma engine_run_simulates:
  "engine_ok e \<Longrightarrow> engine_run env ops e = Some (outs, e') \<Longrightarrow> en_flush_count e' < 4 \<Longrightarrow>
   spec_run ops (engine_abs e) outs (engine_abs e') \<and> engine_ok e'"
proof (induction ops arbitrary: e outs)
  case (Cons op ops)
  from Cons.prems(2) obtain out e1 outs' where go: "engine_do env op e = Some (out, e1)"
    and rest: "engine_run env ops (catch_up env e1) = Some (outs', e')" "outs = out # outs'"
    by (auto split: option.splits)
  have "en_flush_count (catch_up env e1) < 4"
    using run_count_mono [OF rest(1)] Cons.prems(3) by simp
  with engine_do_simulates [OF Cons.prems(1) go]
  have "simulates env op e out (catch_up env e1)" by blast
  with Cons.IH [OF _ rest(1) Cons.prems(3)] rest(2) show ?case by (auto simp: simulates_def)
qed simp

section \<open>Returning\<close>

fun op_keys :: "engine_op \<Rightarrow> bytes set" where
  "op_keys (EPut k v) = {k}"
| "op_keys (EPutBatch kvs) = fst ` set kvs"
| "op_keys (EBulkIngest kvs) = fst ` set kvs"
| "op_keys _ = {}"

fun op_ordered :: "engine_op \<Rightarrow> bool" where
  "op_ordered (EScan a b) = (a \<le> b)"
| "op_ordered _ = True"

text \<open>The keys of the persistent state and of its copies are among \<open>K\<close>.\<close>

definition keys_within :: "bytes set \<Rightarrow> engine \<Rightarrow> bool" where
  "keys_within K e =
     (hamt_ok (en_state e) \<and> dom (hamt_get (en_state e)) \<subseteq> K \<and>
      list_all (\<lambda>(n, h). hamt_ok h \<and> dom (hamt_get h) \<subseteq> K) (en_snapshots e))"

lemma keys_within_flush [simp]: "keys_within K (flush_memtable env e) = keys_within K e"
  by (simp add: keys_within_def flush_memtable_fields)

lemma keys_within_update:
  "keys_within K e \<Longrightarrow> en_snapshots e' = en_snapshots e \<Longrightarrow> hamt_ok (en_state e') \<Longrightarrow>
   dom (hamt_get (en_state e')) \<subseteq> dom (hamt_get (en_state e)) \<union> K \<Longrightarrow> keys_within K e'"
  by (auto simp: keys_within_def)

lemma hamt_put_within:
  assumes "hamt_ok h" "dom (hamt_get h) \<subseteq> K" "k \<in> K" "inj_on fnv1a K"
  obtains h' where "hamt_put k v h = Some h'" "hamt_ok h'" "dom (hamt_get h') \<subseteq> K"
proof -
  have "inj_on fnv1a (insert k (dom (hamt_get h)))"
    using assms(2,3) by (intro inj_on_subset [OF assms(4)]) auto
  then obtain h' where h': "hamt_put k v h = Some h'"
    using hamt_hashed.put_returns [OF assms(1)] by blast
  then show thesis
    using hamt_kv.put_ok [OF assms(1) h'] hamt_kv.put_get [OF assms(1) h'] assms(2,3) by (intro that [of h']) auto
qed

lemma batch_within:
  assumes "keys_within K e" "fst ` set kvs \<subseteq> K" "inj_on fnv1a K" "en_state e1 = en_state e"
    "en_snapshots e1 = en_snapshots e"
  obtains e2 b where "put_all batch_write kvs (e1, False) = Some (e2, b)" "keys_within K e2"
proof -
  have ok: "hamt_ok (en_state e1)" using assms(1,4) by (simp add: keys_within_def)
  have "inj_on fnv1a (fst ` set kvs \<union> dom (hamt_get (en_state e1)))"
    using assms(1,2,4) by (intro inj_on_subset [OF assms(3)]) (auto simp: keys_within_def)
  with ok obtain e2 b where put: "put_all batch_write kvs (e1, False) = Some (e2, b)"
    using batch_state.put_all_returns [of "(e1, False)" kvs] by auto
  have "hamt_ok (en_state e2)" "hamt_get (en_state e2) = hamt_get (en_state e1) ++ map_of (rev kvs)"
    using batch_state.put_all_ok [OF _ put] batch_state.put_all_get [OF _ put] ok by simp_all
  moreover have "dom (map_of (rev kvs)) \<subseteq> K"
    using assms(2) by (auto simp: dom_map_of_conv_image_fst)
  ultimately have "keys_within K e2"
    using batch_keeps [OF put] assms by (intro keys_within_update [OF assms(1)]) auto
  with put show thesis by (rule that)
qed

lemma engine_do_returns:
  assumes within: "keys_within K e" and keys: "op_keys op \<subseteq> K" and inj: "inj_on fnv1a K"
    and ordered: "op_ordered op"
  shows "case engine_do env op e of None \<Rightarrow> False | Some (out, e1) \<Rightarrow> keys_within K e1"
proof -
  have found: "hamt_ok h \<and> dom (hamt_get h) \<subseteq> K" if "map_of (en_snapshots e) n = Some h" for n h
    using within list_all_lookup [OF _ that] by (fastforce simp: keys_within_def)
  show ?thesis
  proof (cases op)
    case (EPut k v)
    have "hamt_ok (en_state e)" "dom (hamt_get (en_state e)) \<subseteq> K"
      using within by (simp_all add: keys_within_def)
    then obtain h where "hamt_put k v (en_state e) = Some h" "hamt_ok h" "dom (hamt_get h) \<subseteq> K"
      using hamt_put_within [of "en_state e" K k v] keys EPut inj by auto
    with EPut within show ?thesis
      by (simp add: engine_put_def memtable_put_write Let_def keys_within_def flush_memtable_fields cache_empty_def)
  next
    case (EPutBatch kvs)
    let ?e1 = "e\<lparr>en_wal := wal_flush (append_all env kvs (en_wal e)), en_cache := cache_clear (en_cache e)\<rparr>"
    obtain e2 b where "put_all batch_write kvs (?e1, False) = Some (e2, b)" "keys_within K e2"
      by (rule batch_within [of K e kvs ?e1]) (use within keys inj EPutBatch in auto)
    with EPutBatch show ?thesis by (simp add: engine_put_batch_def Let_def)
  next
    case (EBulkIngest kvs)
    let ?e1 = "e\<lparr>en_wal := wal_flush (append_all env kvs (en_wal e)), en_cache := cache_clear (en_cache e)\<rparr>"
    obtain e2 b where "put_all batch_write kvs (?e1, False) = Some (e2, b)" "keys_within K e2"
      by (rule batch_within [of K e kvs ?e1]) (use within keys inj EBulkIngest in auto)
    with EBulkIngest within show ?thesis by (simp add: engine_bulk_ingest_def Let_def)
  next
    case (EDelete k)
    have "hamt_ok (en_state e)" using within by (simp add: keys_within_def)
    then have "keys_within K (e\<lparr>en_state := hamt_delete k (en_state e)\<rparr>)"
      by (intro keys_within_update [OF within]) (auto simp: hamt_kv.delete_ok hamt_kv.delete_get)
    with EDelete show ?thesis
      by (simp add: engine_delete_def memtable_delete_write Let_def keys_within_def flush_memtable_fields
          cache_empty_def)
  next
    case (EGet k)
    with within show ?thesis
      using engine_get_fields [of k e] by (auto simp: keys_within_def split: prod.split)
  next
    case EFlush
    with within show ?thesis by (simp add: engine_flush_def)
  next
    case (EScan a b)
    with ordered engine_scan_returns [of a b e] within show ?thesis by auto
  next
    case (ESnapshotRestore n)
    with within found [of n] show ?thesis
      by (simp add: snapshot_restore_def keys_within_def split: option.split)
  next
    case (EBranchCreate b n)
    have "list_all (\<lambda>(n, h). hamt_ok h \<and> dom (hamt_get h) \<subseteq> K) (bt_remove b (en_snapshots e))"
      using within by (auto simp: keys_within_def list_all_iff bt_remove_def)
    with EBranchCreate within found [of n] show ?thesis
      by (simp add: branch_create_def keys_within_def hamt_snapshot_def hm_insert_def split: option.split)
  qed (use within in \<open>auto simp: engine_flush_def engine_sync_def snapshot_create_def
        snapshot_delete_def branch_rollback_def keys_within_def hamt_snapshot_def hm_insert_def bt_remove_def
        Let_def list_all_iff\<close>)
qed

lemma keys_within_catch_up [simp]: "keys_within K (catch_up env e) = keys_within K e"
  by (simp add: keys_within_def catch_up_def)

lemma engine_run_total:
  assumes "keys_within K e" "inj_on fnv1a K" "list_all (\<lambda>op. op_keys op \<subseteq> K \<and> op_ordered op) ops"
  shows "\<exists>outs e'. engine_run env ops e = Some (outs, e')"
  using assms(1,3)
proof (induction ops arbitrary: e)
  case (Cons op ops)
  then obtain out e1 where "engine_do env op e = Some (out, e1)" "keys_within K e1"
    using engine_do_returns [OF Cons.prems(1) _ assms(2), of op env] by (auto split: option.splits)
  with Cons.IH [of "catch_up env e1"] Cons.prems(2) show ?case by auto
qed simp

lemma flush_count_step: "engine_do env op e = Some (out, e1) \<Longrightarrow> en_flush_count e1 \<le> en_flush_count e + 1"
proof -
  assume go: "engine_do env op e = Some (out, e1)"
  have batch: "en_flush_count e2 = en_flush_count e"
    if "put_all batch_write kvs (e\<lparr>en_wal := w, en_cache := c\<rparr>, b) = Some (e2, b')" for w c b b' kvs e2
    using batch_keeps [OF that] by simp
  show ?thesis
  proof (cases op)
    case (EGet k)
    with go have "e1 = snd (engine_get k e)" by (auto split: prod.splits)
    then show ?thesis by (simp add: engine_get_fields)
  qed (use go batch in \<open>auto simp: engine_put_def engine_delete_def memtable_put_write memtable_delete_write
      engine_put_batch_def engine_bulk_ingest_def Let_def flush_memtable_fields
      engine_flush_def engine_sync_def snapshot_create_def snapshot_restore_def
      snapshot_delete_def branch_create_def branch_rollback_def cache_empty_def
      split: if_splits option.splits prod.splits sum.splits\<close>)
qed

lemma run_count_bound:
  "engine_run env ops e = Some (outs, e') \<Longrightarrow> en_flush_count e' \<le> en_flush_count e + length ops"
proof (induction ops arbitrary: e outs)
  case (Cons op ops)
  then obtain out e1 outs' where "engine_do env op e = Some (out, e1)"
    "engine_run env ops (catch_up env e1) = Some (outs', e')"
    by (auto split: option.splits)
  with Cons.IH flush_count_step [of env op e out e1] show ?case by (fastforce simp: catch_up_def)
qed simp

section \<open>A fresh engine\<close>

definition empty_disk :: disk where
  "empty_disk = \<lparr>dk_wal = None, dk_pages = [], dk_hnsw = None, dk_graph = None\<rparr>"

definition empty_store :: store_spec where
  "empty_store = \<lparr>sp_live = Map.empty, sp_state = Map.empty, sp_snapshots = Map.empty, sp_counter = 0\<rparr>"

definition fresh_engine :: "nat \<Rightarrow> engine" where
  "fresh_engine threshold =
     \<lparr>en_wal = wal_open [], en_memtable = memtable_new threshold, en_frozen = [],
      en_flush_threshold = threshold, en_compactor = bg_new (Some []), en_indices = index_manager_new,
      en_state = hamt_new, en_snapshots = [], en_snapshot_counter = 0, en_flush_count = 0,
      en_total_puts = 0, en_total_gets = 0, en_total_deletes = 0, en_cache = cache_new 1024\<rparr>"

lemma load_all_empty: "load_all inflate [] = Some ([], [], [])"
  by (simp add: load_all_def in_index_order_def)

lemma open_empty: "engine_open env threshold empty_disk = Some (fresh_engine threshold)"
  by (simp add: engine_open_def empty_disk_def load_all_empty open_with_def bg_new_def cm_load_pages_def
      cm_new_def load_hnsw_def load_graph_def memtable_iter_def memtable_new_def live_entries_def fresh_engine_def Let_def)

lemma engine_ok_fresh: "engine_ok (fresh_engine threshold)"
  by (simp add: engine_ok_def layers_ok_def states_ok_def cache_coherent_def fresh_engine_def bg_new_def
      cm_new_def cm_pages_ok_def cache_val_def cache_new_def)

lemma engine_abs_fresh: "engine_abs (fresh_engine threshold) = empty_store"
  by (simp add: engine_abs_def empty_store_def engine_map_def fresh_engine_def bg_new_def cm_new_def
      cm_get_search fun_eq_iff)

section \<open>Properties\<close>

text \<open>
  (C1) A database opened on an empty directory is a map: for every sequence of puts, batch
  writes, bulk ingests, deletes, reads, range scans, flushes, syncs and snapshot and branch
  calls that returns, with the worker idle before each call and fewer than four memtable
  flushes, every result is the one of the abstract store. In particular a read returns the
  last value written, a scan returns exactly the live keys of the range in order, and
  snapshots are unaffected by later writes.
\<close>

theorem engine_refines_map:
  assumes "engine_open env threshold empty_disk = Some e" "engine_run env ops e = Some (outs, e')"
    "en_flush_count e' < 4"
  shows "spec_run ops empty_store outs (engine_abs e')"
proof -
  have "e = fresh_engine threshold" using assms(1) by (simp add: open_empty)
  with engine_run_simulates [OF engine_ok_fresh] assms(2,3) show ?thesis
    by (metis engine_abs_fresh)
qed

definition plain_env :: platform where
  "plain_env = \<lparr>env_crc = (\<lambda>_. 0), env_deflate = (\<lambda>b. b), env_inflate = Some,
     env_bloom_m = (\<lambda>_. 64), env_bloom_k = (\<lambda>_ _. 1)\<rparr>"

definition three_ops :: "engine_op list" where
  "three_ops = [EPut [1] [7], EPut [1] [8], EGet [1]]"

lemma keys_within_fresh: "keys_within K (fresh_engine threshold)"
  by (simp add: keys_within_def fresh_engine_def dom_def)

lemma three_ops_return:
  "\<exists>outs e'. engine_run plain_env three_ops (fresh_engine threshold) = Some (outs, e') \<and> en_flush_count e' < 4"
proof -
  have "list_all (\<lambda>op. op_keys op \<subseteq> {[1]} \<and> op_ordered op) three_ops"
    by (simp add: three_ops_def)
  then obtain outs e' where run: "engine_run plain_env three_ops (fresh_engine threshold) = Some (outs, e')"
    using engine_run_total [OF keys_within_fresh, of "{[1]}" three_ops plain_env threshold] by auto
  moreover have "en_flush_count e' < 4"
    using run_count_bound [OF run] by (simp add: three_ops_def fresh_engine_def)
  ultimately show ?thesis by blast
qed

text \<open>With a threshold of ten bytes both puts flush, and the read still sees the second.\<close>

theorem engine_refines_map_witness:
  "\<exists>e'. engine_run plain_env three_ops (fresh_engine 10) = Some ([ODone, ODone, OValue (Some [8])], e')"
proof -
  obtain outs e' where run: "engine_run plain_env three_ops (fresh_engine 10) = Some (outs, e')"
    "en_flush_count e' < 4"
    using three_ops_return by blast
  with engine_refines_map [OF open_empty run] show ?thesis
    by (simp add: three_ops_def spec_update_def)
qed

text \<open>
  (C29) The calls return: a run on a fresh database returns when no two of the keys written have
  the same hash and every scan has ordered bounds, however many flushes and compactions happen.
\<close>

theorem engine_run_returns:
  assumes "engine_open env threshold empty_disk = Some e"
    "inj_on fnv1a (\<Union>op \<in> set ops. op_keys op)" "list_all op_ordered ops"
  shows "\<exists>outs e'. engine_run env ops e = Some (outs, e') \<and> length outs = length ops"
proof -
  have e: "e = fresh_engine threshold" using assms(1) by (simp add: open_empty)
  have "list_all (\<lambda>op. op_keys op \<subseteq> (\<Union>op \<in> set ops. op_keys op) \<and> op_ordered op) ops"
    using assms(3) by (auto simp: list_all_iff)
  from engine_run_total [OF keys_within_fresh assms(2) this] obtain outs e'
    where "engine_run env ops e = Some (outs, e')" using e by blast
  moreover have "engine_run env ops e = Some (outs, e') \<Longrightarrow> length outs = length ops" for e
    by (induction ops arbitrary: e outs) (auto split: option.splits)
  ultimately show ?thesis by blast
qed

theorem engine_run_returns_witness:
  "\<exists>outs e'. engine_run plain_env [EPut [1] [7], EScan [0] [2], EPut [2] [3]] (fresh_engine 5) = Some (outs, e') \<and>
     length outs = 3"
proof -
  let ?ops = "[EPut [1] [7], EScan [0] [2], EPut [2] [3]]"
  have "inj_on fnv1a (\<Union>op \<in> set ?ops. op_keys op)" "list_all op_ordered ?ops"
    using fnv1a_first_byte [of 1 2] by simp_all
  from engine_run_returns [OF open_empty this, of plain_env 5] show ?thesis
    by (simp add: numeral_3_eq_3)
qed

end
