(* ===== verification/Engine_Recovery.thy ===== *)
theory Engine_Recovery
  imports Engine_Run
begin

text \<open>
  Opening a database on the files of an earlier run: the replay of the log into the memtable,
  the state rebuilt from it, and what a reader then sees. The lemmas relate the log an engine
  run leaves to the replayed records, so that the properties speak of runs, crashes and reopened
  databases.
\<close>

section \<open>The log of a run\<close>

text \<open>The calls an engine operation makes on the log.\<close>

fun op_wal :: "engine_op \<Rightarrow> wal_op list" where
  "op_wal (EPut k v) = [WAppend k v, WFlush]"
| "op_wal (EPutBatch kvs) = map (\<lambda>(k, v). WAppend k v) kvs @ [WFlush]"
| "op_wal (EBulkIngest kvs) = (if kvs = [] then [] else map (\<lambda>(k, v). WAppend k v) kvs @ [WFlush])"
| "op_wal (EDelete k) = [WAppend k [], WFlush]"
| "op_wal ESync = [WSync]"
| "op_wal _ = []"

definition run_wal :: "engine_op list \<Rightarrow> wal_op list" where
  "run_wal ops = concat (map op_wal ops)"

lemma append_all_wal: "append_all env kvs w = fold (wal_do (env_crc env)) (map (\<lambda>(k, v). WAppend k v) kvs) w"
  by (induction kvs arbitrary: w) (auto simp: append_all_def)

lemma engine_do_wal:
  assumes "engine_do env op e = Some (out, e1)"
  shows "en_wal e1 = fold (wal_do (env_crc env)) (op_wal op) (en_wal e)"
proof (cases op)
  case (EGet k)
  with assms have "e1 = snd (engine_get k e)" by (auto split: prod.splits)
  with EGet show ?thesis by (simp add: engine_get_fields)
next
  case (EPutBatch kvs)
  with assms batch_keeps show ?thesis
    by (fastforce simp: engine_put_batch_def Let_def append_all_wal flush_memtable_fields split: if_splits)
next
  case (EBulkIngest kvs)
  with assms batch_keeps show ?thesis
    by (fastforce simp: engine_bulk_ingest_def Let_def append_all_wal flush_memtable_fields split: if_splits)
qed (use assms in \<open>auto simp: engine_put_def engine_delete_def memtable_put_write memtable_delete_write
      Let_def flush_memtable_fields engine_flush_def engine_sync_def snapshot_create_def snapshot_restore_def
      snapshot_delete_def branch_create_def branch_rollback_def cache_empty_def
      split: if_splits option.splits sum.splits\<close>)

lemma engine_run_wal:
  "engine_run env ops e = Some (outs, e') \<Longrightarrow> en_wal e' = fold (wal_do (env_crc env)) (run_wal ops) (en_wal e)"
proof (induction ops arbitrary: e outs)
  case (Cons op ops)
  then obtain out e1 outs' where "engine_do env op e = Some (out, e1)"
    "engine_run env ops (catch_up env e1) = Some (outs', e')"
    by (auto split: option.splits)
  with Cons.IH engine_do_wal [of env op e out e1] show ?case
    by (fastforce simp: catch_up_def run_wal_def)
qed (simp add: run_wal_def)

section \<open>Replay\<close>

definition record_write :: "wal_record \<Rightarrow> bytes \<times> entry" where
  "record_write r = (wr_key r, if wr_value r = [] then None else Some (wr_value r))"

text \<open>The last entry a list of records has for a key.\<close>

definition last_write :: "wal_record list \<Rightarrow> bytes \<Rightarrow> entry option" where
  "last_write rs = map_of (rev (map record_write rs))"

lemma last_write_snoc: "last_write (rs @ [r]) = (last_write rs)(fst (record_write r) \<mapsto> snd (record_write r))"
  by (simp add: last_write_def)

lemma replay_memtable:
  "fst (fold replay_record rs (mt, im)) = fold (\<lambda>(k, v). mem_write k v) (map record_write rs) mt"
proof (induction rs arbitrary: mt im)
  case (Cons r rs)
  have "fst (replay_record r (mt, im)) = mem_write (wr_key r) (snd (record_write r)) mt"
    by (simp add: replay_record_def record_write_def memtable_put_write memtable_delete_write Let_def)
  with Cons show ?case
    by (cases "replay_record r (mt, im)") (simp add: record_write_def)
qed simp

definition replayed :: "nat \<Rightarrow> wal_record list \<Rightarrow> memtable" where
  "replayed threshold rs = fold (\<lambda>(k, v). mem_write k v) (map record_write rs) (memtable_new threshold)"

lemma replayed_snoc: "replayed t (rs @ [r]) = mem_write (fst (record_write r)) (snd (record_write r)) (replayed t rs)"
  by (simp add: replayed_def case_prod_unfold)

lemma replayed_ok: "memtable_ok (replayed t rs)"
  by (induction rs rule: rev_induct) (simp_all add: replayed_snoc memtable_ok_write, simp add: replayed_def)

lemma replayed_entry: "mem_entry_of (replayed t rs) k = last_write rs k"
proof (induction rs rule: rev_induct)
  case Nil
  then show ?case by (simp add: replayed_def last_write_def)
next
  case (snoc r rs)
  then show ?case by (simp add: replayed_snoc last_write_snoc mem_entry_of_write)
qed

lemma replayed_get: "memtable_get (replayed t rs) k = resolve (last_write rs k) None"
  by (simp add: memtable_get_entry_of replayed_entry)

text \<open>What a database opened on a log holds, and whether the replay ended in a flush.\<close>

definition loaded_cm :: "page list \<times> page list \<times> page list \<Rightarrow> compaction_manager" where
  "loaded_cm levels = (case levels of (l0, l1, l2) \<Rightarrow> cm_new\<lparr>cm_l0 := l0, cm_l1 := l1, cm_l2 := l2\<rparr>)"

lemma open_fields:
  assumes "engine_open env t d = Some e" "dk_wal d = Some file" "load_all (env_inflate env) (dk_pages d) = Some levels"
    "mt = replayed t (fst (replay (env_crc env) file))"
  shows "en_frozen e = []" "en_flush_count e = 0" "lc_entries (en_cache e) = []"
    "\<not> memtable_should_flush mt \<Longrightarrow> en_memtable e = mt \<and> en_compactor e = \<lparr>bg_queue = [], bg_cm = loaded_cm levels, bg_dir = Some (dk_pages d)\<rparr>"
    "memtable_should_flush mt \<Longrightarrow> en_memtable e = snd (memtable_drain mt) \<and>
       en_compactor e = \<lparr>bg_queue = [fst (frozen_to_page env mt)], bg_cm = loaded_cm levels, bg_dir = Some (dk_pages d)\<rparr>"
    "put_all hamt_put (live_entries (mt_entries (en_memtable e))) hamt_new = Some (en_state e)"
    "en_wal e = wal_open file"
proof -
  obtain recs c where r: "replay (env_crc env) file = (recs, c)" by fastforce
  obtain l0 l1 l2 where l: "levels = (l0, l1, l2)" by (cases levels)
  let ?im = "load_graph (dk_graph d)
    (load_hnsw (dk_hnsw d) index_manager_new)"
  obtain im where f: "fold replay_record recs (memtable_new t, ?im) = (mt, im)"
    using replay_memtable [of recs "memtable_new t" ?im] assms(4) r
    by (cases "fold replay_record recs (memtable_new t, ?im)") (simp add: replayed_def)
  have "open_with env t levels d = Some e"
    using assms(1,3) by (simp add: engine_open_def)
  note this [unfolded open_with_def l assms(2) Let_def prod.case option.case r f]
  then show "en_frozen e = []" "en_flush_count e = 0" "lc_entries (en_cache e) = []"
    "put_all hamt_put (live_entries (mt_entries (en_memtable e))) hamt_new = Some (en_state e)"
    "en_wal e = wal_open file"
    "\<not> memtable_should_flush mt \<Longrightarrow> en_memtable e = mt \<and> en_compactor e = \<lparr>bg_queue = [], bg_cm = loaded_cm levels, bg_dir = Some (dk_pages d)\<rparr>"
    "memtable_should_flush mt \<Longrightarrow> en_memtable e = snd (memtable_drain mt) \<and>
       en_compactor e = \<lparr>bg_queue = [fst (frozen_to_page env mt)], bg_cm = loaded_cm levels, bg_dir = Some (dk_pages d)\<rparr>"
    using frozen_to_page_drained [of env mt]
    by (auto simp: cache_new_def memtable_iter_def memtable_to_page_frozen bg_new_def bg_submit_def
        cm_load_pages_def cm_new_def loaded_cm_def l split: prod.splits if_splits)
qed

section \<open>Reads after opening\<close>

lemma open_get:
  assumes "engine_open env t d = Some e" "dk_wal d = Some file"
    "load_all (env_inflate env) (dk_pages d) = Some levels"
    "rs = fst (replay (env_crc env) file)" "\<not> memtable_should_flush (replayed t rs)"
  shows "fst (engine_get k e) = resolve (last_write rs k) (cm_get (loaded_cm levels) k)"
    and "hamt_ok (en_state e)" "hamt_get (en_state e) k = resolve (last_write rs k) None"
proof -
  note o = open_fields [OF assms(1,2,3) refl, folded assms(4)]
  have mem: "en_memtable e = replayed t rs" and cm: "engine_cm e = loaded_cm levels"
    using o(4) assms(5) by simp_all
  have "cache_val (en_cache e) k = None" by (rule cache_empty_val) (rule o(3))
  then show "fst (engine_get k e) = resolve (last_write rs k) (cm_get (loaded_cm levels) k)"
    using o(1) cm cache_get_val [of k "en_cache e", symmetric] replayed_entry [of t rs k, symmetric]
    by (auto simp: engine_get_def mem mem_entry_of_def Let_def split: option.split prod.split)
  let ?live = "live_entries (mt_entries (en_memtable e))"
  have bt: "bt_ok (mt_entries (en_memtable e))"
    using replayed_ok [of t rs] by (simp add: mem memtable_ok_def)
  have "distinct (map fst ?live)" by (rule bt_ok_distinct [OF live_entries_bt(1) [OF bt]])
  with hamt_kv.put_all_get_distinct [OF hamt_ok_new(1) o(6)]
  have "hamt_get (en_state e) k = bt_get ?live k"
    by (simp add: map_add_def bt_get_def split: option.split)
  also have "\<dots> = memtable_get (en_memtable e) k"
    using live_entries_bt(2) [OF bt] by (simp add: memtable_get_def)
  finally show "hamt_get (en_state e) k = resolve (last_write rs k) None"
    by (simp add: mem replayed_get)
  show "hamt_ok (en_state e)" by (rule hamt_kv.put_all_ok [OF hamt_ok_new(1) o(6)])
qed

definition records_size :: "wal_record list \<Rightarrow> nat" where
  "records_size rs = sum_list (map (\<lambda>r. length (wr_key r) + length (wr_value r) + 8) rs)"

lemma replayed_size: "mt_size_bytes (replayed t rs) \<le> records_size rs \<and> mt_flush_threshold (replayed t rs) = t"
proof (induction rs rule: rev_induct)
  case Nil
  then show ?case by (simp add: replayed_def memtable_new_def records_size_def)
next
  case (snoc r rs)
  then show ?case
    by (auto simp: replayed_snoc mem_write_size records_size_def record_write_def old_size_def)
qed

lemma small_log_no_flush: "records_size rs < t \<Longrightarrow> \<not> memtable_should_flush (replayed t rs)"
  using replayed_size [of t rs] by (simp add: memtable_should_flush_def)

lemma records_size_take: "records_size (take j rs) \<le> records_size rs"
  using arg_cong [OF append_take_drop_id [of j rs], of records_size] by (simp add: records_size_def del: append_take_drop_id)

text \<open>The live map of the specification is what the log says, when no empty value was put.\<close>

fun op_nonempty :: "engine_op \<Rightarrow> bool" where
  "op_nonempty (EPut k v) = (v \<noteq> [])"
| "op_nonempty (EPutBatch kvs) = list_all (\<lambda>(k, v). v \<noteq> []) kvs"
| "op_nonempty (EBulkIngest kvs) = list_all (\<lambda>(k, v). v \<noteq> []) kvs"
| "op_nonempty _ = True"

lemma appended_batch: "appended (map (\<lambda>(k, v). WAppend k v) kvs) = map (\<lambda>(k, v). rec k v) kvs"
  by (induction kvs) auto

lemma last_write_append: "last_write (rs @ rs') k = (case last_write rs' k of None \<Rightarrow> last_write rs k | Some v \<Rightarrow> Some v)"
  by (simp add: last_write_def map_add_def split: option.split)

lemma resolve_last_append:
  "resolve (last_write (rs @ rs') k) b = resolve (last_write rs' k) (resolve (last_write rs k) b)"
  by (simp add: last_write_append split: option.split)

lemma last_write_batch:
  "list_all (\<lambda>(k, v). v \<noteq> []) kvs \<Longrightarrow>
   resolve (last_write (map (\<lambda>(k, v). rec k v) kvs) k) b = (case map_of (rev kvs) k of None \<Rightarrow> b | Some v \<Rightarrow> Some v)"
proof (induction kvs rule: rev_induct)
  case (snoc kv kvs)
  obtain k' v where "kv = (k', v)" by fastforce
  with snoc show ?case by (simp add: last_write_snoc record_write_def)
qed (simp add: last_write_def)

lemma spec_next_live:
  assumes "op_nonempty op"
  shows "sp_live (spec_next op s) k = resolve (last_write (appended (op_wal op)) k) (sp_live s k)"
proof -
  have empty: "last_write [] k = None" by (simp add: last_write_def)
  have one: "last_write [rec k' v] k = (if k = k' then Some (if v = [] then None else Some v) else None)" for k' v
    by (simp add: last_write_def record_write_def)
  show ?thesis
    using assms last_write_batch [where k = k and b = "sp_live s k"]
    by (cases op) (auto simp: spec_update_def fold_upd_map_of map_add_def appended_batch empty one
        split: option.split)
qed

lemma spec_run_live:
  "spec_run ops s outs s' \<Longrightarrow> list_all op_nonempty ops \<Longrightarrow>
   sp_live s' k = resolve (last_write (appended (run_wal ops)) k) (sp_live s k)"
proof (induction ops arbitrary: s outs)
  case Nil
  then show ?case by (simp add: run_wal_def last_write_def)
next
  case (Cons op ops)
  then show ?case
    by (auto simp: run_wal_def resolve_last_append spec_next_live)
qed

lemma run_wal_flushed:
  assumes "wal_buf w = []"
  shows "wal_buf (fold (wal_do crc) (run_wal ops) w) = []"
  using assms
proof (induction ops arbitrary: w)
  case (Cons op ops)
  have "wal_buf (fold (wal_do crc) (op_wal op) w) = []"
    using Cons.prems by (cases op) (auto simp: wal_flush_def wal_sync_def Let_def)
  with Cons.IH show ?case by (simp add: run_wal_def)
qed (simp add: run_wal_def)

lemma run_wal_file:
  assumes "engine_run env ops (fresh_engine t) = Some (outs, e)"
  shows "wal_file (en_wal e) = wal_log (env_crc env) (appended (run_wal ops))"
  using engine_run_wal [OF assms] wal_run_content [of "env_crc env" "run_wal ops" "wal_open []"]
    run_wal_flushed [of "wal_open []" "env_crc env" ops]
  by (simp add: fresh_engine_def wal_open_def)

lemma open_returns:
  assumes "load_all (env_inflate env) (dk_pages d) = Some levels" "dk_wal d = Some file"
    "inj_on fnv1a (wr_key ` set (fst (replay (env_crc env) file)))"
  shows "\<exists>e. engine_open env t d = Some e"
proof -
  obtain recs c where r: "replay (env_crc env) file = (recs, c)" by fastforce
  obtain l0 l1 l2 where l: "levels = (l0, l1, l2)" by (cases levels)
  let ?im = "load_graph (dk_graph d)
    (load_hnsw (dk_hnsw d) index_manager_new)"
  obtain im where f: "fold replay_record recs (memtable_new t, ?im) = (replayed t recs, im)"
    using replay_memtable [of recs "memtable_new t" ?im]
    by (cases "fold replay_record recs (memtable_new t, ?im)") (simp add: replayed_def)
  obtain p where p: "frozen_to_page env (replayed t recs) = (p, snd (memtable_drain (replayed t recs)))"
    using frozen_to_page_drained [of env "replayed t recs"] by (metis prod.collapse)
  have keys: "fst ` set (mt_entries (replayed t recs)) \<subseteq> wr_key ` set recs"
  proof
    fix k assume "k \<in> fst ` set (mt_entries (replayed t recs))"
    then have "last_write recs k \<noteq> None"
      using replayed_entry [of t recs k, symmetric]
      by (auto simp: mem_entry_of_def memtable_get_entry_def bt_get_None_iff)
    then show "k \<in> wr_key ` set recs"
      by (auto simp: last_write_def record_write_def dest!: map_of_SomeD)
  qed
  have "\<exists>h. put_all hamt_put (live_entries es) hamt_new = Some h"
    if "fst ` set es \<subseteq> wr_key ` set recs" for es
  proof -
    have "fst ` set (live_entries es) \<union> dom (hamt_get hamt_new) \<subseteq> wr_key ` set recs"
      using live_entries_keys [of es] that by (auto simp: dom_def)
    then have "inj_on fnv1a (fst ` set (live_entries es) \<union> dom (hamt_get hamt_new))"
      using assms(3) by (simp add: r inj_on_subset)
    with hamt_hashed.put_all_returns [OF hamt_ok_new(1)] show ?thesis by blast
  qed
  from this [OF keys] this [of "[]"] show ?thesis
    by (auto simp: engine_open_def assms(1,2) open_with_def l r f p Let_def memtable_to_page_frozen
        memtable_iter_def memtable_drain_def)
qed

section \<open>Properties\<close>


definition log_disk :: "bytes \<Rightarrow> disk" where
  "log_disk file = \<lparr>dk_wal = Some file, dk_pages = [], dk_hnsw = None, dk_graph = None\<rparr>"

definition synced_ops :: "engine_op list" where
  "synced_ops = [EPut [1] [7], ESync, EPut [1] [8]]"

lemma synced_ops_records: "appended (run_wal synced_ops) = [rec [1] [7], rec [1] [8]]"
  by (simp add: synced_ops_def run_wal_def)

lemma synced_ops_return:
  "\<exists>outs e. engine_run plain_env synced_ops (fresh_engine 10) = Some (outs, e) \<and> en_flush_count e < 4"
proof -
  have "list_all (\<lambda>op. op_keys op \<subseteq> {[1]} \<and> op_ordered op) synced_ops"
    by (simp add: synced_ops_def)
  then obtain outs e where run: "engine_run plain_env synced_ops (fresh_engine 10) = Some (outs, e)"
    using engine_run_total [OF keys_within_fresh, of "{[1]}" synced_ops plain_env 10] by auto
  moreover have "en_flush_count e < 4"
    using run_count_bound [OF run] by (simp add: synced_ops_def fresh_engine_def)
  ultimately show ?thesis by blast
qed

lemma log_disk_opens:
  assumes "wr_key ` set (fst (replay (env_crc plain_env) file)) \<subseteq> {[1]}"
  obtains e where "engine_open plain_env t (log_disk file) = Some e"
proof -
  have "inj_on fnv1a (wr_key ` set (fst (replay (env_crc plain_env) file)))"
    by (rule inj_on_subset [OF _ assms]) simp
  with open_returns [of plain_env "log_disk file" "([], [], [])" "file" t] that show thesis
    by (auto simp: log_disk_def load_all_empty)
qed




text \<open>
  (C34) A database opened on files scans only its memtable. The pages loaded from disk never
  appear in a scan before the first flush, and when the replay itself filled the memtable, all
  of it goes to a page and every scan is empty, although point reads still find the records
  once the worker has run.
\<close>

theorem reopened_scan_ignores_pages:
  assumes "engine_open env t d = Some e" "dk_wal d = Some file"
    "load_all (env_inflate env) (dk_pages d) = Some levels" "start \<le> endk"
    "rs = fst (replay (env_crc env) file)"
  shows "\<exists>xs. engine_scan start endk (catch_up env e) = Some xs \<and> bt_ok xs \<and>
    (\<forall>k. bt_get xs k = (if start \<le> k \<and> k < endk \<and> \<not> memtable_should_flush (replayed t rs)
       then resolve (last_write rs k) None else None)) \<and>
    (memtable_should_flush (replayed t rs) \<and> levels = ([], [], []) \<longrightarrow>
       (\<forall>k. fst (engine_get k (catch_up env e)) = resolve (last_write rs k) None))"
proof (cases "memtable_should_flush (replayed t rs)")
  case False
  note o = open_fields [OF assms(1,2,3) refl, folded assms(5)]
  have "catch_up env e = e" "en_memtable e = replayed t rs"
    using o(4) False by (simp_all add: catch_up_def bg_drain_idle)
  with False engine_scan_fast [of e start endk] assms(4) o(1,2) replayed_ok [of t rs] show ?thesis
    by (auto simp: replayed_get)
next
  case True
  note o = open_fields [OF assms(1,2,3) refl, folded assms(5)]
  let ?e = "catch_up env e"
  have mem: "en_memtable ?e = snd (memtable_drain (replayed t rs))" "en_frozen ?e = []" "en_flush_count ?e = 0"
      "lc_entries (en_cache ?e) = []"
    using o(1,2,3,5) True by (simp_all add: catch_up_def)
  have none: "memtable_get (en_memtable ?e) k = None" for k
    by (simp add: mem memtable_get_entry_of)
  have scan: "\<exists>xs. engine_scan start endk ?e = Some xs \<and> bt_ok xs \<and> (\<forall>k. bt_get xs k = None)"
    using engine_scan_fast [of ?e start endk] mem assms(4) none by auto
  have "engine_cm ?e = add_l0_page (env_deflate env) (fst (frozen_to_page env (replayed t rs))) (loaded_cm levels)"
    using o(5) True by (simp add: catch_up_def bg_drain_state)
  then have "cm_get (engine_cm ?e) k = resolve (last_write rs k) None" if "levels = ([], [], [])" for k
    using that frozen_to_page_page(2) [OF replayed_ok, of env t rs k]
    by (simp add: loaded_cm_def cm_new_def add_l0_page_def L0_LIMIT_def cm_get_search search_pages_Cons
        replayed_entry split: option.split)
  moreover have "fst (engine_get k ?e) = cm_get (engine_cm ?e) k" for k
    using mem cache_get_val [of k "en_cache ?e", symmetric] cache_empty_val [OF mem(4), of k]
    by (auto simp: engine_get_def Let_def memtable_drain_def memtable_get_entry_def split: option.split prod.split)
  ultimately show ?thesis using scan True by auto
qed


theorem reopened_scan_ignores_pages_witness:
  "\<exists>e. engine_open plain_env 10 (log_disk (wal_log (env_crc plain_env) [rec [1] [7]])) = Some e \<and>
     engine_scan [0] [9] (catch_up plain_env e) = Some [] \<and>
     fst (engine_get [1] (catch_up plain_env e)) = Some [7]"
proof -
  let ?file = "wal_log (env_crc plain_env) [rec [1] [7]]"
  have "\<forall>rc \<in> set [rec [1] [7]]. fits rc" by (simp add: fits_def)
  from replay_log_append [OF this, of "env_crc plain_env" "[]"]
  have rs: "[rec [1] [7]] = fst (replay (env_crc plain_env) ?file)" by simp
  then have "wr_key ` set (fst (replay (env_crc plain_env) ?file)) \<subseteq> {[1]}"
    by (metis (no_types) empty_set image_empty image_insert list.simps(15) order_refl rec_sel(1))
  then obtain e where e: "engine_open plain_env 10 (log_disk ?file) = Some e" by (rule log_disk_opens)
  have disk: "dk_wal (log_disk ?file) = Some ?file"
    "load_all (env_inflate plain_env) (dk_pages (log_disk ?file)) = Some ([], [], [])"
    by (simp_all add: log_disk_def load_all_empty)
  have full: "memtable_should_flush (replayed 10 [rec [1] [7]])"
    by (simp add: replayed_def record_write_def mem_write_def memtable_put_def memtable_new_def
        memtable_should_flush_def)
  have "[0::u8] \<le> [9]" by simp
  from reopened_scan_ignores_pages [OF e disk this rs] full
  obtain xs where xs: "engine_scan [0] [9] (catch_up plain_env e) = Some xs" "bt_ok xs" "\<forall>k. bt_get xs k = None"
    and get: "\<forall>k. fst (engine_get k (catch_up plain_env e)) = resolve (last_write [rec [1] [7]] k) None"
    by auto
  have "xs = []" by (rule bt_ok_ext) (use xs in \<open>auto simp: fun_eq_iff\<close>)
  with e xs get show ?thesis by (auto simp: last_write_def record_write_def)
qed

end
