(* ===== verification/Engine_Branches.thy ===== *)
theory Engine_Branches
  imports Engine_Run
begin

text \<open>
  Branches and the limits of the specification of runs: what a merge does, what a diff lists,
  and how reads behave between a flush and the worker's next step and after a merge into keys
  that the read cache holds.
\<close>

section \<open>Lemmas\<close>

lemma merge_keeps:
  assumes "put_all (merge_write env) kvs e = Some e'"
  shows "en_cache e' = en_cache e \<and> en_snapshots e' = en_snapshots e \<and> en_frozen e' = en_frozen e \<and>
    en_compactor e' = en_compactor e \<and> en_flush_count e' = en_flush_count e"
  using assms
proof (induction kvs arbitrary: e)
  case (Cons kv kvs)
  then obtain e1 where e1: "merge_write env (fst kv) (snd kv) e = Some e1" "put_all (merge_write env) kvs e1 = Some e'"
    by (auto split: option.splits)
  from e1(1) have "en_cache e1 = en_cache e \<and> en_snapshots e1 = en_snapshots e \<and> en_frozen e1 = en_frozen e \<and>
      en_compactor e1 = en_compactor e \<and> en_flush_count e1 = en_flush_count e"
    by (auto simp: merge_write_def Let_def)
  with Cons.IH [OF e1(2)] show ?case by simp
qed simp

lemma merge_memtable:
  assumes "put_all (merge_write env) kvs e = Some e'"
  shows "mem_entry_of (en_memtable e') k =
    (case map_of (rev kvs) k of None \<Rightarrow> mem_entry_of (en_memtable e) k | Some v \<Rightarrow> Some (Some v))"
  using assms
proof (induction kvs arbitrary: e)
  case (Cons kv kvs)
  then obtain e1 where e1: "merge_write env (fst kv) (snd kv) e = Some e1" "put_all (merge_write env) kvs e1 = Some e'"
    by (auto split: option.splits)
  from e1(1) have "en_memtable e1 = mem_write (fst kv) (Some (snd kv)) (en_memtable e)"
    by (auto simp: merge_write_def memtable_put_write Let_def)
  with Cons.IH [OF e1(2)] show ?case
    by (auto simp: mem_entry_of_write map_add_def split: option.split)
qed simp

lemma branch_merge_cases:
  assumes "branch_merge env b e = Some (Inr (n, e'))"
  obtains h e1 where "map_of (en_snapshots e) b = Some h" "put_all (merge_write env) (hamt_iter h) e = Some e1"
    "n = length (hamt_iter h)" "e' = e1\<lparr>en_snapshots := bt_remove b (en_snapshots e1)\<rparr>"
  using assms by (auto simp: branch_merge_def Let_def split: option.splits)

lemma snapshot_ok: "engine_ok e \<Longrightarrow> map_of (en_snapshots e) b = Some h \<Longrightarrow> hamt_ok h"
  using list_all_lookup [of "\<lambda>(n, h). hamt_ok h" "en_snapshots e" b h]
  by (simp add: engine_ok_def states_ok_def)

lemma get_after_merge:
  assumes ok: "engine_ok e" and h: "hamt_ok h" and put: "put_all (merge_write env) (hamt_iter h) e = Some e1"
    and e': "e' = e1\<lparr>en_snapshots := s\<rparr>"
  shows "layers_ok e'" "engine_map e' = engine_map e ++ hamt_get h" "fst (engine_get k e') = engine_map e' k"
proof -
  have d: "distinct (map fst (hamt_iter h))" "map_of (hamt_iter h) = hamt_get h"
    using h by (simp_all add: hamt_iter_distinct hamt_get_iter)
  have l: "layers_ok e1" "engine_map e1 = engine_map e ++ hamt_get h"
    using merge_live.put_all_ok [OF _ put] merge_live.put_all_get_distinct [OF _ put d(1)] ok d
    by (simp_all add: engine_ok_def)
  then show l': "layers_ok e'" "engine_map e' = engine_map e ++ hamt_get h"
    by (auto simp: e' layers_ok_def engine_map_def fun_eq_iff)
  have keep: "en_cache e' = en_cache e" "en_compactor e' = en_compactor e" "en_frozen e' = en_frozen e"
    using merge_keeps [OF put] by (simp_all add: e')
  have "frozen_entry (rev (en_frozen e')) k = None"
    using l'(1) by (intro frozen_entry_empty) (simp add: layers_ok_def)
  moreover have "cm_get (engine_cm e') k = Some v"
    if "mem_entry_of (en_memtable e') k = None" "cache_val (en_cache e') k = Some v" for v
    using ok that merge_memtable [OF put, of k] by (auto simp: engine_ok_def cache_coherent_def e' keep [unfolded e'])
  ultimately show "fst (engine_get k e') = engine_map e' k"
    using cache_get_val [of k "en_cache e'", symmetric]
    by (auto simp: engine_get_def engine_map_def mem_entry_of_def Let_def split: option.split prod.split)
qed

lemma branch_merge_returns:
  assumes "engine_ok e" "map_of (en_snapshots e) b = Some h"
    "inj_on fnv1a (dom (hamt_get h) \<union> dom (hamt_get (en_state e)))"
  shows "\<exists>n e'. branch_merge env b e = Some (Inr (n, e'))"
proof -
  have "hamt_ok (en_state e)" using assms(1) by (simp add: engine_ok_def states_ok_def)
  moreover have "inj_on fnv1a (fst ` set (hamt_iter h) \<union> dom (hamt_get (en_state e)))"
    using assms(3) by (simp add: hamt_get_iter [OF snapshot_ok [OF assms(1,2)]] dom_map_of_conv_image_fst)
  ultimately show ?thesis
    using merge_state.put_all_returns [of e "hamt_iter h" env] by (auto simp: branch_merge_def assms(2) Let_def)
qed

section \<open>An example state\<close>

text \<open>
  A page and the cache hold \<open>[8]\<close> for the key \<open>[1]\<close>, and the branch \<open>[98]\<close> holds \<open>[7]\<close>.
\<close>

definition one_key :: hamt where
  "one_key = the (hamt_put [1] [7] hamt_new)"

lemma one_key_put: "hamt_put [1] [7] hamt_new = Some one_key"
proof -
  have "\<exists>h. hamt_put [1] [7] hamt_new = Some h"
    using hamt_hashed.put_returns [OF hamt_ok_new(1), of "[1]"] by (simp add: dom_def)
  then show ?thesis by (auto simp: one_key_def)
qed

lemma one_key_ok [simp]: "hamt_ok one_key" "hamt_get one_key k = (if k = [1] then Some [7] else None)"
  using hamt_kv.put_ok [OF hamt_ok_new(1) one_key_put] hamt_kv.put_get [OF hamt_ok_new(1) one_key_put]
  by simp_all

definition branch_engine :: engine where
  "branch_engine = (fresh_engine 100)
     \<lparr>en_compactor := (bg_new None)\<lparr>bg_cm := cm_new\<lparr>cm_l0 := [put_page [1] [8]]\<rparr>\<rparr>, en_flush_count := 1,
      en_cache := cache_insert [1] [8] (cache_new 1024), en_snapshots := [([98], one_key)]\<rparr>"

lemma branch_engine_cache: "cache_val (en_cache branch_engine) k = (if k = [1] then Some [8] else None)"
  by (simp add: branch_engine_def cache_val_def cache_insert_def cache_new_def Let_def)

lemma branch_engine_ok: "engine_ok branch_engine"
proof -
  have "layers_ok branch_engine" "states_ok branch_engine"
    by (simp_all add: layers_ok_def states_ok_def branch_engine_def fresh_engine_def bg_new_def cm_new_def
        cm_pages_ok_def)
  moreover have "cache_coherent branch_engine"
    unfolding cache_coherent_def branch_engine_cache
    by (simp add: branch_engine_def fresh_engine_def bg_new_def cm_new_def cm_get_search search_pages_Cons)
  ultimately show ?thesis by (simp add: engine_ok_def)
qed

lemma branch_engine_snapshot: "map_of (en_snapshots branch_engine) [98] = Some one_key"
  by (simp add: branch_engine_def)

lemma branch_engine_state: "hamt_get (en_state branch_engine) k = None"
  by (simp add: branch_engine_def fresh_engine_def)

lemma branch_engine_merges: "\<exists>n e'. branch_merge env [98] branch_engine = Some (Inr (n, e'))"
proof -
  have "dom (hamt_get one_key) \<union> dom (hamt_get (en_state branch_engine)) = {[1]}"
    by (auto simp: branch_engine_state split: if_splits)
  then show ?thesis
    by (intro branch_merge_returns [OF branch_engine_ok branch_engine_snapshot]) simp
qed

section \<open>Properties\<close>

text \<open>
  Merging a branch overlays the branch on the live data and on the persistent state: right
  after the merge every key of the branch reads as in the branch and every other key as before,
  the branch is gone, other snapshots stay, and the number returned is the number of keys of the
  branch. Deletions made on a branch are not merged. The merge returns unless two keys clash in
  their hashes.
\<close>

theorem branch_merge_overlays:
  assumes "engine_ok e" "map_of (en_snapshots e) b = Some h"
  shows "(branch_merge env b e = Some (Inr (n, e')) \<longrightarrow>
      n = card (dom (hamt_get h)) \<and>
      (\<forall>k. fst (engine_get k e') = (case hamt_get h k of Some v \<Rightarrow> Some v | None \<Rightarrow> fst (engine_get k e))) \<and>
      hamt_get (en_state e') = hamt_get (en_state e) ++ hamt_get h \<and>
      map_of (en_snapshots e') = (map_of (en_snapshots e))(b := None)) \<and>
    (inj_on fnv1a (dom (hamt_get h) \<union> dom (hamt_get (en_state e))) \<longrightarrow>
      (\<exists>n e'. branch_merge env b e = Some (Inr (n, e'))))"
proof -
  note h = snapshot_ok [OF assms]
  note d = hamt_iter_distinct [OF h] hamt_get_iter [OF h]
  have st: "hamt_ok (en_state e)" using assms(1) by (simp add: engine_ok_def states_ok_def)
  have main: "n = card (dom (hamt_get h)) \<and>
      (\<forall>k. fst (engine_get k e') = (case hamt_get h k of Some v \<Rightarrow> Some v | None \<Rightarrow> fst (engine_get k e))) \<and>
      hamt_get (en_state e') = hamt_get (en_state e) ++ hamt_get h \<and>
      map_of (en_snapshots e') = (map_of (en_snapshots e))(b := None)"
    if "branch_merge env b e = Some (Inr (n, e'))"
  proof -
    from that assms(2) obtain e1 where e1: "put_all (merge_write env) (hamt_iter h) e = Some e1"
      "n = length (hamt_iter h)" "e' = e1\<lparr>en_snapshots := bt_remove b (en_snapshots e1)\<rparr>"
      by (elim branch_merge_cases) auto
    have "fst (engine_get k e) = engine_map e k" for k
      using assms(1) by (simp add: engine_get_reads engine_ok_def)
    then show ?thesis
      using get_after_merge [OF assms(1) h e1(1,3)] merge_state.put_all_get_distinct [OF st e1(1) d(1)]
        merge_keeps [OF e1(1)] d e1(2,3)
      by (simp add: length_iter_card map_add_def split: option.split)
  qed
  with main branch_merge_returns [OF assms] show ?thesis by blast
qed

theorem branch_merge_overlays_witness:
  "\<exists>n e'. branch_merge plain_env [98] branch_engine = Some (Inr (n, e')) \<and> fst (engine_get [1] e') = Some [7]"
  using branch_engine_merges [of plain_env]
    branch_merge_overlays [OF branch_engine_ok branch_engine_snapshot, of plain_env]
  by fastforce

text \<open>
  (C31) A diff lists exactly the keys on which a branch and the persistent state differ, each once,
  with the value of the state and the value of the branch.
\<close>

theorem branch_diff_exact:
  assumes "engine_ok e" "map_of (en_snapshots e) b = Some h" "branch_diff b e = Inr ds"
  shows "distinct (map fst ds) \<and>
    ((k, l, r) \<in> set ds \<longleftrightarrow> l = hamt_get (en_state e) k \<and> r = hamt_get h k \<and> l \<noteq> r)"
proof -
  let ?L = "hamt_get (en_state e)" and ?H = "hamt_get h"
  have ok: "hamt_ok (en_state e)" "hamt_ok h"
    using assms(1) snapshot_ok [OF assms(1,2)] by (simp_all add: engine_ok_def states_ok_def)
  have iter: "(k, v) \<in> set (hamt_iter g) \<longleftrightarrow> hamt_get g k = Some v" if "hamt_ok g" for g k v
    using that hamt_iter_distinct [OF that] by (simp add: hamt_get_iter)
  let ?A = "map (\<lambda>(k, v). (k, ?L k, Some v)) (filter (\<lambda>(k, v). ?L k \<noteq> Some v) (hamt_iter h))"
  let ?B = "map (\<lambda>(k, v). (k, Some v, None)) (filter (\<lambda>(k, v). ?H k = None) (hamt_iter (en_state e)))"
  have "concat (map (\<lambda>(k, v). if P k v then [f k v] else []) xs) =
      map (\<lambda>(k, v). f k v) (filter (\<lambda>(k, v). P k v) xs)"
    for P f and xs :: "(bytes \<times> bytes) list"
    by (induction xs) auto
  note part = this
  have ds: "ds = ?A @ ?B"
    using assms(3) by (simp add: branch_diff_def assms(2) Let_def part)
  have keys: "map fst ?A = map fst (filter (\<lambda>(k, v). ?L k \<noteq> Some v) (hamt_iter h))"
    "map fst ?B = map fst (filter (\<lambda>(k, v). ?H k = None) (hamt_iter (en_state e)))"
    by (simp_all add: comp_def case_prod_unfold)
  have dist: "distinct (map fst ?A)" "distinct (map fst ?B)"
    unfolding keys using hamt_iter_distinct ok by (simp_all add: distinct_map_filter)
  have "k \<notin> set (map fst ?B)" if "k \<in> set (map fst ?A)" for k
    using that unfolding keys by (auto simp: iter [OF ok(1)] iter [OF ok(2)])
  then have "distinct (map fst ds)"
    using dist unfolding ds map_append distinct_append by blast
  moreover have "(k, l, r) \<in> set ds \<longleftrightarrow> l = ?L k \<and> r = ?H k \<and> l \<noteq> r"
    unfolding ds by (auto simp: iter [OF ok(1)] iter [OF ok(2)] image_iff) (metis option.exhaust)+
  ultimately show ?thesis by blast
qed

theorem branch_diff_exact_witness:
  "\<exists>ds. branch_diff [98] branch_engine = Inr ds \<and> ([1], None, Some [7]) \<in> set ds"
proof -
  obtain ds where ds: "branch_diff [98] branch_engine = Inr ds"
    by (simp add: branch_diff_def branch_engine_snapshot)
  from branch_diff_exact [OF branch_engine_ok branch_engine_snapshot ds, of "[1]" None "Some [7]"] ds
  show ?thesis by (simp add: branch_engine_state)
qed

text \<open>
  (C32) The window of a flush. The memtable is emptied before it joins the frozen list, so until
  the worker has handled the page, a read of a key of that memtable skips the newest value and
  returns what older pages have; after the worker's step it returns the value again.
\<close>

theorem flush_window_hides_writes:
  assumes "engine_ok e" "mem_entry_of (en_memtable e) k = Some v" "en_flush_count e < 3"
  shows "fst (engine_get k (flush_memtable env e)) = cm_get (engine_cm e) k \<and>
    fst (engine_get k (catch_up env (flush_memtable env e))) = v"
proof
  have l: "layers_ok e" and c: "cache_coherent e" using assms(1) by (simp_all add: engine_ok_def)
  let ?e = "flush_memtable env e"
  have "\<forall>f \<in> set (en_frozen ?e). mt_entries f = []"
    using l set_trim_frozen [of "en_frozen e @ [snd (memtable_drain (en_memtable e))]"]
    by (auto simp: flush_memtable_fields layers_ok_def memtable_drain_def)
  then have "frozen_entry (rev (en_frozen ?e)) k = None" by (intro frozen_entry_empty) simp
  moreover have "cache_val (en_cache e) k = None"
    using c assms(2) by (cases "cache_val (en_cache e) k") (auto simp: cache_coherent_def)
  ultimately show "fst (engine_get k ?e) = cm_get (engine_cm e) k"
    using cache_get_val [of k "en_cache e", symmetric] mem_entry_of_new [of "en_flush_threshold e" k]
    by (auto simp: engine_get_def flush_memtable_fields bg_submit_def mem_entry_of_def Let_def
        split: option.split prod.split)
  have "engine_ok (catch_up env ?e)" "engine_map (catch_up env ?e) k = v"
    using flush_keeps [OF assms(1,3), of env] assms(2) by (simp_all add: engine_map_def)
  then show "fst (engine_get k (catch_up env ?e)) = v"
    by (simp add: engine_get_reads engine_ok_def)
qed

theorem flush_window_hides_writes_witness:
  "\<exists>e. engine_ok e \<and> memtable_get (en_memtable e) [1] = Some [7] \<and>
     fst (engine_get [1] (flush_memtable plain_env e)) = None \<and>
     fst (engine_get [1] (catch_up plain_env (flush_memtable plain_env e))) = Some [7]"
proof -
  let ?e = "(fresh_engine 100)\<lparr>en_memtable := mem_write [1] (Some [7]) (memtable_new 100)\<rparr>"
  have ok: "engine_ok ?e"
    using engine_ok_fresh [of 100]
    by (simp add: engine_ok_def layers_ok_def states_ok_def cache_coherent_def memtable_ok_write)
      (simp add: fresh_engine_def cache_val_def cache_new_def)
  have mem: "mem_entry_of (en_memtable ?e) [1] = Some (Some [7])" and few: "en_flush_count ?e < 3"
    by (simp_all add: mem_entry_of_write fresh_engine_def)
  have "cm_get (engine_cm ?e) [1] = None"
    by (simp add: fresh_engine_def bg_new_def cm_new_def cm_get_search)
  with flush_window_hides_writes [OF ok mem few, of plain_env] ok mem show ?thesis
    by (intro exI [of _ ?e]) (simp add: memtable_get_entry_of)
qed

text \<open>
  A merge does not invalidate the read cache. When the cache holds an older value of a key of
  the branch, then once the memtable has been flushed, reads return the cached value instead of the
  merged one.
\<close>

theorem merge_then_flush_reads_stale:
  assumes "engine_ok e" "map_of (en_snapshots e) b = Some h" "hamt_get h k = Some w"
    "cache_val (en_cache e) k = Some v" "branch_merge env b e = Some (Inr (n, e'))" "en_flush_count e < 3"
  shows "fst (engine_get k e') = Some w \<and>
    fst (engine_get k (catch_up env (flush_memtable env e'))) = Some v"
proof
  from assms(2,5) obtain e1 where e1: "put_all (merge_write env) (hamt_iter h) e = Some e1"
    "e' = e1\<lparr>en_snapshots := bt_remove b (en_snapshots e1)\<rparr>"
    by (elim branch_merge_cases) auto
  note m = get_after_merge [OF assms(1) snapshot_ok [OF assms(1,2)] e1]
  show "fst (engine_get k e') = Some w"
    using m assms(3) by simp
  have keep: "en_cache e' = en_cache e" "en_flush_count e' < 3"
    using merge_keeps [OF e1(1)] assms(6) by (simp_all add: e1(2))
  let ?e = "catch_up env (flush_memtable env e')"
  note fl = flush_layers [OF m(1) keep(2), of env]
  have "frozen_entry (rev (en_frozen ?e)) k = None"
    using fl(1) by (intro frozen_entry_empty) (simp add: layers_ok_def)
  moreover have "en_cache ?e = en_cache e"
    by (simp add: catch_up_def flush_memtable_fields keep)
  ultimately show "fst (engine_get k ?e) = Some v"
    using fl(3) [of k] cache_get_val [of k "en_cache e", symmetric] assms(4)
    by (auto simp: engine_get_def mem_entry_of_def Let_def split: option.split prod.split)
qed

theorem merge_then_flush_reads_stale_witness:
  "\<exists>n e'. branch_merge plain_env [98] branch_engine = Some (Inr (n, e')) \<and>
     fst (engine_get [1] e') = Some [7] \<and>
     fst (engine_get [1] (catch_up plain_env (flush_memtable plain_env e'))) = Some [8]"
proof -
  obtain n e' where m: "branch_merge plain_env [98] branch_engine = Some (Inr (n, e'))"
    using branch_engine_merges by blast
  have "hamt_get one_key [1] = Some [7]" "cache_val (en_cache branch_engine) [1] = Some [8]"
    "en_flush_count branch_engine < 3"
    by (simp_all add: branch_engine_cache) (simp add: branch_engine_def)
  from merge_then_flush_reads_stale [OF branch_engine_ok branch_engine_snapshot this(1,2) m this(3)] m
  show ?thesis by blast
qed

text \<open>The profiled read is the read: same result and same state afterwards.\<close>

theorem engine_get_profiled_equiv: "engine_get_profiled k e = engine_get k e"
  by (simp add: engine_get_profiled_def engine_get_def Let_def split: option.split prod.split)

end
