(* ===== verification/Index_Recovery.thy ===== *)
theory Index_Recovery
  imports Index_Query Engine
begin

text \<open>
  The query indices after a restart. Replaying the log feeds every written record into the keyword
  index and none of the deletions, so the index and the store disagree about deleted records.
\<close>



end
