(* ===== verification/Schema.thy ===== *)
theory Schema
  imports Page_Store Utf8
begin

text \<open>
  \<^verbatim>\<open>src/query/schema.rs\<close>: validation of records against a list of field definitions, and
  defaults. A record is a hash map from field names to bytes. The grammars of
  \<^verbatim>\<open>i64::from_str\<close> and \<^verbatim>\<open>f64::from_str\<close> decide the numeric types. The lemmas show which
  numerals an integer field accepts and how defaults and validation work together.
\<close>

section \<open>Definitions\<close>

datatype field_type = FString | FInt | FFloat | FBool | FBytes

record field_def =
  fd_name :: str
  fd_type :: field_type
  fd_required :: bool
  fd_default :: "bytes option"

record schema =
  sc_name :: str
  sc_fields :: "field_def list"

record validation_error =
  ve_field :: str
  ve_message :: str

type_synonym rec_fields = "(str \<times> bytes) list"

definition schema_new :: "str \<Rightarrow> schema" where
  "schema_new name = \<lparr>sc_name = name, sc_fields = []\<rparr>"

definition schema_field :: "field_def \<Rightarrow> schema \<Rightarrow> schema" where
  "schema_field def sc = sc\<lparr>sc_fields := sc_fields sc @ [def]\<rparr>"

text \<open>\<^verbatim>\<open>i64::from_str\<close>: an optional sign, decimal digits, within 64 bits.\<close>

definition parse_i64 :: "str \<Rightarrow> int option" where
  "parse_i64 s =
     (let (neg, ds) = (case s of b # rest \<Rightarrow> if b = 0x2D then (True, rest) else if b = 0x2B then (False, rest) else (False, s)
                       | [] \<Rightarrow> (False, []));
          v = (if neg then - int (digits_value ds) else int (digits_value ds))
      in if ds = [] \<or> \<not> list_all is_digit ds \<or> v < - (2 ^ 63) \<or> v \<ge> 2 ^ 63 then None else Some v)"

text \<open>
  Whether \<^verbatim>\<open>f64::from_str\<close> accepts the text: an optional sign, then \<^verbatim>\<open>inf\<close>,
  \<^verbatim>\<open>infinity\<close> or \<^verbatim>\<open>nan\<close> in any case, or digits with an optional point and exponent.
\<close>

definition lower :: "u8 \<Rightarrow> u8" where
  "lower b = (if 0x41 \<le> b \<and> b \<le> 0x5A then b + 0x20 else b)"

definition strip_sign :: "str \<Rightarrow> str" where
  "strip_sign s = (case s of b # rest \<Rightarrow> if b = 0x2B \<or> b = 0x2D then rest else s | [] \<Rightarrow> [])"

definition float_exponent :: "str \<Rightarrow> bool" where
  "float_exponent s =
     (case s of
        [] \<Rightarrow> True
      | b # rest \<Rightarrow> lower b = 0x65 \<and> (let ds = strip_sign rest in ds \<noteq> [] \<and> list_all is_digit ds))"

definition float_number :: "str \<Rightarrow> bool" where
  "float_number s =
     (let whole = takeWhile is_digit s; rest = dropWhile is_digit s
      in case rest of
           b # r \<Rightarrow>
             (if b = 0x2E
              then (whole \<noteq> [] \<or> takeWhile is_digit r \<noteq> []) \<and> float_exponent (dropWhile is_digit r)
              else whole \<noteq> [] \<and> float_exponent rest)
         | [] \<Rightarrow> whole \<noteq> [])"

definition parses_f64 :: "str \<Rightarrow> bool" where
  "parses_f64 s =
     (let t = strip_sign s; l = map lower t
      in l \<in> {ascii ''inf'', ascii ''infinity'', ascii ''nan''} \<or> float_number t)"

definition type_valid :: "field_type \<Rightarrow> bytes \<Rightarrow> bool" where
  "type_valid expected v =
     (case expected of
        FString \<Rightarrow> utf8_valid v
      | FInt \<Rightarrow> utf8_valid v \<and> parse_i64 v \<noteq> None
      | FFloat \<Rightarrow> utf8_valid v \<and> parses_f64 v
      | FBool \<Rightarrow> v \<in> {ascii ''true'', ascii ''false'', ascii ''0'', ascii ''1''}
      | FBytes \<Rightarrow> True)"

fun type_name :: "field_type \<Rightarrow> str" where
  "type_name FString = ascii ''String''"
| "type_name FInt = ascii ''Int''"
| "type_name FFloat = ascii ''Float''"
| "type_name FBool = ascii ''Bool''"
| "type_name FBytes = ascii ''Bytes''"

definition check_type :: "str \<Rightarrow> field_type \<Rightarrow> bytes \<Rightarrow> validation_error option" where
  "check_type name expected v =
     (if type_valid expected v then None
      else Some \<lparr>ve_field = name,
             ve_message = ascii ''field '' @ [0x27] @ name @ [0x27] @ ascii '': expected '' @ type_name expected @
               ascii '', got invalid data''\<rparr>)"

definition validate_field :: "rec_fields \<Rightarrow> field_def \<Rightarrow> validation_error list" where
  "validate_field r f =
     (case map_of r (fd_name f) of
        None \<Rightarrow>
          (if fd_required f \<and> fd_default f = None
           then [\<lparr>ve_field = fd_name f, ve_message = ascii ''field '' @ [0x27] @ fd_name f @ [0x27] @ ascii '' is required''\<rparr>]
           else [])
      | Some v \<Rightarrow> (case check_type (fd_name f) (fd_type f) v of Some err \<Rightarrow> [err] | None \<Rightarrow> []))"

definition validate :: "schema \<Rightarrow> rec_fields \<Rightarrow> validation_error list" where
  "validate sc r = concat (map (validate_field r) (sc_fields sc))"

definition apply_default :: "field_def \<Rightarrow> rec_fields \<Rightarrow> rec_fields" where
  "apply_default f r =
     (if map_of r (fd_name f) = None
      then (case fd_default f of Some d \<Rightarrow> hm_insert (fd_name f) d r | None \<Rightarrow> r)
      else r)"

definition apply_defaults :: "schema \<Rightarrow> rec_fields \<Rightarrow> rec_fields" where
  "apply_defaults sc r = fold apply_default (sc_fields sc) r"

section \<open>Lemmas\<close>

lemma validate_valid_iff:
  "validate sc r = [] \<longleftrightarrow>
     (\<forall>f \<in> set (sc_fields sc). case map_of r (fd_name f) of
        None \<Rightarrow> \<not> (fd_required f \<and> fd_default f = None)
      | Some v \<Rightarrow> type_valid (fd_type f) v)"
proof -
  have "validate_field r f = [] \<longleftrightarrow>
     (case map_of r (fd_name f) of
        None \<Rightarrow> \<not> (fd_required f \<and> fd_default f = None)
      | Some v \<Rightarrow> type_valid (fd_type f) v)" for f
    by (cases "map_of r (fd_name f)") (simp_all add: validate_field_def check_type_def)
  then show ?thesis by (simp add: validate_def)
qed

text \<open>The first default of a missing field.\<close>

fun first_default :: "field_def list \<Rightarrow> str \<Rightarrow> bytes option" where
  "first_default [] n = None"
| "first_default (f # fs) n =
     (if fd_name f = n \<and> fd_default f \<noteq> None then fd_default f else first_default fs n)"

lemma apply_defaults_lookup:
  "map_of (apply_defaults sc r) n =
     (case map_of r n of Some v \<Rightarrow> Some v | None \<Rightarrow> first_default (sc_fields sc) n)"
proof -
  have "map_of (fold apply_default fs r) n =
      (case map_of r n of Some v \<Rightarrow> Some v | None \<Rightarrow> first_default fs n)" for fs
    by (induction fs arbitrary: r) (auto simp: apply_default_def split: option.splits)
  then show ?thesis by (simp add: apply_defaults_def)
qed

lemma first_default_mem: "first_default fs n = Some d \<Longrightarrow> \<exists>f \<in> set fs. fd_name f = n \<and> fd_default f = Some d"
  by (induction fs) (auto split: if_splits)

lemma first_default_some: "f \<in> set fs \<Longrightarrow> fd_default f \<noteq> None \<Longrightarrow> first_default fs (fd_name f) \<noteq> None"
  by (induction fs) auto

lemma digits_utf8: "list_all is_digit s \<Longrightarrow> utf8_valid s"
proof (induction s)
  case (Cons b s)
  then have "b \<le> 0x39" by (simp add: is_digit_def)
  then have "b < 0x80" by (rule order_le_less_trans) simp
  with Cons show ?case by simp
qed simp

lemma parse_i64_digits:
  assumes "ds \<noteq> []" "list_all is_digit ds"
  shows "parse_i64 ds = (if digits_value ds < 2 ^ 63 then Some (int (digits_value ds)) else None)"
    and "parse_i64 (0x2D # ds) = (if digits_value ds \<le> 2 ^ 63 then Some (- int (digits_value ds)) else None)"
proof -
  obtain d rest where ds: "ds = d # rest" using assms(1) by (cases ds) auto
  have "d \<noteq> 0x2D" "d \<noteq> 0x2B" using assms(2) ds by (auto simp: is_digit_def)
  then show "parse_i64 ds = (if digits_value ds < 2 ^ 63 then Some (int (digits_value ds)) else None)"
    using assms by (simp add: parse_i64_def ds)
  show "parse_i64 (0x2D # ds) = (if digits_value ds \<le> 2 ^ 63 then Some (- int (digits_value ds)) else None)"
    using assms by (simp add: parse_i64_def)
qed

section \<open>Properties\<close>


text \<open>
  (C38) Defaults fill the missing fields and change nothing else. A valid record stays valid exactly
  when the defaults that were filled in are themselves valid for every field of that name, which
  validation does not check beforehand.
\<close>

theorem schema_defaults_valid:
  assumes "validate sc r = []"
  shows "map_of (apply_defaults sc r) n = (case map_of r n of Some v \<Rightarrow> Some v | None \<Rightarrow> first_default (sc_fields sc) n) \<and>
    (validate sc (apply_defaults sc r) = [] \<longleftrightarrow>
      (\<forall>f \<in> set (sc_fields sc). \<forall>d. map_of r (fd_name f) = None \<longrightarrow> first_default (sc_fields sc) (fd_name f) = Some d \<longrightarrow>
         type_valid (fd_type f) d))"
proof -
  have "(case map_of (apply_defaults sc r) (fd_name f) of
        None \<Rightarrow> \<not> (fd_required f \<and> fd_default f = None) | Some v \<Rightarrow> type_valid (fd_type f) v) \<longleftrightarrow>
      (\<forall>d. map_of r (fd_name f) = None \<longrightarrow> first_default (sc_fields sc) (fd_name f) = Some d \<longrightarrow> type_valid (fd_type f) d)"
    if "f \<in> set (sc_fields sc)" for f
  proof (cases "map_of r (fd_name f)")
    case None
    with assms that show ?thesis by (auto simp: validate_valid_iff apply_defaults_lookup split: option.split)
  next
    case (Some v)
    with assms that show ?thesis by (auto simp: validate_valid_iff apply_defaults_lookup)
  qed
  then show ?thesis by (simp add: apply_defaults_lookup validate_valid_iff)
qed

text \<open>A field of integers whose default is a word: the empty record is valid until it gets its defaults.\<close>

theorem schema_defaults_valid_witness:
  "validate (schema_field \<lparr>fd_name = ascii ''n'', fd_type = FInt, fd_required = True, fd_default = Some (ascii ''x'')\<rparr>
      (schema_new [])) [] = [] \<and>
   validate (schema_field \<lparr>fd_name = ascii ''n'', fd_type = FInt, fd_required = True, fd_default = Some (ascii ''x'')\<rparr>
      (schema_new [])) (apply_defaults (schema_field \<lparr>fd_name = ascii ''n'', fd_type = FInt, fd_required = True,
        fd_default = Some (ascii ''x'')\<rparr> (schema_new [])) []) \<noteq> []"
proof -
  let ?sc = "schema_field \<lparr>fd_name = ascii ''n'', fd_type = FInt, fd_required = True, fd_default = Some (ascii ''x'')\<rparr> (schema_new [])"
  have v: "validate ?sc [] = []" by (simp add: validate_def validate_field_def schema_field_def schema_new_def)
  have "\<not> type_valid FInt (ascii ''x'')" by (simp add: type_valid_def parse_i64_def ascii_def is_digit_def)
  with v schema_defaults_valid [OF v, of "[]"] show ?thesis by (simp add: schema_field_def schema_new_def)
qed

end
