(* ===== verification/Server.thy ===== *)
theory Server
  imports Engine Session Namespace_Keys Utf8
begin

text \<open>
  \<^verbatim>\<open>src/server.rs\<close>: the message handlers. Message and response types and the opcode values
  come from the protocol package \<^verbatim>\<open>ulmp\<close>: a message is the list of its fields as
  arguments, and the opcodes are the parameter \<open>opcodes\<close>. A handler is \<open>None\<close> when the call
  does not return (see \<^verbatim>\<open>Engine\<close>). Every handler holds the engine lock for its whole body,
  so a handler is one step; \<^verbatim>\<open>commit_tx\<close> takes the locks three times and is three steps.
  File errors do not occur in the engine model, so the branches that report them are absent.
\<close>

section \<open>Payloads\<close>

definition TAG_U8 :: u8 where "TAG_U8 = 0x01"
definition TAG_U32 :: u8 where "TAG_U32 = 0x03"
definition TAG_U64 :: u8 where "TAG_U64 = 0x04"
definition TAG_F64 :: u8 where "TAG_F64 = 0x0A"
definition TAG_BYTES :: u8 where "TAG_BYTES = 0x0C"
definition TAG_STRING :: u8 where "TAG_STRING = 0x0D"
definition TAG_END :: u8 where "TAG_END = 0xFF"

lemmas tag_defs = TAG_U8_def TAG_U32_def TAG_U64_def TAG_F64_def TAG_BYTES_def TAG_STRING_def TAG_END_def

definition enc_field :: "u8 \<times> bytes \<Rightarrow> bytes" where
  "enc_field fd =
     (case fd of (tag, data) \<Rightarrow>
        tag #
        (if tag = TAG_U8 then (if data \<noteq> [] then [hd data] else [])
         else if tag = TAG_U32 \<or> tag = TAG_U64 \<or> tag = TAG_F64 then data
         else if tag = TAG_BYTES \<or> tag = TAG_STRING then to_be 4 (of_nat (length data) :: u32) @ data
         else []))"

definition enc :: "(u8 \<times> bytes) list \<Rightarrow> bytes" where
  "enc fs = concat (map enc_field fs) @ [TAG_END]"

definition string_field :: "str \<Rightarrow> u8 \<times> bytes" where
  "string_field s = (TAG_STRING, s)"

definition bytes_field :: "bytes \<Rightarrow> u8 \<times> bytes" where
  "bytes_field b = (TAG_BYTES, b)"

definition u32_field :: "u32 \<Rightarrow> u8 \<times> bytes" where
  "u32_field v = (TAG_U32, to_be 4 v)"

definition u64_field :: "u64 \<Rightarrow> u8 \<times> bytes" where
  "u64_field v = (TAG_U64, to_be 8 v)"

definition u8_field :: "u8 \<Rightarrow> u8 \<times> bytes" where
  "u8_field v = (TAG_U8, [v])"

text \<open>A floating-point number is given by its bits.\<close>

definition f64_field :: "u64 \<Rightarrow> u8 \<times> bytes" where
  "f64_field bits = (TAG_F64, to_be 8 bits)"

datatype 'op response = Single 'op bytes | Stream "('op \<times> bytes) list" | No_Response

record 'op opcodes =
  OP_ERROR :: 'op
  OP_RESULT_START :: 'op
  OP_RESULT_ROW :: 'op
  OP_RESULT_END :: 'op
  OP_AUTH_ROTATE_CHALLENGE :: 'op
  OP_AUTH_ROTATE_ACK :: 'op

definition error_response :: "'op opcodes \<Rightarrow> u8 \<Rightarrow> str \<Rightarrow> 'op response" where
  "error_response ops code msg =
     Single (OP_ERROR ops) (enc [u8_field code, u32_field 0, string_field msg])"

definition result_end_response :: "'op opcodes \<Rightarrow> u32 \<Rightarrow> u32 \<Rightarrow> 'op response" where
  "result_end_response ops cnt elapsed_ms =
     Single (OP_RESULT_END ops) (enc [u32_field cnt, u32_field elapsed_ms])"

text \<open>The frames of a streamed result: a count, the rows with their positions, the count again.\<close>

definition result_stream :: "'op opcodes \<Rightarrow> u32 \<Rightarrow> u32 \<Rightarrow> bytes list \<Rightarrow> 'op response" where
  "result_stream ops cnt found rows =
     Stream ([(OP_RESULT_START ops, enc [u32_field cnt])] @ map (\<lambda>r. (OP_RESULT_ROW ops, r)) rows @
       [(OP_RESULT_END ops, enc [u32_field found, u32_field 0])])"

definition row_payload :: "str \<Rightarrow> bytes \<Rightarrow> u64 \<Rightarrow> nat \<Rightarrow> bytes" where
  "row_payload key value score rank =
     enc [string_field key, bytes_field value, f64_field 0, f64_field 0, f64_field 0, f64_field 0,
          f64_field score, u32_field (of_nat rank)]"

definition display_key :: "bytes \<Rightarrow> str" where
  "display_key key = (case unscope_key key of Some k \<Rightarrow> utf8_lossy k | None \<Rightarrow> utf8_lossy key)"

definition resolve_ns :: "str \<Rightarrow> u64" where
  "resolve_ns ns =
     (if ns = [] then 0
      else case parse_usize ns of
             Some n \<Rightarrow> of_nat n
           | None \<Rightarrow>
               (if 0x40 \<in> set ns
                then derive_namespace_id (takeWhile (\<lambda>c. c \<noteq> 0x40) ns) (tl (dropWhile (\<lambda>c. c \<noteq> 0x40) ns))
                else derive_namespace_id ns []))"

section \<open>State\<close>

record watch_entry =
  we_namespace_id :: u64
  we_scope :: u8
  we_pattern :: str
  we_credit :: u32

record ump_handler =
  uh_engine :: engine
  uh_tx_mgr :: session_manager
  uh_watches :: "(u64 \<times> watch_entry) list"

definition handler_new :: "engine \<Rightarrow> ump_handler" where
  "handler_new e = \<lparr>uh_engine = e, uh_tx_mgr = sm_new, uh_watches = []\<rparr>"

section \<open>Transactions\<close>

definition begin_tx :: "u8 \<Rightarrow> ump_handler \<Rightarrow> nat \<times> ump_handler" where
  "begin_tx isolation_byte h =
     (let snapshot = hamt_snapshot (en_state (uh_engine h));
          (txid, m) = sm_begin (isolation_from_byte isolation_byte) snapshot (uh_tx_mgr h)
      in (txid, h\<lparr>uh_tx_mgr := m\<rparr>))"

datatype commit_error = Tx_Not_Found nat | Conflict_On bytes

text \<open>The read keys whose value in the live state is not the one of the snapshot, in read order.\<close>

definition conflicts :: "tx_session \<Rightarrow> engine \<Rightarrow> bytes list" where
  "conflicts s e =
     (if ts_isolation s = TxSerializable
      then filter (\<lambda>key. hamt_get (en_state e) key \<noteq> hamt_get (ts_snapshot s) key) (ts_read_set s)
      else [])"

fun apply_op :: "platform \<Rightarrow> tx_op \<Rightarrow> engine \<Rightarrow> engine option" where
  "apply_op env (TPut key value) e = engine_put env key value e"
| "apply_op env (TDelete key) e = Some (engine_delete env key e)"

primrec apply_many :: "('o \<Rightarrow> 'e \<Rightarrow> 'e option) \<Rightarrow> 'o list \<Rightarrow> 'e \<Rightarrow> 'e option" where
  "apply_many f [] e = Some e"
| "apply_many f (op # ops) e = Option.bind (f op e) (apply_many f ops)"

definition apply_ops :: "platform \<Rightarrow> tx_op list \<Rightarrow> engine \<Rightarrow> engine option" where
  "apply_ops env ops e = apply_many (apply_op env) ops e"

text \<open>
  The three critical sections of \<^verbatim>\<open>commit_tx\<close>: removing the session under the table lock,
  checking under the read lock, applying under the write lock. A commit that nothing interrupts
  runs them in a row.
\<close>

definition commit_take :: "nat \<Rightarrow> ump_handler \<Rightarrow> (commit_error + tx_session) \<times> ump_handler" where
  "commit_take txid h =
     (let (found, m) = sm_remove txid (uh_tx_mgr h)
      in (case found of None \<Rightarrow> Inl (Tx_Not_Found txid) | Some s \<Rightarrow> Inr s, h\<lparr>uh_tx_mgr := m\<rparr>))"

definition commit_check :: "tx_session \<Rightarrow> ump_handler \<Rightarrow> commit_error option" where
  "commit_check s h = (case conflicts s (uh_engine h) of [] \<Rightarrow> None | key # _ \<Rightarrow> Some (Conflict_On key))"

definition commit_apply :: "platform \<Rightarrow> tx_session \<Rightarrow> ump_handler \<Rightarrow> (nat \<times> ump_handler) option" where
  "commit_apply env s h =
     map_option (\<lambda>e. (length (ts_write_buffer s), h\<lparr>uh_engine := e\<rparr>))
       (apply_ops env (ts_write_buffer s) (uh_engine h))"

definition commit_tx :: "platform \<Rightarrow> nat \<Rightarrow> ump_handler \<Rightarrow> ((commit_error + nat) \<times> ump_handler) option" where
  "commit_tx env txid h =
     (case commit_take txid h of
        (Inl err, h1) \<Rightarrow> Some (Inl err, h1)
      | (Inr s, h1) \<Rightarrow>
          (case commit_check s h1 of
             Some err \<Rightarrow> Some (Inl err, h1)
           | None \<Rightarrow> map_option (\<lambda>(n, h2). (Inr n, h2)) (commit_apply env s h1)))"

definition rollback_tx :: "nat \<Rightarrow> ump_handler \<Rightarrow> bool \<times> ump_handler" where
  "rollback_tx txid h =
     (let (found, m) = sm_remove txid (uh_tx_mgr h) in (found \<noteq> None, h\<lparr>uh_tx_mgr := m\<rparr>))"

definition handler_tx_get :: "nat \<Rightarrow> str \<Rightarrow> ump_handler \<Rightarrow> bytes option \<times> ump_handler" where
  "handler_tx_get txid key h =
     (let scoped = scope_key 0 key
      in case sm_get (uh_tx_mgr h) txid of
           Some s \<Rightarrow>
             (fst (session_get scoped s),
              h\<lparr>uh_tx_mgr := sm_update txid (\<lambda>s. snd (session_get scoped s)) (uh_tx_mgr h)\<rparr>)
         | None \<Rightarrow> (let (v, e) = engine_get scoped (uh_engine h) in (v, h\<lparr>uh_engine := e\<rparr>)))"

definition handler_tx_put :: "nat \<Rightarrow> str \<Rightarrow> bytes \<Rightarrow> ump_handler \<Rightarrow> bool \<times> ump_handler" where
  "handler_tx_put txid key value h =
     (let scoped = scope_key 0 key
      in case sm_get (uh_tx_mgr h) txid of
           Some _ \<Rightarrow> (True, h\<lparr>uh_tx_mgr := sm_update txid (session_put scoped value) (uh_tx_mgr h)\<rparr>)
         | None \<Rightarrow> (False, h))"

definition handler_tx_delete :: "nat \<Rightarrow> str \<Rightarrow> ump_handler \<Rightarrow> bool \<times> ump_handler" where
  "handler_tx_delete txid key h =
     (let scoped = scope_key 0 key
      in case sm_get (uh_tx_mgr h) txid of
           Some _ \<Rightarrow> (True, h\<lparr>uh_tx_mgr := sm_update txid (session_delete scoped) (uh_tx_mgr h)\<rparr>)
         | None \<Rightarrow> (False, h))"

text \<open>The messages of the error strings.\<close>

fun commit_error_text :: "commit_error \<Rightarrow> str" where
  "commit_error_text (Tx_Not_Found txid) = ascii ''transaction not found: '' @ decimal txid"
| "commit_error_text (Conflict_On key) = ascii ''serialization conflict on key='' @ utf8_lossy key"

fun engine_error_text :: "engine_error \<Rightarrow> str" where
  "engine_error_text (Snapshot_Not_Found name) = ascii ''snapshot not found: '' @ name"
| "engine_error_text (Source_Snapshot_Not_Found name) = ascii ''source snapshot not found: '' @ name"
| "engine_error_text (Branch_Not_Found name) = ascii ''branch not found: '' @ name"

section \<open>Record handlers\<close>

type_synonym 'op step = "('op response \<times> ump_handler) option"

definition handle_put :: "platform \<Rightarrow> 'op opcodes \<Rightarrow> str \<Rightarrow> bytes \<Rightarrow> ump_handler \<Rightarrow> 'op step" where
  "handle_put env ops key value h =
     map_option (\<lambda>e. (result_end_response ops 1 0, h\<lparr>uh_engine := e\<rparr>))
       (engine_put env (scope_key 0 key) value (uh_engine h))"

definition handle_get :: "'op opcodes \<Rightarrow> str \<Rightarrow> ump_handler \<Rightarrow> 'op response \<times> ump_handler" where
  "handle_get ops key h =
     (let (found, e) = engine_get (scope_key 0 key) (uh_engine h)
      in (case found of
            Some value \<Rightarrow> Single (OP_RESULT_ROW ops) (row_payload key value 0 0)
          | None \<Rightarrow> error_response ops 0x40 (ascii ''key not found: '' @ key),
          h\<lparr>uh_engine := e\<rparr>))"

definition handle_delete :: "platform \<Rightarrow> 'op opcodes \<Rightarrow> str \<Rightarrow> ump_handler \<Rightarrow> 'op response \<times> ump_handler" where
  "handle_delete env ops key h =
     (result_end_response ops 1 0, h\<lparr>uh_engine := engine_delete env (scope_key 0 key) (uh_engine h)\<rparr>)"

definition handle_scan :: "'op opcodes \<Rightarrow> str \<Rightarrow> str \<Rightarrow> u32 \<Rightarrow> ump_handler \<Rightarrow> 'op step" where
  "handle_scan ops start endk limit h =
     map_option (\<lambda>results.
         let truncated = take (unat limit) results; n = of_nat (length truncated) :: u32
         in (result_stream ops n n
               (map (\<lambda>(i, key, value). row_payload (display_key key) value 0 i) (enumerate 0 truncated)), h))
       (engine_scan (scope_key 0 start) (scope_key 0 endk) (uh_engine h))"

definition handle_put_batch ::
  "platform \<Rightarrow> 'op opcodes \<Rightarrow> (str \<times> bytes) list \<Rightarrow> ump_handler \<Rightarrow> 'op step" where
  "handle_put_batch env ops records h =
     (let scoped = map (\<lambda>(key, value). (scope_key 0 key, value)) records
      in map_option (\<lambda>e. (result_end_response ops (of_nat (length records)) 0, h\<lparr>uh_engine := e\<rparr>))
           (engine_put_batch env scoped (uh_engine h)))"

definition handle_range_delete ::
  "platform \<Rightarrow> 'op opcodes \<Rightarrow> str \<Rightarrow> str \<Rightarrow> ump_handler \<Rightarrow> 'op step" where
  "handle_range_delete env ops start endk h =
     map_option (\<lambda>results.
         let keys = map fst results
         in (result_end_response ops (of_nat (length keys)) 0,
             h\<lparr>uh_engine := fold (engine_delete env) keys (uh_engine h)\<rparr>))
       (engine_scan (scope_key 0 start) (scope_key 0 endk) (uh_engine h))"

text \<open>The loop of a batch read: the rows, the number of non-empty values, the engine after the reads.\<close>

fun get_rows :: "nat \<Rightarrow> str list \<Rightarrow> engine \<Rightarrow> bytes list \<times> u32 \<times> engine" where
  "get_rows i [] e = ([], 0, e)"
| "get_rows i (key # keys) e =
     (let (found, e1) = engine_get (scope_key 0 key) e;
          value = (case found of Some v \<Rightarrow> v | None \<Rightarrow> []);
          (rows, n, e2) = get_rows (i + 1) keys e1
      in (row_payload key value 0 i # rows, (if value \<noteq> [] then 1 else 0) + n, e2))"

definition handle_get_batch :: "'op opcodes \<Rightarrow> str list \<Rightarrow> ump_handler \<Rightarrow> 'op response \<times> ump_handler" where
  "handle_get_batch ops keys h =
     (let (rows, found, e) = get_rows 0 keys (uh_engine h)
      in (result_stream ops (of_nat (length keys)) found rows, h\<lparr>uh_engine := e\<rparr>))"

definition handle_stats :: "'op opcodes \<Rightarrow> ump_handler \<Rightarrow> 'op response \<times> ump_handler" where
  "handle_stats ops h =
     (let e = uh_engine h
      in (Single (OP_RESULT_END ops) (enc
            [string_field (ascii ''memtable_len''), u32_field (of_nat (memtable_len (en_memtable e))),
             string_field (ascii ''memtable_bytes''), u32_field (of_nat (mt_size_bytes (en_memtable e))),
             string_field (ascii ''flush_count''), u64_field (of_nat (en_flush_count e)),
             string_field (ascii ''compaction_count''), u64_field (cm_compaction_count (engine_cm e)),
             string_field (ascii ''total_puts''), u64_field (en_total_puts e),
             string_field (ascii ''total_gets''), u64_field (en_total_gets e),
             string_field (ascii ''total_deletes''), u64_field (en_total_deletes e)]), h))"

definition handle_compact :: "platform \<Rightarrow> 'op opcodes \<Rightarrow> ump_handler \<Rightarrow> 'op response \<times> ump_handler" where
  "handle_compact env ops h =
     (result_end_response ops 0 0, h\<lparr>uh_engine := engine_flush env (uh_engine h)\<rparr>)"

section \<open>Transaction handlers\<close>

definition handle_tx_begin :: "'op opcodes \<Rightarrow> u8 \<Rightarrow> ump_handler \<Rightarrow> 'op response \<times> ump_handler" where
  "handle_tx_begin ops isolation_byte h =
     (let (txid, h1) = begin_tx isolation_byte h
      in (Single (OP_RESULT_END ops) (enc [u64_field (of_nat txid)]), h1))"

definition handle_tx_commit :: "platform \<Rightarrow> 'op opcodes \<Rightarrow> u64 \<Rightarrow> ump_handler \<Rightarrow> 'op step" where
  "handle_tx_commit env ops txid h =
     map_option (\<lambda>(r, h1).
         (case r of
            Inr n \<Rightarrow> result_end_response ops (of_nat n) 0
          | Inl err \<Rightarrow> error_response ops 0x61 (commit_error_text err), h1))
       (commit_tx env (unat txid) h)"

definition handle_tx_rollback :: "'op opcodes \<Rightarrow> u64 \<Rightarrow> ump_handler \<Rightarrow> 'op response \<times> ump_handler" where
  "handle_tx_rollback ops txid h =
     (let (ok, h1) = rollback_tx (unat txid) h
      in (if ok then result_end_response ops 0 0
          else error_response ops 0x60 (ascii ''transaction not found: '' @ decimal (unat txid)), h1))"

definition handle_tx_status :: "'op opcodes \<Rightarrow> u64 \<Rightarrow> ump_handler \<Rightarrow> 'op response \<times> ump_handler" where
  "handle_tx_status ops txid h =
     (let status = (if sm_exists (uh_tx_mgr h) (unat txid) then ascii ''active'' else ascii ''unknown'')
      in (Single (OP_RESULT_END ops) (enc [u64_field txid, string_field status]), h))"

section \<open>Snapshot and branch handlers\<close>

definition handle_snap_create :: "'op opcodes \<Rightarrow> str \<Rightarrow> ump_handler \<Rightarrow> 'op response \<times> ump_handler" where
  "handle_snap_create ops description h =
     (let (sid, e) = snapshot_create description (uh_engine h)
      in (Single (OP_RESULT_END ops) (enc [string_field sid]), h\<lparr>uh_engine := e\<rparr>))"

definition handle_snap_restore :: "'op opcodes \<Rightarrow> str \<Rightarrow> ump_handler \<Rightarrow> 'op response \<times> ump_handler" where
  "handle_snap_restore ops snapshot_id h =
     (case snapshot_restore snapshot_id (uh_engine h) of
        Inr e \<Rightarrow> (result_end_response ops 1 0, h\<lparr>uh_engine := e\<rparr>)
      | Inl err \<Rightarrow> (error_response ops 0x82 (engine_error_text err), h))"

definition handle_snap_delete :: "'op opcodes \<Rightarrow> str \<Rightarrow> ump_handler \<Rightarrow> 'op response \<times> ump_handler" where
  "handle_snap_delete ops snapshot_id h =
     (let (ok, e) = snapshot_delete snapshot_id (uh_engine h)
      in (if ok then result_end_response ops 1 0
          else error_response ops 0x82 (ascii ''snapshot not found: '' @ snapshot_id), h\<lparr>uh_engine := e\<rparr>))"

definition name_rows :: "'op opcodes \<Rightarrow> str list \<Rightarrow> 'op response" where
  "name_rows ops names =
     (let n = of_nat (length names) :: u32
      in result_stream ops n n
           (map (\<lambda>(i, name). enc [string_field name, u32_field (of_nat i)]) (enumerate 0 names)))"

definition handle_snap_list :: "'op opcodes \<Rightarrow> ump_handler \<Rightarrow> 'op response \<times> ump_handler" where
  "handle_snap_list ops h = (name_rows ops (snapshot_list (uh_engine h)), h)"

definition handle_branch_create :: "'op opcodes \<Rightarrow> str \<Rightarrow> str \<Rightarrow> ump_handler \<Rightarrow> 'op response \<times> ump_handler" where
  "handle_branch_create ops branch_id from_snapshot h =
     (case branch_create branch_id from_snapshot (uh_engine h) of
        Inr (bid, e) \<Rightarrow> (Single (OP_RESULT_END ops) (enc [string_field bid]), h\<lparr>uh_engine := e\<rparr>)
      | Inl err \<Rightarrow> (error_response ops 0x80 (engine_error_text err), h))"

definition handle_branch_merge :: "platform \<Rightarrow> 'op opcodes \<Rightarrow> str \<Rightarrow> ump_handler \<Rightarrow> 'op step" where
  "handle_branch_merge env ops branch_id h =
     map_option (\<lambda>r. case r of
           Inr (n, e) \<Rightarrow> (result_end_response ops (of_nat n) 0, h\<lparr>uh_engine := e\<rparr>)
         | Inl err \<Rightarrow> (error_response ops 0x81 (engine_error_text err), h))
       (branch_merge env branch_id (uh_engine h))"

definition handle_branch_rollback :: "'op opcodes \<Rightarrow> str \<Rightarrow> ump_handler \<Rightarrow> 'op response \<times> ump_handler" where
  "handle_branch_rollback ops branch_id h =
     (let (ok, e) = branch_rollback branch_id (uh_engine h)
      in (if ok then result_end_response ops 1 0
          else error_response ops 0x80 (ascii ''branch not found: '' @ branch_id), h\<lparr>uh_engine := e\<rparr>))"

definition handle_branch_diff :: "'op opcodes \<Rightarrow> str \<Rightarrow> ump_handler \<Rightarrow> 'op response \<times> ump_handler" where
  "handle_branch_diff ops branch_a h =
     (case branch_diff branch_a (uh_engine h) of
        Inr diffs \<Rightarrow>
          (let n = of_nat (length diffs) :: u32; or_empty = (\<lambda>v. case v of Some x \<Rightarrow> x | None \<Rightarrow> [])
           in (result_stream ops n n
                 (map (\<lambda>(i, key, live_val, branch_val).
                     enc [string_field (utf8_lossy key), bytes_field (or_empty live_val),
                          bytes_field (or_empty branch_val), u32_field (of_nat i)]) (enumerate 0 diffs)), h))
      | Inl err \<Rightarrow> (error_response ops 0x80 (engine_error_text err), h))"

definition handle_branch_list :: "'op opcodes \<Rightarrow> ump_handler \<Rightarrow> 'op response \<times> ump_handler" where
  "handle_branch_list ops h = (name_rows ops (snapshot_list (uh_engine h)), h)"

section \<open>Namespace handlers\<close>

definition handle_ns_create ::
  "platform \<Rightarrow> 'op opcodes \<Rightarrow> str \<Rightarrow> str \<Rightarrow> str \<Rightarrow> ump_handler \<Rightarrow> 'op step" where
  "handle_ns_create env ops repo_url commit_sha description h =
     map_option (\<lambda>e. (result_end_response ops 1 0, h\<lparr>uh_engine := e\<rparr>))
       (engine_put env (ascii ''__ns__::'' @ repo_url) (commit_sha @ ascii ''|'' @ description) (uh_engine h))"

definition handle_ns_list :: "'op opcodes \<Rightarrow> ump_handler \<Rightarrow> 'op step" where
  "handle_ns_list ops h =
     map_option (\<lambda>results.
         let n = of_nat (length results) :: u32
         in (result_stream ops n n
               (map (\<lambda>(i, key, value). enc [string_field (utf8_lossy key), bytes_field value, u32_field (of_nat i)])
                 (enumerate 0 results)), h))
       (engine_scan (ascii ''__ns__::'') (ascii ''__ns__::'' @ [0xFF]) (uh_engine h))"

definition handle_ns_open :: "'op opcodes \<Rightarrow> u64 \<Rightarrow> ump_handler \<Rightarrow> 'op response \<times> ump_handler" where
  "handle_ns_open ops namespace_id h = (Single (OP_RESULT_END ops) (enc [u64_field namespace_id]), h)"

definition handle_ns_delete :: "platform \<Rightarrow> 'op opcodes \<Rightarrow> u64 \<Rightarrow> ump_handler \<Rightarrow> 'op step" where
  "handle_ns_delete env ops namespace_id h =
     (let (start, endk) = ns_scan_range namespace_id
      in map_option (\<lambda>results.
           let keys = map fst results
           in (result_end_response ops (of_nat (length keys)) 0,
               h\<lparr>uh_engine := fold (engine_delete env) keys (uh_engine h)\<rparr>))
         (engine_scan start endk (uh_engine h)))"

definition handle_ns_grant :: "'op opcodes \<Rightarrow> ump_handler \<Rightarrow> 'op response \<times> ump_handler" where
  "handle_ns_grant ops h = (result_end_response ops 1 0, h)"

definition handle_workspace_set :: "'op opcodes \<Rightarrow> ump_handler \<Rightarrow> 'op response \<times> ump_handler" where
  "handle_workspace_set ops h = (result_end_response ops 1 0, h)"

definition handle_intent :: "ump_handler \<Rightarrow> 'op response \<times> ump_handler" where
  "handle_intent h = (No_Response, h)"

section \<open>Watches and the rest\<close>

definition handle_watch ::
  "'op opcodes \<Rightarrow> u64 \<Rightarrow> u64 \<Rightarrow> u8 \<Rightarrow> str \<Rightarrow> u32 \<Rightarrow> ump_handler \<Rightarrow> 'op response \<times> ump_handler" where
  "handle_watch ops watch_id namespace_id scp pattern initial_credit h =
     (result_end_response ops 1 0,
      h\<lparr>uh_watches := hm_insert watch_id
           \<lparr>we_namespace_id = namespace_id, we_scope = scp, we_pattern = pattern, we_credit = initial_credit\<rparr>
           (uh_watches h)\<rparr>)"

definition watch_missing :: "'op opcodes \<Rightarrow> u64 \<Rightarrow> 'op response" where
  "watch_missing ops watch_id =
     error_response ops 0x50 (ascii ''watch not found: '' @ decimal (unat watch_id))"

definition handle_unwatch :: "'op opcodes \<Rightarrow> u64 \<Rightarrow> ump_handler \<Rightarrow> 'op response \<times> ump_handler" where
  "handle_unwatch ops watch_id h =
     (if map_of (uh_watches h) watch_id \<noteq> None then result_end_response ops 1 0 else watch_missing ops watch_id,
      h\<lparr>uh_watches := bt_remove watch_id (uh_watches h)\<rparr>)"

text \<open>\<^verbatim>\<open>u32::saturating_add\<close>.\<close>

definition saturating_add :: "u32 \<Rightarrow> u32 \<Rightarrow> u32" where
  "saturating_add a b = (if unat a + unat b \<ge> 2 ^ 32 then - 1 else a + b)"

definition handle_watch_window :: "'op opcodes \<Rightarrow> u64 \<Rightarrow> u32 \<Rightarrow> ump_handler \<Rightarrow> 'op response \<times> ump_handler" where
  "handle_watch_window ops watch_id credit h =
     (case map_of (uh_watches h) watch_id of
        Some entry \<Rightarrow>
          (No_Response,
           h\<lparr>uh_watches := hm_set watch_id
                (entry\<lparr>we_credit := saturating_add (we_credit entry) credit\<rparr>) (uh_watches h)\<rparr>)
      | None \<Rightarrow> (watch_missing ops watch_id, h))"

definition handle_window_update :: "ump_handler \<Rightarrow> 'op response \<times> ump_handler" where
  "handle_window_update h = (No_Response, h)"

text \<open>The clock reading \<open>ts\<close> in nanoseconds is an argument.\<close>

definition handle_auth_rotate_request :: "'op opcodes \<Rightarrow> u64 \<Rightarrow> ump_handler \<Rightarrow> 'op response \<times> ump_handler" where
  "handle_auth_rotate_request ops ts h =
     (let nonce = rev (to_be 8 ts) @ rev (to_be 8 (ts + 1))
      in (Single (OP_AUTH_ROTATE_CHALLENGE ops) (enc [bytes_field nonce]), h))"

definition handle_auth_rotate :: "'op opcodes \<Rightarrow> ump_handler \<Rightarrow> 'op response \<times> ump_handler" where
  "handle_auth_rotate ops h = (Single (OP_AUTH_ROTATE_ACK ops) (enc [u8_field 0]), h)"

definition handle_stream_resume :: "'op opcodes \<Rightarrow> bytes \<Rightarrow> ump_handler \<Rightarrow> 'op response \<times> ump_handler" where
  "handle_stream_resume ops token h =
     (if length token \<noteq> 64 then error_response ops 0x20 (ascii ''invalid checkpoint token length'')
      else (let resumed_at = (if length token \<ge> 36 then from_be (take 4 (drop 32 token)) else 0)
            in Single (OP_RESULT_END ops) (enc [u32_field resumed_at])), h)"

text \<open>The package version is fixed at build time and is an argument.\<close>

definition handle_config_get :: "'op opcodes \<Rightarrow> str \<Rightarrow> str \<Rightarrow> ump_handler \<Rightarrow> 'op response \<times> ump_handler" where
  "handle_config_get ops version key h =
     (let answer = (\<lambda>value. Single (OP_RESULT_END ops) (enc [string_field key, string_field value]))
      in (if key = ascii ''max_connections'' then answer (ascii ''1024'')
          else if key = ascii ''flush_threshold'' then answer (ascii ''4194304'')
          else if key = ascii ''version'' then answer version
          else error_response ops 0x90 (ascii ''unknown config key: '' @ key), h))"

definition handle_config_set :: "'op opcodes \<Rightarrow> ump_handler \<Rightarrow> 'op response \<times> ump_handler" where
  "handle_config_set ops h = (error_response ops 0x91 (ascii ''configuration is read-only''), h)"

definition handle_restore_backup :: "'op opcodes \<Rightarrow> ump_handler \<Rightarrow> 'op response \<times> ump_handler" where
  "handle_restore_backup ops h =
     (error_response ops 0x92
        (ascii ''restore requires server restart: stop server, replace data dir with backup, restart''), h)"

end
