(* ===== verification/Server_Transactions.thy ===== *)
theory Server_Transactions
  imports Server Engine_Run
begin

text \<open>
  Transactions of the server over the engine. A buffered operation changes a map; the locale
  \<open>effect_writer\<close> states what a store that applies such operations promises, and the engine is
  one twice: on the persistent map behind snapshots, and on the live data once the worker has
  caught up. The lemmas show that a serializable transaction that commits without interruption
  reads and writes as if it had run at once at its commit, whatever other clients did meanwhile,
  and that two commits interleaved between their checks and their writes lose an update.
\<close>

section \<open>Stores that apply operations\<close>

locale effect_writer =
  fixes apply_one :: "tx_op \<Rightarrow> 'e \<Rightarrow> 'e option"
    and view :: "'e \<Rightarrow> bytes \<Rightarrow> bytes option"
    and ok :: "'e \<Rightarrow> bool"
    and room :: "'e \<Rightarrow> bool"
  assumes apply_room: "apply_one op e = Some e' \<Longrightarrow> room e' \<Longrightarrow> room e"
    and apply_ok: "ok e \<Longrightarrow> apply_one op e = Some e' \<Longrightarrow> room e' \<Longrightarrow> ok e'"
    and apply_view: "ok e \<Longrightarrow> apply_one op e = Some e' \<Longrightarrow> room e' \<Longrightarrow> view e' = op_effect op (view e)"
begin

lemma many_room: "apply_many apply_one ops e = Some e' \<Longrightarrow> room e' \<Longrightarrow> room e"
  by (induction ops arbitrary: e) (auto simp: bind_eq_Some_conv intro: apply_room)

lemma many_effect:
  "ok e \<Longrightarrow> apply_many apply_one ops e = Some e' \<Longrightarrow> room e' \<Longrightarrow> ok e' \<and> view e' = fold op_effect ops (view e)"
proof (induction ops arbitrary: e)
  case (Cons op ops)
  then obtain e1 where e1: "apply_one op e = Some e1" "apply_many apply_one ops e1 = Some e'"
    by (auto simp: bind_eq_Some_conv)
  have "room e1" using many_room [OF e1(2)] Cons.prems(3) by simp
  with e1(1) Cons.prems(1) have "ok e1" "view e1 = op_effect op (view e)"
    by (auto dest: apply_ok apply_view)
  with Cons.IH [of e1] e1(2) Cons.prems(3) show ?case by simp
qed simp

end

section \<open>The engine as such a store\<close>

lemma bg_worker_submit: "bg_queue c \<noteq> [] \<Longrightarrow> bg_worker deflate (bg_submit p c) = bg_submit p (bg_worker deflate c)"
  by (auto simp: bg_worker_def bg_submit_def Let_def split: list.split)

lemma bg_iterate_submit:
  "n \<le> length (bg_queue c) \<Longrightarrow>
   (bg_worker deflate ^^ n) (bg_submit p c) = bg_submit p ((bg_worker deflate ^^ n) c)"
proof (induction n)
  case (Suc n)
  then have "bg_queue ((bg_worker deflate ^^ n) c) \<noteq> []"
    using bg_iterate [of n c deflate] by simp
  with Suc show ?case by (simp add: bg_worker_submit)
qed simp

lemma bg_drain_submit: "bg_drain deflate (bg_submit p c) = bg_drain deflate (bg_submit p (bg_drain deflate c))"
proof -
  have "length (bg_queue (bg_submit p c)) = Suc (length (bg_queue c))"
    by (simp add: bg_submit_def)
  then have "bg_drain deflate (bg_submit p c) = bg_worker deflate (bg_submit p (bg_drain deflate c))"
    by (simp add: bg_drain_def bg_iterate_submit)
  then show ?thesis
    by (simp add: bg_drain_def [of _ "bg_submit p _"]) (simp add: bg_submit_def bg_drain_state)
qed

lemma catch_up_flush: "catch_up env (flush_memtable env e) = catch_up env (flush_memtable env (catch_up env e))"
  by (simp add: catch_up_def flush_memtable_def Let_def bg_drain_submit [of _ _ "en_compactor e"]
      split: prod.split)

lemma catch_up_sel [simp]:
  "en_memtable (catch_up env e) = en_memtable e" "en_state (catch_up env e) = en_state e"
  "en_flush_count (catch_up env e) = en_flush_count e"
  by (simp_all add: catch_up_def)

lemma wrote_catch_up: "wrote k v e e' \<Longrightarrow> wrote k v (catch_up env e) (catch_up env e')"
  by (simp add: wrote_def catch_up_def)

text \<open>One write seen after the worker caught up: the live map changes at the key.\<close>

lemma written_live:
  assumes ok: "engine_ok (catch_up env e)" and w: "wrote k v e e1"
    and e': "e' = (if memtable_should_flush (en_memtable e1) then flush_memtable env e1 else e1)"
    and room: "en_flush_count e' \<le> 3"
  shows "engine_ok (catch_up env e')" "engine_map (catch_up env e') = (engine_map (catch_up env e))(k := v)"
proof -
  note w' = wrote_catch_up [OF w, of env]
  have ok1: "engine_ok (catch_up env e1)" by (rule wrote_ok [OF ok w'])
  have map1: "engine_map (catch_up env e1) = (engine_map (catch_up env e))(k := v)"
    using wrote_layers(2) [OF _ w'] ok by (simp add: engine_ok_def)
  show "engine_ok (catch_up env e')" "engine_map (catch_up env e') = (engine_map (catch_up env e))(k := v)"
    using ok1 map1 flush_keeps [OF ok1, of env] room
    by (auto simp: e' catch_up_flush [of env e1] flush_memtable_fields)
qed

lemma apply_op_wrote:
  assumes "apply_op env op e = Some e'"
  obtains e1 k v where "wrote k v e e1" "op_effect op = (\<lambda>m. m(k := v))"
    "e' = (if memtable_should_flush (en_memtable e1) then flush_memtable env e1 else e1)"
proof (cases op)
  case (TPut k v)
  have eff: "op_effect op = (\<lambda>m. m(k := Some v))" using TPut by (intro ext) simp
  from assms TPut have "engine_put env k v e = Some e'" by simp
  from engine_put_wrote [OF this] that [OF _ eff] show thesis by blast
next
  case (TDelete k)
  have eff: "op_effect op = (\<lambda>m. m(k := None))" using TDelete by (intro ext) simp
  from assms TDelete have e': "e' = engine_delete env k e" by simp
  from engine_delete_wrote [of k e env] that [OF _ eff] show thesis unfolding e' by blast
qed

interpretation tx_state: effect_writer "apply_op env" "\<lambda>e. hamt_get (en_state e)" "\<lambda>e. hamt_ok (en_state e)" "\<lambda>e. True"
  for env
proof
  fix op e e'
  assume "hamt_ok (en_state e)" "apply_op env op e = Some e'"
  then show "hamt_ok (en_state e')" "hamt_get (en_state e') = op_effect op (hamt_get (en_state e))"
    by (auto elim!: apply_op_wrote simp: wrote_def flush_memtable_fields)
qed simp

interpretation tx_live: effect_writer "apply_op env" "\<lambda>e. engine_map (catch_up env e)"
  "\<lambda>e. engine_ok (catch_up env e)" "\<lambda>e. en_flush_count e \<le> 3"
  for env
proof
  fix op e e'
  assume a: "apply_op env op e = Some e'" and room: "en_flush_count e' \<le> 3"
  obtain e1 k v where w: "wrote k v e e1" "op_effect op = (\<lambda>m. m(k := v))"
    "e' = (if memtable_should_flush (en_memtable e1) then flush_memtable env e1 else e1)"
    using apply_op_wrote [OF a] by blast
  show "en_flush_count e \<le> 3"
    using w room by (auto simp: wrote_def flush_memtable_fields split: if_splits)
  assume "engine_ok (catch_up env e)"
  from written_live [OF this w(1,3) room] w(2)
  show "engine_ok (catch_up env e')" "engine_map (catch_up env e') = op_effect op (engine_map (catch_up env e))"
    by simp_all
qed

lemma apply_ops_state:
  "hamt_ok (en_state e) \<Longrightarrow> apply_ops env ops e = Some e' \<Longrightarrow>
   hamt_ok (en_state e') \<and> hamt_get (en_state e') = fold op_effect ops (hamt_get (en_state e))"
  using tx_state.many_effect [of e env ops e'] by (simp add: apply_ops_def)

lemma apply_ops_live:
  "engine_ok (catch_up env e) \<Longrightarrow> apply_ops env ops e = Some e' \<Longrightarrow> en_flush_count e' \<le> 3 \<Longrightarrow>
   engine_ok (catch_up env e') \<and>
   engine_map (catch_up env e') = fold op_effect ops (engine_map (catch_up env e))"
  using tx_live.many_effect [of env e ops e'] by (simp add: apply_ops_def)

section \<open>Transactions of a client\<close>

text \<open>
  What a client calls within a transaction, and the same calls made at once on a map.
\<close>

datatype tx_call = QGet str | QPut str bytes | QDelete str
datatype tx_out = AValue "bytes option" | AFound bool

fun tx_call_step :: "nat \<Rightarrow> tx_call \<Rightarrow> ump_handler \<Rightarrow> tx_out \<times> ump_handler" where
  "tx_call_step txid (QGet key) h = apfst AValue (handler_tx_get txid key h)"
| "tx_call_step txid (QPut key value) h = apfst AFound (handler_tx_put txid key value h)"
| "tx_call_step txid (QDelete key) h = apfst AFound (handler_tx_delete txid key h)"

fun serial_call :: "tx_call \<Rightarrow> (bytes \<Rightarrow> bytes option) \<Rightarrow> tx_out \<times> (bytes \<Rightarrow> bytes option)" where
  "serial_call (QGet key) m = (AValue (m (scope_key 0 key)), m)"
| "serial_call (QPut key value) m = (AFound True, m(scope_key 0 key \<mapsto> value))"
| "serial_call (QDelete key) m = (AFound True, m(scope_key 0 key := None))"

fun serial_run :: "tx_call list \<Rightarrow> (bytes \<Rightarrow> bytes option) \<Rightarrow> tx_out list \<times> (bytes \<Rightarrow> bytes option)" where
  "serial_run [] m = ([], m)"
| "serial_run (c # cs) m = (let (out, m1) = serial_call c m; (outs, m2) = serial_run cs m1 in (out # outs, m2))"

lemma serial_run_snoc:
  "serial_run (cs @ [c]) m =
     (let (outs, m1) = serial_run cs m; (out, m2) = serial_call c m1 in (outs @ [out], m2))"
  by (induction cs arbitrary: m) (auto simp: Let_def split: prod.split)

text \<open>
  The calls of one transaction with their results, interleaved with anything other clients do:
  they may change the engine and the other transactions in any way, but not this session.
\<close>

inductive tx_trace :: "nat \<Rightarrow> ump_handler \<Rightarrow> (tx_call \<times> tx_out) list \<Rightarrow> ump_handler \<Rightarrow> bool" for txid h where
  start: "tx_trace txid h [] h"
| call: "tx_trace txid h tr h1 \<Longrightarrow> tx_call_step txid c h1 = (out, h2) \<Longrightarrow> tx_trace txid h (tr @ [(c, out)]) h2"
| other: "tx_trace txid h tr h1 \<Longrightarrow> sm_get (uh_tx_mgr h2) txid = sm_get (uh_tx_mgr h1) txid \<Longrightarrow> tx_trace txid h tr h2"

text \<open>
  The session explains the trace on every map that agrees with the snapshot where the session
  read it.
\<close>

definition explains :: "tx_session \<Rightarrow> (tx_call \<times> tx_out) list \<Rightarrow> (bytes \<Rightarrow> bytes option) \<Rightarrow> bool" where
  "explains s tr m = (serial_run (map fst tr) m = (map snd tr, fold op_effect (ts_write_buffer s) m))"

definition agrees :: "tx_session \<Rightarrow> (bytes \<Rightarrow> bytes option) \<Rightarrow> bool" where
  "agrees s m =
     (m = hamt_get (ts_snapshot s) \<or>
      ts_isolation s = TxSerializable \<and> (\<forall>k \<in> set (ts_read_set s). m k = hamt_get (ts_snapshot s) k))"

lemma sm_update_get:
  "sm_get m txid = Some s \<Longrightarrow> sm_get (sm_update txid f m) txid = Some (f s)"
  by (force simp: sm_get_def sm_update_def map_of_hm_set dest: map_of_SomeD)

lemma buffer_effect: "fold op_effect ops m key = resolve (buffer_lookup (rev ops) key) (m key)"
  by (simp add: buffer_lookup_effect)

lemma session_get_agrees:
  assumes "agrees (snd (session_get k s)) m"
  shows "agrees s m" "fst (session_get k s) = fold op_effect (ts_write_buffer s) m k"
    "ts_write_buffer (snd (session_get k s)) = ts_write_buffer s"
    "ts_isolation (snd (session_get k s)) = ts_isolation s" "ts_snapshot (snd (session_get k s)) = ts_snapshot s"
  using assms unfolding buffer_effect
  by (auto simp: session_get_def agrees_def Let_def resolve_def split: option.splits if_splits)

lemma trace_explained:
  assumes "tx_trace txid h tr h1" "sm_get (uh_tx_mgr h) txid = Some (session_new txid isol snap ts)"
  shows "\<exists>s. sm_get (uh_tx_mgr h1) txid = Some s \<and> ts_isolation s = isol \<and> ts_snapshot s = snap \<and>
    (\<forall>m. agrees s m \<longrightarrow> explains s tr m)"
  using assms
proof induction
  case start
  then show ?case by (simp add: session_new_def explains_def)
next
  case (call tr h1 c out h2)
  then obtain s where s: "sm_get (uh_tx_mgr h1) txid = Some s" "ts_isolation s = isol" "ts_snapshot s = snap"
    "\<And>m. agrees s m \<Longrightarrow> explains s tr m" by blast
  show ?case
  proof (cases c)
    case (QGet key)
    let ?s = "snd (session_get (scope_key 0 key) s)"
    have h2: "sm_get (uh_tx_mgr h2) txid = Some ?s" "out = AValue (fst (session_get (scope_key 0 key) s))"
      using call(2) s(1) QGet by (auto simp: handler_tx_get_def sm_update_get Let_def)
    have "explains ?s (tr @ [(c, out)]) m" if "agrees ?s m" for m
      using s(4) [OF session_get_agrees(1) [OF that]] session_get_agrees(2,3) [OF that] h2(2) QGet
      by (simp add: explains_def serial_run_snoc)
    moreover have "ts_isolation ?s = isol" "ts_snapshot ?s = snap"
      using s(2,3) by (auto simp: session_get_def Let_def split: option.split)
    ultimately show ?thesis using h2(1) by blast
  next
    case (QPut key v)
    with call(2) s show ?thesis
      by (auto simp: Let_def handler_tx_put_def sm_update_get session_put_def explains_def agrees_def serial_run_snoc)
  next
    case (QDelete key)
    with call(2) s show ?thesis
      by (auto simp: Let_def handler_tx_delete_def sm_update_get session_delete_def explains_def agrees_def serial_run_snoc)
  qed
next
  case (other tr h1 h2)
  then show ?case by simp
qed

lemma begin_tx_session:
  assumes "begin_tx b h0 = (txid, h)"
  shows "sm_get (uh_tx_mgr h) txid =
    Some (session_new txid (isolation_from_byte b) (en_state (uh_engine h0)) (sm_next_ts (uh_tx_mgr h0)))"
  using assms by (auto simp: begin_tx_def sm_begin_def sm_get_def Let_def hamt_snapshot_def map_of_hm_insert)

lemma commit_tx_cases:
  assumes "commit_tx env txid h = Some (r, h')" "sm_get (uh_tx_mgr h) txid = Some s"
  shows "sm_get (uh_tx_mgr h') txid = None"
    and "(\<exists>key keys. conflicts s (uh_engine h) = key # keys \<and> r = Inl (Conflict_On key) \<and> uh_engine h' = uh_engine h) \<or>
      conflicts s (uh_engine h) = [] \<and> r = Inr (length (ts_write_buffer s)) \<and>
      apply_ops env (ts_write_buffer s) (uh_engine h) = Some (uh_engine h')"
  using assms
  by (auto simp: commit_tx_def commit_take_def commit_check_def commit_apply_def sm_remove_def sm_get_def
      Let_def map_of_bt_remove split: list.splits option.splits)

section \<open>Properties\<close>

text \<open>
  (C4) Serializable transactions: a transaction that begins serializable, makes any calls while
  other clients change the database and other transactions in any way, and commits without
  interruption, either fails with a key it read that has changed since and leaves the data as
  they are, or succeeds, and then the results of all its calls and the state after it are those
  of running the calls at once on the state at the commit. Either way the transaction is over.
\<close>

theorem serializable_commit_serial:
  assumes "begin_tx 0x03 h0 = (txid, h)" "tx_trace txid h tr h1" "hamt_ok (en_state (uh_engine h1))"
    "commit_tx env txid h1 = Some (r, h2)"
  shows "sm_get (uh_tx_mgr h2) txid = None \<and>
    (case r of
       Inl err \<Rightarrow> uh_engine h2 = uh_engine h1 \<and>
         (\<exists>key. err = Conflict_On key \<and>
            hamt_get (en_state (uh_engine h1)) key \<noteq> hamt_get (en_state (uh_engine h0)) key)
     | Inr n \<Rightarrow> serial_run (map fst tr) (hamt_get (en_state (uh_engine h1))) =
         (map snd tr, hamt_get (en_state (uh_engine h2))))"
proof -
  have "isolation_from_byte 0x03 = TxSerializable" by (simp add: isolation_from_byte_def)
  with trace_explained [OF assms(2) begin_tx_session [OF assms(1)]] obtain s where
    s: "sm_get (uh_tx_mgr h1) txid = Some s" "ts_isolation s = TxSerializable"
      "ts_snapshot s = en_state (uh_engine h0)" "\<And>m. agrees s m \<Longrightarrow> explains s tr m" by auto
  note cases = commit_tx_cases [OF assms(4) s(1)]
  from cases(2) show ?thesis
  proof (elim disjE exE conjE)
    fix key keys
    assume c: "conflicts s (uh_engine h1) = key # keys" "r = Inl (Conflict_On key)" "uh_engine h2 = uh_engine h1"
    then have "key \<in> set (conflicts s (uh_engine h1))" by simp
    with s(2,3) have "hamt_get (en_state (uh_engine h1)) key \<noteq> hamt_get (en_state (uh_engine h0)) key"
      by (simp add: conflicts_def)
    with c cases(1) show ?thesis by simp
  next
    assume c: "conflicts s (uh_engine h1) = []" "r = Inr (length (ts_write_buffer s))"
      "apply_ops env (ts_write_buffer s) (uh_engine h1) = Some (uh_engine h2)"
    from c(1) s(2) have "agrees s (hamt_get (en_state (uh_engine h1)))"
      by (simp add: agrees_def conflicts_def filter_empty_conv)
    from s(4) [OF this] apply_ops_state [OF assms(3) c(3)] c(2) cases(1) show ?thesis
      by (simp add: explains_def)
  qed
qed

text \<open>On an empty database, a transaction puts a key, reads it and commits.\<close>

definition fresh_handler :: ump_handler where
  "fresh_handler = handler_new (fresh_engine 1000)"

definition put_read_trace :: "(tx_call \<times> tx_out) list" where
  "put_read_trace = [(QPut [1] [7], AFound True), (QGet [1], AValue (Some [7]))]"

definition traced_handler :: "u8 \<Rightarrow> ump_handler" where
  "traced_handler b = snd (tx_call_step 1 (QGet [1]) (snd (tx_call_step 1 (QPut [1] [7]) (snd (begin_tx b fresh_handler)))))"

lemma fresh_begin: "begin_tx b fresh_handler = (1, snd (begin_tx b fresh_handler))"
  by (simp add: begin_tx_def fresh_handler_def handler_new_def sm_begin_def sm_new_def Let_def)

lemmas traced_simps = handler_tx_put_def handler_tx_get_def begin_tx_def sm_begin_def sm_new_def handler_new_def
  sm_get_def sm_update_def hm_insert_def hm_set_def bt_remove_def session_new_def session_put_def session_get_def
  fresh_handler_def Let_def

lemma fresh_traced: "tx_trace 1 (snd (begin_tx b fresh_handler)) put_read_trace (traced_handler b)"
proof -
  let ?h = "snd (begin_tx b fresh_handler)" and ?h1 = "\<lambda>h. snd (tx_call_step 1 (QPut [1] [7]) h)"
  have 1: "tx_call_step 1 (QPut [1] [7]) ?h = (AFound True, ?h1 ?h)"
    by (simp add: traced_simps)
  have 2: "tx_call_step 1 (QGet [1]) (?h1 ?h) = (AValue (Some [7]), traced_handler b)"
    by (simp add: traced_handler_def) (simp add: traced_simps)
  from tx_trace.call [OF tx_trace.call [OF tx_trace.start 1] 2] show ?thesis
    by (simp add: put_read_trace_def)
qed

lemma engine_put_None: "engine_put env k v e = None \<longleftrightarrow> hamt_put k v (en_state e) = None"
  by (cases "memtable_put k v (en_memtable e)") (simp add: engine_put_def Let_def)

lemma empty_put_returns: "en_state e = hamt_new \<Longrightarrow> \<exists>e'. engine_put env k v e = Some e'"
  using hamt_put_returns [OF hamt_ok_new(1), of k v] engine_put_None [of env k v e]
  by (auto simp: hamt_iter_def hamt_new_def)

lemma fresh_put_returns: "\<exists>e. engine_put env k v (fresh_engine threshold) = Some e"
  by (rule empty_put_returns) (simp add: fresh_engine_def)

lemma traced_commit: "\<exists>h2. commit_tx env 1 (traced_handler b) = Some (Inr 1, h2)"
proof -
  let ?s = "\<lparr>ts_tx_id = 1, ts_isolation = isolation_from_byte b, ts_snapshot = hamt_new,
    ts_write_buffer = [TPut (scope_key 0 [1]) [7]], ts_read_set = [], ts_begin_ts = 1\<rparr>"
  have s: "sm_remove 1 (uh_tx_mgr (traced_handler b)) = (Some ?s, sm_new\<lparr>sm_next_id := 2, sm_next_ts := 2\<rparr>)"
    and e: "uh_engine (traced_handler b) = fresh_engine 1000"
    by (simp_all add: traced_handler_def traced_simps sm_remove_def hamt_snapshot_def fresh_engine_def)
  have "conflicts ?s e = []" for e by (simp add: conflicts_def)
  with s e fresh_put_returns [of env "scope_key 0 [1]" "[7]" 1000] show ?thesis
    by (auto simp: commit_tx_def commit_take_def commit_check_def commit_apply_def apply_ops_def)
qed

lemma traced_state: "en_state (uh_engine (traced_handler b)) = hamt_new"
  by (simp add: traced_handler_def traced_simps fresh_engine_def)

theorem serializable_commit_serial_witness:
  "\<exists>h2. commit_tx plain_env 1 (traced_handler 3) = Some (Inr 1, h2) \<and>
     serial_run [QPut [1] [7], QGet [1]] (hamt_get hamt_new) =
       ([AFound True, AValue (Some [7])], hamt_get (en_state (uh_engine h2)))"
proof -
  obtain h2 where h2: "commit_tx plain_env 1 (traced_handler 3) = Some (Inr 1, h2)"
    using traced_commit by blast
  have "hamt_ok (en_state (uh_engine (traced_handler 3)))" by (simp add: traced_state)
  from serializable_commit_serial [OF fresh_begin fresh_traced this h2] h2 show ?thesis
    by (simp add: put_read_trace_def traced_state) (metis fun_upd_same)
qed

text \<open>
  Other isolation levels: the calls of the transaction return what they would on the state
  at its begin, the commit never fails for a conflict, and its writes are applied in order to
  the state at the commit.
\<close>

theorem snapshot_commit_reads_begin:
  assumes "begin_tx b h0 = (txid, h)" "isolation_from_byte b \<noteq> TxSerializable" "tx_trace txid h tr h1"
    "hamt_ok (en_state (uh_engine h1))" "commit_tx env txid h1 = Some (r, h2)"
  shows "\<exists>ops. r = Inr (length ops) \<and>
    serial_run (map fst tr) (hamt_get (en_state (uh_engine h0))) =
      (map snd tr, fold op_effect ops (hamt_get (en_state (uh_engine h0)))) \<and>
    hamt_get (en_state (uh_engine h2)) = fold op_effect ops (hamt_get (en_state (uh_engine h1)))"
proof -
  from trace_explained [OF assms(3) begin_tx_session [OF assms(1)]] assms(2) obtain s where
    s: "sm_get (uh_tx_mgr h1) txid = Some s" "ts_isolation s \<noteq> TxSerializable"
      "ts_snapshot s = en_state (uh_engine h0)" "\<And>m. agrees s m \<Longrightarrow> explains s tr m" by auto
  from s(2,3) have "agrees s (hamt_get (en_state (uh_engine h0)))" by (simp add: agrees_def)
  from s(4) [OF this] commit_tx_cases(2) [OF assms(5) s(1)] s(2) apply_ops_state [OF assms(4), of env "ts_write_buffer s"]
  show ?thesis by (intro exI [of _ "ts_write_buffer s"]) (auto simp: conflicts_def explains_def)
qed

theorem snapshot_commit_reads_begin_witness:
  "\<exists>h2 ops. commit_tx plain_env 1 (traced_handler 2) = Some (Inr 1, h2) \<and> length ops = 1 \<and>
     serial_run [QPut [1] [7], QGet [1]] (hamt_get hamt_new) =
       ([AFound True, AValue (Some [7])], fold op_effect ops (hamt_get hamt_new)) \<and>
     hamt_get (en_state (uh_engine h2)) = fold op_effect ops (hamt_get hamt_new)"
proof -
  obtain h2 where h2: "commit_tx plain_env 1 (traced_handler 2) = Some (Inr 1, h2)"
    using traced_commit by blast
  have iso: "isolation_from_byte 2 \<noteq> TxSerializable" by (simp add: isolation_from_byte_def)
  have ok: "hamt_ok (en_state (uh_engine (traced_handler 2)))" by (simp add: traced_state)
  have "en_state (uh_engine fresh_handler) = hamt_new"
    by (simp add: fresh_handler_def handler_new_def fresh_engine_def)
  with snapshot_commit_reads_begin [OF fresh_begin iso fresh_traced ok h2] h2 show ?thesis
    by (auto simp: put_read_trace_def traced_state)
qed

text \<open>
  (C35) The check and the writes of a commit are separate critical sections. When the checks of two
  serializable transactions both run before either applies its writes, both commit: the second
  overwrites the first, although its check would have failed after the first one's writes.
\<close>

theorem concurrent_commits_lose_update:
  assumes "hamt_ok (en_state (uh_engine h))" "commit_check s1 h = None" "commit_check s2 h = None"
    "commit_apply env s1 h = Some (n1, h1)" "commit_apply env s2 h1 = Some (n2, h2)"
    "ts_isolation s2 = TxSerializable" "key \<in> set (ts_read_set s2)"
    "fold op_effect (ts_write_buffer s1) (hamt_get (en_state (uh_engine h))) key \<noteq>
       hamt_get (en_state (uh_engine h)) key"
  shows "commit_check s2 h1 \<noteq> None \<and>
    hamt_get (en_state (uh_engine h2)) =
      fold op_effect (ts_write_buffer s2)
        (fold op_effect (ts_write_buffer s1) (hamt_get (en_state (uh_engine h))))"
proof -
  have a: "apply_ops env (ts_write_buffer s1) (uh_engine h) = Some (uh_engine h1)"
    "apply_ops env (ts_write_buffer s2) (uh_engine h1) = Some (uh_engine h2)"
    using assms(4,5) by (auto simp: commit_apply_def)
  note e1 = apply_ops_state [OF assms(1) a(1)]
  note e2 = apply_ops_state [OF e1 [THEN conjunct1] a(2)]
  have "hamt_get (ts_snapshot s2) key = hamt_get (en_state (uh_engine h)) key"
    using assms(3,6,7) by (auto simp: commit_check_def conflicts_def filter_empty_conv split: list.splits)
  then have "key \<in> set (conflicts s2 (uh_engine h1))"
    using assms(6,7,8) e1 by (simp add: conflicts_def)
  with e1 e2 show ?thesis by (auto simp: commit_check_def split: list.split)
qed

text \<open>Two transactions that read a missing key and each put a value of their own under it.\<close>

definition race_session :: "nat \<Rightarrow> bytes \<Rightarrow> tx_session" where
  "race_session txid v = \<lparr>ts_tx_id = txid, ts_isolation = TxSerializable, ts_snapshot = hamt_new,
     ts_write_buffer = [TPut [1] v], ts_read_set = [[1]], ts_begin_ts = txid\<rparr>"

lemma race_check: "commit_check (race_session txid v) fresh_handler = None"
  by (simp add: commit_check_def conflicts_def race_session_def fresh_handler_def handler_new_def fresh_engine_def)

lemma race_apply:
  "\<exists>h1 h2. commit_apply plain_env (race_session 1 v) fresh_handler = Some (1, h1) \<and>
     commit_apply plain_env (race_session 2 w) h1 = Some (1, h2)"
proof -
  obtain e1 where e1: "engine_put plain_env [1] v (fresh_engine 1000) = Some e1"
    using fresh_put_returns by blast
  then have "hamt_ok (en_state e1)" "hamt_get (en_state e1) = [[1] \<mapsto> v]"
    using apply_ops_state [of "fresh_engine 1000" plain_env "[TPut [1] v]" e1]
    by (simp_all add: apply_ops_def fresh_engine_def fun_eq_iff)
  moreover then have "\<exists>st. hamt_put [1] w (en_state e1) = Some st"
    using hamt_put_returns [of "en_state e1" "[1]" w] hamt_get_iter [of "en_state e1"]
    by (metis fun_upd_apply hamt_iter_distinct map_of_eq_Some_iff option.distinct(1))
  ultimately have "\<exists>e2. engine_put plain_env [1] w e1 = Some e2"
    using engine_put_None [of plain_env "[1]" w e1] by auto
  with e1 show ?thesis
    by (auto simp: commit_apply_def apply_ops_def race_session_def fresh_handler_def handler_new_def)
qed

theorem concurrent_commits_lose_update_witness:
  "\<exists>h1 h2. commit_apply plain_env (race_session 1 [7]) fresh_handler = Some (1, h1) \<and>
     commit_apply plain_env (race_session 2 [8]) h1 = Some (1, h2) \<and>
     commit_check (race_session 2 [8]) h1 \<noteq> None \<and> hamt_get (en_state (uh_engine h2)) [1] = Some [8]"
proof -
  obtain h1 h2 where h: "commit_apply plain_env (race_session 1 [7]) fresh_handler = Some (1, h1)"
    "commit_apply plain_env (race_session 2 [8]) h1 = Some (1, h2)"
    using race_apply by blast
  have st: "en_state (uh_engine fresh_handler) = hamt_new"
    by (simp add: fresh_handler_def handler_new_def fresh_engine_def)
  then have "hamt_ok (en_state (uh_engine fresh_handler))" by simp
  from concurrent_commits_lose_update [OF this race_check race_check h, of "[1]"] st h show ?thesis
    by (auto simp: race_session_def)
qed

end
