(* ===== verification/Server_Records.thy ===== *)
theory Server_Records
  imports Server_Transactions
begin

text \<open>
  The record handlers against an abstract server: a map from the client's keys to values that
  determines every response. The lemmas transfer the engine's specification through the
  key scoping of the handlers.
\<close>

section \<open>Requests\<close>

datatype srv_req =
    RPut str bytes
  | RGet str
  | RDelete str
  | RScan str str u32
  | RPutBatch "(str \<times> bytes) list"
  | RGetBatch "str list"
  | RRangeDelete str str
  | RCompact

fun srv_do :: "platform \<Rightarrow> 'op opcodes \<Rightarrow> srv_req \<Rightarrow> ump_handler \<Rightarrow> 'op step" where
  "srv_do env ops (RPut k v) h = handle_put env ops k v h"
| "srv_do env ops (RGet k) h = Some (handle_get ops k h)"
| "srv_do env ops (RDelete k) h = Some (handle_delete env ops k h)"
| "srv_do env ops (RScan a b n) h = handle_scan ops a b n h"
| "srv_do env ops (RPutBatch kvs) h = handle_put_batch env ops kvs h"
| "srv_do env ops (RGetBatch ks) h = Some (handle_get_batch ops ks h)"
| "srv_do env ops (RRangeDelete a b) h = handle_range_delete env ops a b h"
| "srv_do env ops RCompact h = Some (handle_compact env ops h)"

text \<open>Requests in a row, the worker idle before each.\<close>

definition settle :: "platform \<Rightarrow> ump_handler \<Rightarrow> ump_handler" where
  "settle env h = h\<lparr>uh_engine := catch_up env (uh_engine h)\<rparr>"

primrec srv_run :: "platform \<Rightarrow> 'op opcodes \<Rightarrow> srv_req list \<Rightarrow> ump_handler \<Rightarrow> ('op response list \<times> ump_handler) option" where
  "srv_run env ops [] h = Some ([], h)"
| "srv_run env ops (r # rs) h =
     (case srv_do env ops r h of
        None \<Rightarrow> None
      | Some (resp, h1) \<Rightarrow> map_option (\<lambda>(resps, h'). (resp # resps, h')) (srv_run env ops rs (settle env h1)))"

section \<open>The abstract server\<close>

type_synonym client_map = "str \<Rightarrow> bytes option"

text \<open>The entries of a range, in the order of the keys.\<close>

definition range_of :: "client_map \<Rightarrow> str \<Rightarrow> str \<Rightarrow> (str \<times> bytes) list \<Rightarrow> bool" where
  "range_of m a b xs = (bt_ok xs \<and> (\<forall>k. bt_get xs k = (if a \<le> k \<and> k < b then m k else None)))"

definition or_empty :: "bytes option \<Rightarrow> bytes" where
  "or_empty v = (case v of Some x \<Rightarrow> x | None \<Rightarrow> [])"

fun srv_next :: "srv_req \<Rightarrow> client_map \<Rightarrow> client_map" where
  "srv_next (RPut k v) m = m(k \<mapsto> v)"
| "srv_next (RDelete k) m = m(k := None)"
| "srv_next (RPutBatch kvs) m = m ++ map_of (rev kvs)"
| "srv_next (RRangeDelete a b) m = (\<lambda>k. if a \<le> k \<and> k < b then None else m k)"
| "srv_next _ m = m"

fun srv_answer :: "'op opcodes \<Rightarrow> srv_req \<Rightarrow> client_map \<Rightarrow> 'op response \<Rightarrow> bool" where
  "srv_answer ops (RGet k) m resp =
     (resp = (case m k of
        Some v \<Rightarrow> Single (OP_RESULT_ROW ops) (row_payload k v 0 0)
      | None \<Rightarrow> error_response ops 0x40 (ascii ''key not found: '' @ k)))"
| "srv_answer ops (RScan a b n) m resp =
     (\<exists>xs. range_of m a b xs \<and>
        (let shown = take (unat n) xs; len = of_nat (length shown)
         in resp = result_stream ops len len
              (map (\<lambda>(i, k, v). row_payload (utf8_lossy k) v 0 i) (enumerate 0 shown))))"
| "srv_answer ops (RPutBatch kvs) m resp = (resp = result_end_response ops (of_nat (length kvs)) 0)"
| "srv_answer ops (RGetBatch ks) m resp =
     (resp = result_stream ops (of_nat (length ks)) (of_nat (length (filter (\<lambda>k. or_empty (m k) \<noteq> []) ks)))
        (map (\<lambda>(i, k). row_payload k (or_empty (m k)) 0 i) (enumerate 0 ks)))"
| "srv_answer ops (RRangeDelete a b) m resp =
     (\<exists>xs. range_of m a b xs \<and> resp = result_end_response ops (of_nat (length xs)) 0)"
| "srv_answer ops RCompact m resp = (resp = result_end_response ops 0 0)"
| "srv_answer ops _ m resp = (resp = result_end_response ops 1 0)"

primrec srv_spec :: "'op opcodes \<Rightarrow> srv_req list \<Rightarrow> client_map \<Rightarrow> 'op response list \<Rightarrow> client_map \<Rightarrow> bool" where
  "srv_spec ops [] m resps m' = (resps = [] \<and> m' = m)"
| "srv_spec ops (r # rs) m resps m' =
     (\<exists>resp resps'. resps = resp # resps' \<and> srv_answer ops r m resp \<and> srv_spec ops rs (srv_next r m) resps' m')"

section \<open>Simulation\<close>

definition srv_map :: "ump_handler \<Rightarrow> client_map" where
  "srv_map h k = engine_map (uh_engine h) (scope_key 0 k)"

lemma settle_sel [simp]: "uh_engine (settle env h) = catch_up env (uh_engine h)"
  by (simp add: settle_def)

definition srv_simulates :: "'op opcodes \<Rightarrow> srv_req \<Rightarrow> ump_handler \<Rightarrow> 'op response \<Rightarrow> ump_handler \<Rightarrow> bool" where
  "srv_simulates ops r h resp h' =
     (engine_ok (uh_engine h') \<and> srv_map h' = srv_next r (srv_map h) \<and> srv_answer ops r (srv_map h) resp)"

text \<open>One engine call behind a handler.\<close>

lemma engine_call:
  assumes "engine_ok e" "engine_do env op e = Some (out, e1)" "en_flush_count e1 \<le> 3"
  shows "engine_ok (catch_up env e1)" "engine_map (catch_up env e1) = sp_live (spec_next op (engine_abs e))"
    "spec_out op (engine_abs e) out"
proof -
  have "simulates env op e out (catch_up env e1)"
    using assms by (intro engine_do_simulates) simp_all
  then show "engine_ok (catch_up env e1)" "engine_map (catch_up env e1) = sp_live (spec_next op (engine_abs e))"
    "spec_out op (engine_abs e) out"
    by (simp_all add: simulates_def flip: engine_abs_sel(1))
qed

text \<open>Scanning the scoped range gives the client's range with the prefix on every key.\<close>

definition scoped_entry :: "str \<times> bytes \<Rightarrow> bytes \<times> bytes" where
  "scoped_entry kv = (scope_key 0 (fst kv), snd kv)"

lemma scoped_less [simp]: "scope_key 0 a < scope_key 0 b \<longleftrightarrow> a < b" "scope_key 0 a \<le> scope_key 0 b \<longleftrightarrow> a \<le> b"
  by (simp_all add: scope_key_def)

lemma scoped_inject [simp]: "scope_key 0 a = scope_key 0 b \<longleftrightarrow> a = b"
  by (simp add: scope_key_inject)

lemma map_of_scoped: "map_of (map scoped_entry ys) (scope_key 0 k) = map_of ys k"
  by (induction ys) (auto simp: scoped_entry_def)

lemma scoped_range:
  assumes xs: "bt_ok xs" "\<forall>k. bt_get xs k = (if scope_key 0 a \<le> k \<and> k < scope_key 0 b then engine_map e k else None)"
  shows "\<exists>ys. xs = map scoped_entry ys \<and> range_of (\<lambda>k. engine_map e (scope_key 0 k)) a b ys"
proof -
  let ?ys = "map (\<lambda>(k, v). (drop 8 k, v)) xs"
  have "scope_key 0 (drop 8 k) = k" if "(k, v) \<in> set xs" for k v
  proof -
    have "bt_get xs k \<noteq> None" using that unfolding bt_get_None_iff by (metis fst_conv image_eqI)
    with xs(2) have "scope_key 0 a \<le> k" "k < scope_key 0 b" by (auto split: if_splits)
    then obtain z where "k = to_be 8 (0 :: u64) @ z"
      using between_extensions [of "to_be 8 (0 :: u64)" a k b] by (auto simp: scope_key_def)
    then show ?thesis by (simp add: scope_key_def)
  qed
  then have eq: "xs = map scoped_entry ?ys"
    by (intro nth_equalityI) (auto simp: scoped_entry_def case_prod_unfold dest!: nth_mem, metis prod.collapse)
  then have "bt_ok (map scoped_entry ?ys)" using xs(1) by simp
  then have "bt_ok ?ys" by (simp add: bt_ok_def scoped_entry_def comp_def sorted_wrt_map case_prod_unfold)
  moreover have "bt_get ?ys k = bt_get xs (scope_key 0 k)" for k
    unfolding bt_get_def using map_of_scoped [of ?ys k] by (simp only: eq [symmetric])
  ultimately have "range_of (\<lambda>k. engine_map e (scope_key 0 k)) a b ?ys"
    using xs(2) by (simp add: range_of_def)
  with eq show ?thesis by blast
qed

lemma scan_range:
  assumes "engine_ok (uh_engine h)" "engine_scan (scope_key 0 a) (scope_key 0 b) (uh_engine h) = Some xs"
  shows "\<exists>ys. xs = map scoped_entry ys \<and> range_of (srv_map h) a b ys"
proof -
  let ?e = "uh_engine h"
  have map: "(\<lambda>k. engine_map ?e (scope_key 0 k)) = srv_map h" by (simp add: srv_map_def fun_eq_iff)
  have "scope_key 0 a \<le> scope_key 0 b"
    using assms(2) engine_scan_panics [of "scope_key 0 b" "scope_key 0 a" ?e] by (metis not_less option.distinct(1))
  moreover have "layers_ok ?e" using assms(1) by (simp add: engine_ok_def)
  ultimately show ?thesis
    using engine_scan_reads [of ?e "scope_key 0 a" "scope_key 0 b"] assms(2) scoped_range [of xs a b ?e]
    unfolding map by auto
qed

lemma display_scoped [simp]: "display_key (scope_key 0 k) = utf8_lossy k"
  by (simp add: display_key_def)

lemma enumerate_map: "enumerate n (map f xs) = map (\<lambda>(i, x). (i, f x)) (enumerate n xs)"
  by (induction xs arbitrary: n) simp_all

lemma put_simulates:
  assumes "engine_ok (uh_engine h)" "handle_put env ops k v h = Some (resp, h1)" "en_flush_count (uh_engine h1) \<le> 3"
  shows "srv_simulates ops (RPut k v) h resp (settle env h1)"
proof -
  from assms(2) have "engine_do env (EPut (scope_key 0 k) v) (uh_engine h) = Some (ODone, uh_engine h1)"
    and resp: "resp = result_end_response ops 1 0" by (auto simp: handle_put_def)
  from engine_call [OF assms(1) this(1) assms(3)] resp show ?thesis
    by (simp add: srv_simulates_def srv_map_def spec_update_def fun_eq_iff)
qed

lemma delete_simulates:
  assumes "engine_ok (uh_engine h)" "handle_delete env ops k h = (resp, h1)" "en_flush_count (uh_engine h1) \<le> 3"
  shows "srv_simulates ops (RDelete k) h resp (settle env h1)"
proof -
  from assms(2) have "engine_do env (EDelete (scope_key 0 k)) (uh_engine h) = Some (ODone, uh_engine h1)"
    and resp: "resp = result_end_response ops 1 0" by (auto simp: handle_delete_def)
  from engine_call [OF assms(1) this(1) assms(3)] resp show ?thesis
    by (simp add: srv_simulates_def srv_map_def spec_update_def fun_eq_iff)
qed

lemma put_batch_simulates:
  assumes "engine_ok (uh_engine h)" "handle_put_batch env ops kvs h = Some (resp, h1)"
    "en_flush_count (uh_engine h1) \<le> 3"
  shows "srv_simulates ops (RPutBatch kvs) h resp (settle env h1)"
proof -
  let ?kvs = "map scoped_entry kvs"
  have "map (\<lambda>(key, v). (scope_key 0 key, v)) kvs = ?kvs" by (simp add: scoped_entry_def case_prod_unfold)
  with assms(2) have do: "engine_do env (EPutBatch ?kvs) (uh_engine h) = Some (ODone, uh_engine h1)"
    and resp: "resp = result_end_response ops (of_nat (length kvs)) 0" by (auto simp: handle_put_batch_def)
  have "map_of (rev ?kvs) (scope_key 0 k) = map_of (rev kvs) k" for k
    using map_of_scoped [of "rev kvs" k] by (simp add: rev_map)
  moreover have "sp_live (spec_next (EPutBatch ?kvs) (engine_abs (uh_engine h))) =
      engine_map (uh_engine h) ++ map_of (rev ?kvs)"
    using fold_upd_map_of [of ?kvs "engine_map (uh_engine h)"] by (simp add: spec_update_def)
  ultimately show ?thesis using engine_call [OF assms(1) do assms(3)] resp
    by (simp add: srv_simulates_def srv_map_def map_add_def fun_eq_iff split: option.split)
qed

lemma compact_simulates:
  assumes "engine_ok (uh_engine h)" "handle_compact env ops h = (resp, h1)" "en_flush_count (uh_engine h1) \<le> 3"
  shows "srv_simulates ops RCompact h resp (settle env h1)"
proof -
  from assms(2) have "engine_do env EFlush (uh_engine h) = Some (ODone, uh_engine h1)"
    and resp: "resp = result_end_response ops 0 0" by (auto simp: handle_compact_def)
  from engine_call [OF assms(1) this(1) assms(3)] resp show ?thesis
    by (simp add: srv_simulates_def srv_map_def fun_eq_iff)
qed

lemma get_settles:
  assumes "engine_ok e"
  shows "catch_up env (snd (engine_get k e)) = snd (engine_get k e)"
  using engine_get_keeps(1) [OF assms] by (auto intro: catch_up_idle simp: engine_ok_def)

lemma get_simulates:
  assumes "engine_ok (uh_engine h)" "handle_get ops k h = (resp, h1)"
  shows "srv_simulates ops (RGet k) h resp (settle env h1)"
proof -
  let ?e = "uh_engine h"
  have "fst (engine_get (scope_key 0 k) ?e) = srv_map h k"
    using engine_get_reads assms(1) by (simp add: engine_ok_def srv_map_def)
  with assms(2) have "resp = (case srv_map h k of
        Some v \<Rightarrow> Single (OP_RESULT_ROW ops) (row_payload k v 0 0)
      | None \<Rightarrow> error_response ops 0x40 (ascii ''key not found: '' @ k))"
    and "uh_engine h1 = snd (engine_get (scope_key 0 k) ?e)"
    by (auto simp: handle_get_def split: prod.splits)
  with engine_get_keeps [OF assms(1)] get_settles [OF assms(1)] show ?thesis
    by (simp add: srv_simulates_def srv_map_def fun_eq_iff)
qed

lemma get_rows_reads:
  assumes "engine_ok e" "get_rows i ks e = (rows, n, e')"
  shows "engine_ok e' \<and> engine_map e' = engine_map e \<and>
    n = of_nat (length (filter (\<lambda>k. or_empty (engine_map e (scope_key 0 k)) \<noteq> []) ks)) \<and>
    rows = map (\<lambda>(j, k). row_payload k (or_empty (engine_map e (scope_key 0 k))) 0 j) (enumerate i ks)"
  using assms
proof (induction ks arbitrary: i e rows n)
  case (Cons k ks)
  let ?e1 = "snd (engine_get (scope_key 0 k) e)"
  obtain rows' n' where rec: "get_rows (i + 1) ks ?e1 = (rows', n', e')"
    and rows: "rows = row_payload k (or_empty (fst (engine_get (scope_key 0 k) e))) 0 i # rows'"
      "n = (if or_empty (fst (engine_get (scope_key 0 k) e)) \<noteq> [] then 1 else 0) + n'"
    using Cons.prems(2) by (auto simp: Let_def or_empty_def split: prod.splits)
  have "fst (engine_get (scope_key 0 k) e) = engine_map e (scope_key 0 k)"
    using engine_get_reads Cons.prems(1) by (simp add: engine_ok_def)
  with Cons.IH [OF engine_get_keeps(1) [OF Cons.prems(1)] rec] engine_get_keeps(2) [OF Cons.prems(1)] rows
  show ?case by simp
qed simp

lemma get_batch_simulates:
  assumes "engine_ok (uh_engine h)" "handle_get_batch ops ks h = (resp, h1)"
  shows "srv_simulates ops (RGetBatch ks) h resp (settle env h1)"
proof -
  obtain rows n e where get: "get_rows 0 ks (uh_engine h) = (rows, n, e)" by (metis prod_cases3)
  note r = get_rows_reads [OF assms(1) get]
  have "catch_up env e = e" using r by (auto intro: catch_up_idle simp: engine_ok_def)
  with assms(2) get r show ?thesis
    by (auto simp: handle_get_batch_def srv_simulates_def srv_map_def fun_eq_iff)
qed

lemma scan_simulates:
  assumes "engine_ok (uh_engine h)" "handle_scan ops a b n h = Some (resp, h1)"
  shows "srv_simulates ops (RScan a b n) h resp (settle env h1)"
proof -
  from assms(2) obtain xs where xs: "engine_scan (scope_key 0 a) (scope_key 0 b) (uh_engine h) = Some xs"
    and h1: "h1 = h" by (auto simp: handle_scan_def Let_def)
  from scan_range [OF assms(1) xs] obtain ys where ys: "xs = map scoped_entry ys" "range_of (srv_map h) a b ys"
    by blast
  have "catch_up env (uh_engine h) = uh_engine h" using assms(1) by (simp add: engine_ok_def catch_up_idle)
  moreover have "srv_answer ops (RScan a b n) (srv_map h) resp"
    using assms(2) ys xs
    by (auto simp: handle_scan_def Let_def take_map enumerate_map scoped_entry_def case_prod_unfold comp_def intro!: exI [of _ ys])
  ultimately show ?thesis using assms(1) h1 by (simp add: srv_simulates_def srv_map_def fun_eq_iff)
qed

lemma deletes_apply: "apply_ops env (map TDelete ks) e = Some (fold (engine_delete env) ks e)"
  by (induction ks arbitrary: e) (simp_all add: apply_ops_def)

lemma deletes_effect: "fold op_effect (map TDelete ks) m = (\<lambda>k. if k \<in> set ks then None else m k)"
  by (induction ks arbitrary: m) (auto simp: fun_eq_iff)

lemma range_delete_simulates:
  assumes "engine_ok (uh_engine h)" "handle_range_delete env ops a b h = Some (resp, h1)"
    "en_flush_count (uh_engine h1) \<le> 3"
  shows "srv_simulates ops (RRangeDelete a b) h resp (settle env h1)"
proof -
  from assms(2) obtain xs where xs: "engine_scan (scope_key 0 a) (scope_key 0 b) (uh_engine h) = Some xs"
    and h1: "uh_engine h1 = fold (engine_delete env) (map fst xs) (uh_engine h)"
    and resp: "resp = result_end_response ops (of_nat (length xs)) 0"
    by (auto simp: handle_range_delete_def Let_def)
  from scan_range [OF assms(1) xs] obtain ys where ys: "xs = map scoped_entry ys" "range_of (srv_map h) a b ys"
    by blast
  have idle: "catch_up env (uh_engine h) = uh_engine h" using assms(1) by (simp add: engine_ok_def catch_up_idle)
  have e: "engine_ok (catch_up env (uh_engine h1))"
    "engine_map (catch_up env (uh_engine h1)) = (\<lambda>k. if k \<in> set (map fst xs) then None else engine_map (uh_engine h) k)"
    using apply_ops_live [of env "uh_engine h" "map TDelete (map fst xs)" "uh_engine h1"] assms(1,3) idle
      deletes_apply [of env "map fst xs" "uh_engine h"] h1 deletes_effect [of "map fst xs"] by simp_all
  have keys: "scope_key 0 k \<in> set (map fst xs) \<longleftrightarrow> bt_get ys k \<noteq> None" for k
    using ys(1) by (force simp: scoped_entry_def bt_get_None_iff)
  have "srv_map (settle env h1) k = srv_next (RRangeDelete a b) (srv_map h) k" for k
    using ys(2) e(2) keys [of k] by (auto simp: srv_map_def range_of_def)
  with e(1) resp ys show ?thesis by (auto simp: srv_simulates_def)
qed

lemma srv_do_simulates:
  assumes "engine_ok (uh_engine h)" "srv_do env ops r h = Some (resp, h1)" "en_flush_count (uh_engine h1) \<le> 3"
  shows "srv_simulates ops r h resp (settle env h1)"
  using assms
  by (cases r) (auto intro: put_simulates delete_simulates put_batch_simulates compact_simulates get_simulates
      get_batch_simulates scan_simulates range_delete_simulates)

lemma srv_do_count:
  assumes "srv_do env ops r h = Some (resp, h1)"
  shows "en_flush_count (uh_engine h) \<le> en_flush_count (uh_engine h1)"
proof -
  have del: "en_flush_count e \<le> en_flush_count (engine_delete env k e)" for k e
    using flush_count_mono [of env "EDelete k" e ODone "engine_delete env k e"] by simp
  have dels: "en_flush_count e \<le> en_flush_count (fold (engine_delete env) ks e)" for ks e
    by (induction ks arbitrary: e) (auto intro: le_trans [OF del])
  have get: "engine_get k e = (v, e') \<Longrightarrow> en_flush_count e' = en_flush_count e" for k e v e'
    using engine_get_fields(6) [of k e] by simp
  have rows: "get_rows i ks e = (rs, n, e') \<Longrightarrow> en_flush_count e' = en_flush_count e" for i ks e rs n e'
    by (induction ks arbitrary: i e rs n) (auto simp: Let_def dest: get split: prod.splits)
  show ?thesis
  proof (cases r)
    case (RPut k v)
    with assms flush_count_mono [of env "EPut (scope_key 0 k) v" "uh_engine h" ODone "uh_engine h1"]
    show ?thesis by (auto simp: handle_put_def)
  next
    case (RPutBatch kvs)
    with assms flush_count_mono [of env "EPutBatch (map (\<lambda>(k, v). (scope_key 0 k, v)) kvs)" "uh_engine h" ODone "uh_engine h1"]
    show ?thesis by (auto simp: handle_put_batch_def)
  next
    case RCompact
    with assms flush_count_mono [of env EFlush "uh_engine h" ODone "uh_engine h1"]
    show ?thesis by (auto simp: handle_compact_def)
  next
    case (RGetBatch ks)
    with assms rows show ?thesis by (auto simp: handle_get_batch_def split: prod.splits)
  qed (use assms del dels in \<open>auto simp: handle_get_def handle_delete_def handle_scan_def handle_range_delete_def
         Let_def dest: get split: prod.splits\<close>)
qed

lemma srv_run_count:
  "srv_run env ops rs h = Some (resps, h') \<Longrightarrow> en_flush_count (uh_engine h) \<le> en_flush_count (uh_engine h')"
  by (induction rs arbitrary: h resps) (fastforce split: option.splits dest!: srv_do_count intro: le_trans)+

lemma srv_run_simulates:
  assumes "engine_ok (uh_engine h)" "srv_run env ops rs h = Some (resps, h')" "en_flush_count (uh_engine h') \<le> 3"
  shows "srv_spec ops rs (srv_map h) resps (srv_map h')"
  using assms
proof (induction rs arbitrary: h resps)
  case (Cons r rs)
  then obtain resp h1 resps' where d: "srv_do env ops r h = Some (resp, h1)"
    "srv_run env ops rs (settle env h1) = Some (resps', h')" "resps = resp # resps'"
    by (auto split: option.splits)
  have "en_flush_count (uh_engine h1) \<le> 3"
    using srv_run_count [OF d(2)] Cons.prems(3) by simp
  from srv_do_simulates [OF Cons.prems(1) d(1) this]
  have "engine_ok (uh_engine (settle env h1))" "srv_map (settle env h1) = srv_next r (srv_map h)"
    "srv_answer ops r (srv_map h) resp" by (simp_all only: srv_simulates_def)
  with Cons.IH [OF _ d(2) Cons.prems(3)] d(3) show ?case by auto
qed simp

section \<open>Properties\<close>

text \<open>
  (C3) The server is a map: on a fresh database, for every sequence of put, get, delete, scan,
  batch put, batch get, range delete and compact requests that returns, with the worker idle
  before each request and fewer than four memtable flushes, every response, to the byte of its
  payload, is the one determined by the client's map, which the writes update as they say. In
  particular the keys the engine stores carry a prefix that no response shows.
\<close>

theorem server_refines_map:
  assumes "srv_run env ops rs (handler_new (fresh_engine threshold)) = Some (resps, h')"
    "en_flush_count (uh_engine h') < 4"
  shows "srv_spec ops rs Map.empty resps (srv_map h')"
proof -
  have "srv_map (handler_new (fresh_engine threshold)) = Map.empty"
    using engine_abs_fresh [of threshold]
    by (simp add: srv_map_def handler_new_def fun_eq_iff engine_abs_def empty_store_def)
  with srv_run_simulates [OF _ assms(1)] assms(2) engine_ok_fresh [of threshold] show ?thesis
    by (simp add: handler_new_def)
qed

text \<open>Put, read, delete and read again, with a flush after every write.\<close>

definition demo_reqs :: "srv_req list" where
  "demo_reqs = [RPut [0x61] [7], RGet [0x61], RDelete [0x61], RGet [0x61]]"

definition demo_ops :: "nat opcodes" where
  "demo_ops = \<lparr>OP_ERROR = 0, OP_RESULT_START = 1, OP_RESULT_ROW = 2, OP_RESULT_END = 3,
     OP_AUTH_ROTATE_CHALLENGE = 4, OP_AUTH_ROTATE_ACK = 5\<rparr>"

lemma demo_returns:
  "\<exists>resps h'. srv_run plain_env ops demo_reqs (handler_new (fresh_engine 10)) = Some (resps, h') \<and>
     en_flush_count (uh_engine h') < 4"
proof -
  obtain e1 where e1: "engine_put plain_env (scope_key 0 [0x61]) [7] (fresh_engine 10) = Some e1"
    using fresh_put_returns by blast
  have "en_flush_count e1 \<le> 1"
    using flush_count_step [of plain_env "EPut (scope_key 0 [0x61]) [7]" "fresh_engine 10" ODone e1] e1
    by (simp add: fresh_engine_def)
  moreover have "en_flush_count (engine_delete plain_env k e) \<le> en_flush_count e + 1" for k e
    using flush_count_step [of plain_env "EDelete k" e ODone] by simp
  note this [of "scope_key 0 [0x61]" "catch_up plain_env (snd (engine_get (scope_key 0 [0x61]) (catch_up plain_env e1)))"]
  ultimately show ?thesis
    using e1 by (simp add: demo_reqs_def handle_put_def handle_get_def handle_delete_def handler_new_def settle_def
        engine_get_fields case_prod_unfold Let_def)
qed

theorem server_refines_map_witness:
  "\<exists>h'. srv_run plain_env demo_ops demo_reqs (handler_new (fresh_engine 10)) =
      Some ([result_end_response demo_ops 1 0, Single (OP_RESULT_ROW demo_ops) (row_payload [0x61] [7] 0 0),
        result_end_response demo_ops 1 0, error_response demo_ops 0x40 (ascii ''key not found: a'')], h') \<and>
     srv_map h' [0x61] = None"
proof -
  obtain resps h' where run: "srv_run plain_env demo_ops demo_reqs (handler_new (fresh_engine 10)) = Some (resps, h')"
    "en_flush_count (uh_engine h') < 4" using demo_returns by blast
  from server_refines_map [OF run] run(1) show ?thesis
    by (auto simp: demo_reqs_def ascii_def)
qed



text \<open>Fields as the handlers build them: fixed widths, and strings shorter than 4 GiB.\<close>

definition field_ok :: "u8 \<times> bytes \<Rightarrow> bool" where
  "field_ok fd =
     (case fd of (tag, data) \<Rightarrow>
        tag = TAG_U8 \<and> length data = 1 \<or> tag = TAG_U32 \<and> length data = 4 \<or>
        (tag = TAG_U64 \<or> tag = TAG_F64) \<and> length data = 8 \<or>
        (tag = TAG_BYTES \<or> tag = TAG_STRING) \<and> length data < 2 ^ 32)"

lemma enc_field_cases:
  assumes "field_ok (tag, data)"
  shows "enc_field (tag, data) =
    tag # (if tag = TAG_BYTES \<or> tag = TAG_STRING then to_be 4 (of_nat (length data) :: u32) @ data else data)"
    and "tag \<noteq> TAG_END"
  using assms by (auto simp: field_ok_def enc_field_def tag_defs length_Suc_conv)

lemma enc_field_inject:
  assumes "field_ok f" "field_ok g" "enc_field f @ x = enc_field g @ y"
  shows "f = g" "x = y"
proof -
  obtain t d t' d' where f: "f = (t, d)" "g = (t', d')" by (metis surj_pair)
  note e = enc_field_cases [OF assms(1) [unfolded f(1)]] enc_field_cases [OF assms(2) [unfolded f(2)]]
  from assms(3) have t: "t = t'"
    and body: "(if t = TAG_BYTES \<or> t = TAG_STRING then to_be 4 (of_nat (length d) :: u32) @ d else d) @ x =
      (if t' = TAG_BYTES \<or> t' = TAG_STRING then to_be 4 (of_nat (length d') :: u32) @ d' else d') @ y"
    unfolding f e(1,3) by auto
  have "d = d' \<and> x = y"
  proof (cases "t = TAG_BYTES \<or> t = TAG_STRING")
    case True
    then have len: "length d < 2 ^ 32" "length d' < 2 ^ 32"
      using assms(1,2) f t by (auto simp: field_ok_def tag_defs)
    from True body t have "to_be 4 (of_nat (length d) :: u32) @ d @ x = to_be 4 (of_nat (length d') :: u32) @ d' @ y"
      by simp
    then have eq: "to_be 4 (of_nat (length d) :: u32) = to_be 4 (of_nat (length d') :: u32)" "d @ x = d' @ y"
      using append_eq_append_conv [of "to_be 4 (of_nat (length d) :: u32)" "to_be 4 (of_nat (length d') :: u32)" "d @ x" "d' @ y"]
      unfolding length_to_be by blast+
    have "from_be (to_be 4 (of_nat (length d) :: u32)) = (from_be (to_be 4 (of_nat (length d') :: u32)) :: u32)"
      by (simp only: eq(1))
    then have "(of_nat (length d) :: u32) = of_nat (length d')" by simp
    then have "unat (of_nat (length d) :: u32) = unat (of_nat (length d') :: u32)" by (rule arg_cong)
    with len have "length d = length d'" by (simp add: unat_of_nat)
    with eq(2) show ?thesis by simp
  next
    case False
    with body t have "d @ x = d' @ y" by simp
    moreover have "length d = length d'"
      using False assms(1,2) t by (auto simp: f field_ok_def tag_defs)
    ultimately show ?thesis by simp
  qed
  with f t show "f = g" "x = y" by simp_all
qed

lemma enc_Nil_Cons:
  assumes "field_ok g"
  shows "enc [] @ x \<noteq> enc (g # gs) @ y" "enc (g # gs) @ y \<noteq> enc [] @ x"
proof -
  obtain t d where g: "g = (t, d)" by fastforce
  note e = enc_field_cases [OF assms [unfolded g]]
  show "enc [] @ x \<noteq> enc (g # gs) @ y" "enc (g # gs) @ y \<noteq> enc [] @ x"
    unfolding g enc_def list.map concat.simps e(1) using e(2) by simp_all
qed

text \<open>
  Payloads are unambiguous: a payload followed by anything determines its fields and where it
  ends, so no two responses share their bytes.
\<close>

theorem enc_prefix_free:
  assumes "list_all field_ok fs" "list_all field_ok gs" "enc fs @ x = enc gs @ y"
  shows "fs = gs \<and> x = y"
  using assms
proof (induction fs arbitrary: gs)
  case Nil
  then show ?case using enc_Nil_Cons(1) by (cases gs) (simp, force)
next
  case (Cons f fs)
  obtain g gs' where gs: "gs = g # gs'"
    using Cons.prems enc_Nil_Cons(2) [of f fs x y] by (cases gs) simp_all
  with Cons.prems have "enc_field f @ enc fs @ x = enc_field g @ enc gs' @ y" by (simp add: enc_def)
  with enc_field_inject [OF _ _ this] Cons.prems Cons.IH [of gs'] gs show ?case by simp
qed

theorem enc_prefix_free_witness:
  "list_all field_ok [u32_field 1, string_field [0x61]] \<and> enc [u32_field 1, string_field [0x61]] @ [9] \<noteq> enc [u32_field 1] @ [9]"
  using enc_prefix_free [of "[u32_field 1, string_field [0x61]]" "[u32_field 1]" "[9]" "[9]"]
  by (auto simp: field_ok_def u32_field_def string_field_def tag_defs)

end
