(* ===== verification/Server_Queries.thy ===== *)
theory Server_Queries
  imports Server_Records Index_Query
begin

text \<open>
  The query handlers of \<^verbatim>\<open>src/server.rs\<close>, with its statistics of the indices and its backup. Scores are
  the bits of floating-point numbers. The lemmas show that the keyword index mirrors the live records
  after any requests, and what a keyword query answers.
\<close>

section \<open>Definitions\<close>

definition engine_query :: "'f query_env \<Rightarrow> u32 query_spec \<Rightarrow> engine \<Rightarrow> ('f ranked_hit list \<times> engine) option" where
  "engine_query qe spec e =
     map_option (\<lambda>(hits, im). (hits, e\<lparr>en_indices := im\<rparr>)) (index_query qe spec (en_indices e))"

text \<open>One row per hit, with the value the engine reads for its key.\<close>

fun hit_rows :: "(bytes \<Rightarrow> str) \<Rightarrow> u64 ranked_hit list \<Rightarrow> engine \<Rightarrow> bytes list \<times> engine" where
  "hit_rows display [] e = ([], e)"
| "hit_rows display (hit # hits) e =
     (let (found, e1) = engine_get (rh_key hit) e;
          value = (case found of Some v \<Rightarrow> v | None \<Rightarrow> []);
          (rows, e2) = hit_rows display hits e1
      in (row_payload (display (rh_key hit)) value (rh_score hit) (rh_rank hit) # rows, e2))"

definition hits_response ::
  "'op opcodes \<Rightarrow> (bytes \<Rightarrow> str) \<Rightarrow> u64 ranked_hit list \<Rightarrow> engine \<Rightarrow> 'op response \<times> engine" where
  "hits_response ops display hits e =
     (let (rows, e1) = hit_rows display hits e; n = of_nat (length hits) in (result_stream ops n n rows, e1))"

definition build_query_response :: "'op opcodes \<Rightarrow> u64 ranked_hit list \<Rightarrow> engine \<Rightarrow> 'op response \<times> engine" where
  "build_query_response ops hits e = hits_response ops display_key hits e"

record query_msg =
  qm_namespace :: str
  qm_text :: str
  qm_vector :: "u32 list"
  qm_top_k :: u32
  qm_max_depth :: u32
  qm_relations :: "str list"
  qm_lang_filter :: "str list"
  qm_type_filter :: "str list"
  qm_file_filter :: "str list"
  qm_merge_strategy :: u8
  qm_timeout_ms :: u32

definition query_ns :: "str \<Rightarrow> u64 option" where
  "query_ns ns = (case parse_usize ns of None \<Rightarrow> None | Some n \<Rightarrow> if n \<noteq> 0 then Some (of_nat n) else None)"

definition handle_query :: "u64 query_env \<Rightarrow> 'op opcodes \<Rightarrow> query_msg \<Rightarrow> ump_handler \<Rightarrow> 'op step" where
  "handle_query qe ops msg h =
     (let spec = \<lparr>qs_text = qm_text msg, qs_vector = qm_vector msg, qs_top_k = unat (qm_top_k msg),
                  qs_max_depth = unat (qm_max_depth msg), qs_relations = qm_relations msg,
                  qs_lang_filter = qm_lang_filter msg, qs_type_filter = qm_type_filter msg,
                  qs_file_filter = qm_file_filter msg, qs_merge_strategy = qm_merge_strategy msg,
                  qs_timeout_ms = qm_timeout_ms msg\<rparr>
      in map_option (\<lambda>(all_hits, e).
             let ns = query_ns (qm_namespace msg);
                 hits = (case ns of
                           Some n \<Rightarrow> filter (\<lambda>hit. 16 \<le> length (rh_key hit) \<and> take 8 (drop 8 (rh_key hit)) = to_be 8 n) all_hits
                         | None \<Rightarrow> all_hits);
                 display = (\<lambda>key. if ns \<noteq> None \<and> 16 \<le> length key then utf8_lossy (drop 16 key) else display_key key);
                 (resp, e1) = hits_response ops display hits e
             in (resp, h\<lparr>uh_engine := e1\<rparr>))
           (engine_query qe spec (uh_engine h)))"

text \<open>The other query handlers fill in a default query and show every hit.\<close>

definition query_with :: "u64 query_env \<Rightarrow> 'op opcodes \<Rightarrow> u32 query_spec \<Rightarrow> ump_handler \<Rightarrow> 'op step" where
  "query_with qe ops spec h =
     map_option (\<lambda>(hits, e). let (resp, e1) = build_query_response ops hits e in (resp, h\<lparr>uh_engine := e1\<rparr>))
       (engine_query qe spec (uh_engine h))"

definition handle_query_fuzzy :: "u64 query_env \<Rightarrow> 'op opcodes \<Rightarrow> str \<Rightarrow> u32 \<Rightarrow> ump_handler \<Rightarrow> 'op step" where
  "handle_query_fuzzy qe ops query top_k h =
     query_with qe ops (query_spec_default\<lparr>qs_text := query, qs_top_k := unat top_k\<rparr>) h"

definition handle_query_vector :: "u64 query_env \<Rightarrow> 'op opcodes \<Rightarrow> u32 list \<Rightarrow> u32 \<Rightarrow> ump_handler \<Rightarrow> 'op step" where
  "handle_query_vector qe ops vector top_k h =
     query_with qe ops (query_spec_default\<lparr>qs_vector := vector, qs_top_k := unat top_k\<rparr>) h"

definition handle_query_graph ::
  "u64 query_env \<Rightarrow> 'op opcodes \<Rightarrow> str \<Rightarrow> str list \<Rightarrow> u32 \<Rightarrow> u32 \<Rightarrow> ump_handler \<Rightarrow> 'op step" where
  "handle_query_graph qe ops start_key relations top_k max_depth h =
     query_with qe ops (query_spec_default\<lparr>qs_text := start_key, qs_relations := relations, qs_top_k := unat top_k,
       qs_max_depth := unat max_depth\<rparr>) h"

definition handle_query_keyword :: "u64 query_env \<Rightarrow> 'op opcodes \<Rightarrow> str \<Rightarrow> str \<Rightarrow> u32 \<Rightarrow> ump_handler \<Rightarrow> 'op step" where
  "handle_query_keyword qe ops namespace query top_k h =
     handle_query qe ops \<lparr>qm_namespace = namespace, qm_text = query, qm_vector = [], qm_top_k = top_k, qm_max_depth = 0,
       qm_relations = [], qm_lang_filter = [], qm_type_filter = [], qm_file_filter = [], qm_merge_strategy = 1,
       qm_timeout_ms = 5000\<rparr> h"

definition handle_ns_stat :: "'op opcodes \<Rightarrow> ump_handler \<Rightarrow> 'op response \<times> ump_handler" where
  "handle_ns_stat ops h =
     (let e = uh_engine h; st = index_manager_stats (en_indices e)
      in (Single (OP_RESULT_END ops) (enc
            [string_field (ascii ''memtable_len''), u32_field (of_nat (memtable_len (en_memtable e))),
             string_field (ascii ''bm25_docs''), u32_field (of_nat (is_bm25_docs st)),
             string_field (ascii ''fuzzy_symbols''), u32_field (of_nat (is_fuzzy_symbols st)),
             string_field (ascii ''hnsw_vectors''), u32_field (of_nat (is_hnsw_vectors st)),
             string_field (ascii ''graph_nodes''), u32_field (of_nat (is_graph_nodes st)),
             string_field (ascii ''graph_edges''), u32_field (of_nat (is_graph_edges st))]), h))"

subsection \<open>Backup\<close>

text \<open>
  A directory is the list of its entries in the order the system lists them; an entry that is neither
  file nor directory is not copied. The destination lies outside the data directory. Copying a file
  onto a directory and creating a directory over a file fail, and what was copied before remains.
\<close>

datatype dir_entry = Plain_File bytes | Sub_Dir "(str \<times> dir_entry) list" | Other_Entry

type_synonym dir = "(str \<times> dir_entry) list"

definition copy_file :: "str \<Rightarrow> bytes \<Rightarrow> dir \<Rightarrow> dir option" where
  "copy_file name content dst =
     (case map_of dst name of
        Some (Sub_Dir d) \<Rightarrow> None
      | _ \<Rightarrow> Some (hm_insert name (Plain_File content) dst))"

definition open_dir :: "str \<Rightarrow> dir \<Rightarrow> dir option" where
  "open_dir name dst =
     (case map_of dst name of
        None \<Rightarrow> Some []
      | Some (Sub_Dir d) \<Rightarrow> Some d
      | Some _ \<Rightarrow> None)"

fun copy_dir_contents :: "dir \<Rightarrow> dir \<Rightarrow> nat option \<times> dir" where
  "copy_dir_contents [] dst = (Some 0, dst)"
| "copy_dir_contents ((name, Plain_File content) # src) dst =
     (case copy_file name content dst of
        None \<Rightarrow> (None, dst)
      | Some dst1 \<Rightarrow> (case copy_dir_contents src dst1 of (n, dst2) \<Rightarrow> (map_option Suc n, dst2)))"
| "copy_dir_contents ((name, Sub_Dir d) # src) dst =
     (case open_dir name dst of
        None \<Rightarrow> (None, dst)
      | Some sub \<Rightarrow>
          (case copy_dir_contents d sub of
             (None, sub1) \<Rightarrow> (None, hm_insert name (Sub_Dir sub1) dst)
           | (Some n, sub1) \<Rightarrow>
               (case copy_dir_contents src (hm_insert name (Sub_Dir sub1) dst) of
                  (m, dst2) \<Rightarrow> (map_option ((+) n) m, dst2))))"
| "copy_dir_contents ((name, Other_Entry) # src) dst = copy_dir_contents src dst"

definition handle_backup ::
  "platform \<Rightarrow> 'op opcodes \<Rightarrow> str \<Rightarrow> (engine \<Rightarrow> dir) \<Rightarrow> str \<Rightarrow> dir \<Rightarrow> ump_handler \<Rightarrow> 'op response \<times> dir \<times> ump_handler" where
  "handle_backup env ops destination data_dir err dst h =
     (let e = engine_flush env (uh_engine h);
          (copied, dst1) = copy_dir_contents (data_dir e) dst
      in (case copied of
            Some n \<Rightarrow> Single (OP_RESULT_END ops) (enc [string_field destination, u32_field (of_nat n)])
          | None \<Rightarrow> error_response ops 0xFF (ascii ''backup failed: '' @ err),
          dst1, h\<lparr>uh_engine := e\<rparr>))"

section \<open>The keyword index mirrors the records\<close>

lemma flush_indices [simp]: "en_indices (flush_memtable env e) = en_indices e" "en_indices (catch_up env e) = en_indices e"
  by (simp_all add: flush_memtable_def catch_up_def Let_def split: prod.split)

lemma get_indices [simp]: "en_indices (snd (engine_get k e)) = en_indices e"
  by (simp add: engine_get_def Let_def split: option.split prod.split)

lemma put_indices: "engine_put env k v e = Some e' \<Longrightarrow> en_indices e' = on_put k v (en_indices e)"
  by (auto simp: engine_put_def Let_def split: prod.splits if_splits)

lemma delete_indices [simp]: "en_indices (engine_delete env k e) = on_delete k (en_indices e)"
  by (simp add: engine_delete_def Let_def split: prod.split)

lemma deletes_indices: "en_indices (fold (engine_delete env) ks e) = fold on_delete ks (en_indices e)"
  by (induction ks arbitrary: e) simp_all

lemma batch_indices:
  "put_all batch_write kvs st = Some st' \<Longrightarrow> en_indices (fst st') = fold (\<lambda>(k, v). on_put k v) kvs (en_indices (fst st))"
  by (induction kvs arbitrary: st) (auto simp: batch_write_def Let_def split: option.splits prod.splits)

lemma put_batch_indices:
  assumes "engine_put_batch env kvs e = Some e'"
  shows "en_indices e' = fold (\<lambda>(k, v). on_put k v) kvs (en_indices e)"
  using assms by (auto simp: engine_put_batch_def Let_def dest!: batch_indices)

text \<open>The live documents are the records, each with the terms of its key and value.\<close>

definition documents :: "(bytes \<rightharpoonup> bytes) \<Rightarrow> str list list \<Rightarrow> (bytes \<rightharpoonup> nat) \<Rightarrow> bool" where
  "documents m hist live \<longleftrightarrow>
     dom live = dom m \<and>
     (\<forall>k d v. live k = Some d \<longrightarrow> m k = Some v \<longrightarrow> d < length hist \<and> hist ! d = tokenize k @ tokenize v)"

definition mirrors :: "index_manager \<Rightarrow> (bytes \<rightharpoonup> bytes) \<Rightarrow> bool" where
  "mirrors im m \<longleftrightarrow> vectors_ok im \<and> (\<exists>hist live. bm_rep (im_bm25 im) hist live \<and> documents m hist live)"

lemma documents_put: "documents m hist live \<Longrightarrow> documents (m(k \<mapsto> v)) (hist @ [tokenize k @ tokenize v]) (live(k \<mapsto> length hist))"
  by (auto simp: documents_def nth_append less_Suc_eq)

lemma documents_delete: "documents m hist live \<Longrightarrow> documents (m(k := None)) hist (live(k := None))"
  by (auto simp: documents_def)

lemma mirrors_put:
  assumes "mirrors im m"
  shows "mirrors (on_put k v im) (m(k \<mapsto> v))"
proof -
  from assms obtain hist live where "bm_rep (im_bm25 im) hist live" "documents m hist live" by (auto simp: mirrors_def)
  moreover have "vectors_ok (on_put k v im)" using assms by (simp add: mirrors_def vectors_ok_def on_put_def Let_def)
  ultimately show ?thesis unfolding mirrors_def using on_put_rep documents_put by blast
qed

lemma mirrors_delete:
  assumes "mirrors im m"
  shows "mirrors (on_delete k im) (m(k := None))"
proof -
  from assms obtain hist live where "bm_rep (im_bm25 im) hist live" "documents m hist live" by (auto simp: mirrors_def)
  moreover from this have "bm_rep (im_bm25 (on_delete k im)) hist (live(k := None))" using bm_rep_remove by (simp add: on_delete_def)
  moreover have "vectors_ok (on_delete k im)" using assms by (simp add: mirrors_def vectors_ok_def on_delete_def)
  ultimately show ?thesis unfolding mirrors_def using documents_delete by blast
qed

lemma mirrors_puts: "mirrors im m \<Longrightarrow> mirrors (fold (\<lambda>(k, v). on_put k v) kvs im) (m ++ map_of (rev kvs))"
proof (induction kvs arbitrary: im m)
  case (Cons kv kvs)
  obtain k v where kv: "kv = (k, v)" by fastforce
  have "m ++ map_of (rev (kv # kvs)) = m(k \<mapsto> v) ++ map_of (rev kvs)"
    by (auto simp: kv fun_eq_iff map_add_def split: option.split)
  with Cons.IH [OF mirrors_put [OF Cons.prems, of k v]] show ?case by (simp only: kv fold_Cons comp_apply prod.case)
qed simp

lemma mirrors_deletes: "mirrors im m \<Longrightarrow> mirrors (fold on_delete ks im) (\<lambda>k. if k \<in> set ks then None else m k)"
proof (induction ks arbitrary: im m)
  case (Cons k ks)
  have "(\<lambda>j. if j \<in> set ks then None else (m(k := None)) j) = (\<lambda>j. if j \<in> set (k # ks) then None else m j)" by auto
  with Cons.IH [OF mirrors_delete [OF Cons.prems, of k]] show ?case by (simp only: fold_Cons comp_apply)
qed simp

lemma mirrors_new: "mirrors index_manager_new Map.empty"
  using index_manager_new_ok by (auto simp: mirrors_def documents_def intro!: exI [of _ "[]"] exI [of _ Map.empty])

text \<open>The same for the engine of a server, which only stores keys with the prefix of its namespace.\<close>

definition tracked :: "engine \<Rightarrow> bool" where
  "tracked e \<longleftrightarrow> mirrors (en_indices e) (engine_map e) \<and> dom (engine_map e) \<subseteq> range (scope_key 0)"

lemma srv_do_tracked:
  assumes "engine_ok (uh_engine h)" "srv_do env ops r h = Some (resp, h1)" "en_flush_count (uh_engine h1) \<le> 3"
    "tracked (uh_engine h)"
  shows "tracked (uh_engine (settle env h1))"
proof -
  let ?e = "uh_engine h" and ?e1 = "uh_engine h1"
  have idle: "catch_up env ?e = ?e" using assms(1) by (simp add: engine_ok_def catch_up_idle)
  note m = assms(4) [unfolded tracked_def]
  show ?thesis
  proof (cases r)
    case (RPut k v)
    with assms(2) have put: "engine_put env (scope_key 0 k) v ?e = Some ?e1" by (auto simp: handle_put_def)
    then have "engine_do env (EPut (scope_key 0 k) v) ?e = Some (ODone, ?e1)" by simp
    from engine_call(2) [OF assms(1) this assms(3)] put_indices [OF put] m mirrors_put show ?thesis
      by (auto simp: tracked_def spec_update_def)
  next
    case (RDelete k)
    with assms(2) have e1: "?e1 = engine_delete env (scope_key 0 k) ?e" by (auto simp: handle_delete_def)
    then have "engine_do env (EDelete (scope_key 0 k)) ?e = Some (ODone, ?e1)" by simp
    from engine_call(2) [OF assms(1) this assms(3)] m mirrors_delete show ?thesis
      by (auto simp: tracked_def spec_update_def e1)
  next
    case (RPutBatch kvs)
    let ?kvs = "map scoped_entry kvs"
    have "map (\<lambda>(key, v). (scope_key 0 key, v)) kvs = ?kvs" by (simp add: scoped_entry_def case_prod_unfold)
    with RPutBatch assms(2) have put: "engine_put_batch env ?kvs ?e = Some ?e1" by (auto simp: handle_put_batch_def)
    then have "engine_do env (EPutBatch ?kvs) ?e = Some (ODone, ?e1)" by simp
    from engine_call(2) [OF assms(1) this assms(3)] fold_upd_map_of [of ?kvs "engine_map ?e"]
    have "engine_map (catch_up env ?e1) = engine_map ?e ++ map_of (rev ?kvs)" by (simp add: spec_update_def)
    moreover have "dom (map_of (rev ?kvs)) \<subseteq> range (scope_key 0)"
      by (auto simp: dom_map_of_conv_image_fst scoped_entry_def)
    ultimately show ?thesis using put_batch_indices [OF put] m mirrors_puts [of "en_indices ?e" "engine_map ?e" ?kvs]
      by (simp add: tracked_def)
  next
    case RCompact
    with assms(2) have e1: "?e1 = engine_flush env ?e" by (auto simp: handle_compact_def)
    then have "engine_do env EFlush ?e = Some (ODone, ?e1)" by simp
    from engine_call(2) [OF assms(1) this assms(3)] m show ?thesis by (simp add: tracked_def e1 engine_flush_def)
  next
    case (RRangeDelete a b)
    with assms(2) obtain ks where e1: "?e1 = fold (engine_delete env) ks ?e"
      by (auto simp: handle_range_delete_def Let_def)
    have "engine_map (catch_up env ?e1) = (\<lambda>k. if k \<in> set ks then None else engine_map ?e k)"
      using apply_ops_live [of env ?e "map TDelete ks" ?e1] assms(1,3) idle deletes_apply [of env ks ?e] e1
        deletes_effect [of ks] by simp
    with mirrors_deletes [of "en_indices ?e" "engine_map ?e" ks] m show ?thesis
      by (auto simp: tracked_def e1 deletes_indices split: if_splits)
  next
    case (RGet k)
    with assms(2) have "?e1 = snd (engine_get (scope_key 0 k) ?e)" by (auto simp: handle_get_def split: prod.splits)
    with engine_get_keeps(2) [OF assms(1)] get_settles [OF assms(1)] m show ?thesis by (simp add: tracked_def)
  next
    case (RGetBatch ks)
    have rows: "get_rows i ks e = (rs, n, e') \<Longrightarrow> en_indices e' = en_indices e" for i ks e rs n e'
      by (induction ks arbitrary: i e rs n) (auto simp: Let_def split: prod.splits, (metis get_indices snd_conv)+)
    from RGetBatch assms(2) obtain rs n where g: "get_rows 0 ks ?e = (rs, n, ?e1)"
      by (auto simp: handle_get_batch_def split: prod.splits)
    from get_rows_reads [OF assms(1) g] have "engine_ok ?e1" "engine_map ?e1 = engine_map ?e" by simp_all
    moreover from this(1) have "catch_up env ?e1 = ?e1" by (simp add: engine_ok_def catch_up_idle)
    ultimately show ?thesis using m rows [OF g] by (simp add: tracked_def)
  next
    case (RScan a b n)
    with assms(2) have "h1 = h" by (auto simp: handle_scan_def Let_def)
    with assms(4) idle show ?thesis by simp
  qed
qed

lemma srv_run_tracked:
  assumes "engine_ok (uh_engine h)" "srv_run env ops rs h = Some (resps, h')" "en_flush_count (uh_engine h') \<le> 3"
    "tracked (uh_engine h)"
  shows "engine_ok (uh_engine h') \<and> tracked (uh_engine h')"
  using assms
proof (induction rs arbitrary: h resps)
  case (Cons r rs)
  then obtain resp h1 resps' where d: "srv_do env ops r h = Some (resp, h1)"
    "srv_run env ops rs (settle env h1) = Some (resps', h')"
    by (auto split: option.splits)
  have c: "en_flush_count (uh_engine h1) \<le> 3"
    using srv_run_count [OF d(2)] Cons.prems(3) by simp
  from srv_do_simulates [OF Cons.prems(1) d(1) this] have "engine_ok (uh_engine (settle env h1))"
    by (simp only: srv_simulates_def)
  from Cons.IH [OF this d(2) Cons.prems(3) srv_do_tracked [OF Cons.prems(1) d(1) c Cons.prems(4)]] show ?case .
qed simp

lemma tracked_fresh: "tracked (fresh_engine threshold)"
proof -
  have "engine_map (fresh_engine threshold) = Map.empty"
    using engine_abs_fresh [of threshold] by (simp add: engine_abs_def empty_store_def)
  moreover have "en_indices (fresh_engine threshold) = index_manager_new" by (simp add: fresh_engine_def)
  ultimately show ?thesis by (simp add: tracked_def mirrors_new)
qed

section \<open>Rows of a query\<close>

lemma set_indices [simp]:
  "engine_ok (e\<lparr>en_indices := im\<rparr>) = engine_ok e" "engine_map (e\<lparr>en_indices := im\<rparr>) = engine_map e"
  by (simp_all add: engine_ok_def layers_ok_def states_ok_def cache_coherent_def engine_map_def fun_eq_iff)

lemma hit_rows_reads:
  assumes "engine_ok e" "hit_rows display hits e = (rows, e')"
  shows "engine_ok e' \<and> engine_map e' = engine_map e \<and>
    rows = map (\<lambda>hit. row_payload (display (rh_key hit)) (or_empty (engine_map e (rh_key hit))) (rh_score hit) (rh_rank hit)) hits"
  using assms
proof (induction hits arbitrary: e rows)
  case (Cons hit hits)
  let ?e1 = "snd (engine_get (rh_key hit) e)"
  obtain rows' where rec: "hit_rows display hits ?e1 = (rows', e')"
    and rows: "rows = row_payload (display (rh_key hit)) (or_empty (fst (engine_get (rh_key hit) e))) (rh_score hit) (rh_rank hit) # rows'"
    using Cons.prems(2) by (auto simp: Let_def or_empty_def split: prod.splits)
  have "fst (engine_get (rh_key hit) e) = engine_map e (rh_key hit)"
    using engine_get_reads Cons.prems(1) by (simp add: engine_ok_def)
  with Cons.IH [OF engine_get_keeps(1) [OF Cons.prems(1)] rec] engine_get_keeps(2) [OF Cons.prems(1)] rows
  show ?case by simp
qed simp

lemma ranked_keys [simp]: "map rh_key (ranked xs) = map fst xs" "ranked xs = [] \<longleftrightarrow> xs = []"
proof -
  show "map rh_key (ranked xs) = map fst xs"
    by (rule nth_equalityI) (simp_all add: ranked_def nth_enumerate_eq case_prod_unfold)
  then show "ranked xs = [] \<longleftrightarrow> xs = []" by (metis map_is_Nil_conv)
qed

text \<open>A record matches a query when its stored key or its value holds a term of the query.\<close>

definition record_matches :: "client_map \<Rightarrow> str \<Rightarrow> str \<Rightarrow> bool" where
  "record_matches m query k \<longleftrightarrow>
     (\<exists>v. m k = Some v \<and> set (tokenize query) \<inter> set (tokenize (scope_key 0 k) @ tokenize v) \<noteq> {})"

lemma tracked_matching:
  assumes "documents (engine_map (uh_engine h)) hist live" "dom (engine_map (uh_engine h)) \<subseteq> range (scope_key 0)"
  shows "matching hist live (tokenize query) key \<longleftrightarrow> (\<exists>k. key = scope_key 0 k \<and> record_matches (srv_map h) query k)"
proof -
  note d = assms(1) [unfolded documents_def]
  have "length (scope_key 0 k) \<noteq> 0" for k by (simp add: scope_key_def length_to_be)
  then have scoped: "scope_key 0 k \<noteq> []" for k by auto
  show ?thesis
  proof (cases "live key")
    case None
    with d have "engine_map (uh_engine h) key = None" by (metis domIff)
    with None show ?thesis by (auto simp: matching_def record_matches_def srv_map_def)
  next
    case (Some i)
    with d obtain v where v: "engine_map (uh_engine h) key = Some v" "hist ! i = tokenize key @ tokenize v" by (metis domD domI)
    with assms(2) obtain k where "key = scope_key 0 k" by blast
    with Some v scoped show ?thesis by (auto simp: matching_def record_matches_def srv_map_def)
  qed
qed

lemma keyword_index:
  assumes "tracked (uh_engine h)" "weak_order (fl_less fl)" "fl_eq fl (fl_of_nat fl 0) (fl_of_nat fl 0)"
    "\<And>xs. mset (arrange xs) = mset xs"
  shows "br_key ` set (bm25_search fl arrange (im_bm25 (en_indices (uh_engine h))) query n) \<subseteq>
      scope_key 0 ` {k. record_matches (srv_map h) query k}"
    and "record_matches (srv_map h) query k \<Longrightarrow>
      scope_key 0 k \<in> br_key ` set (bm25_search fl arrange (im_bm25 (en_indices (uh_engine h))) query n) \<or>
      length (bm25_search fl arrange (im_bm25 (en_indices (uh_engine h))) query n) = n"
proof -
  let ?bm = "bm25_search fl arrange (im_bm25 (en_indices (uh_engine h))) query n"
  from assms(1) obtain hist live where "bm_rep (im_bm25 (en_indices (uh_engine h))) hist live"
    and d: "documents (engine_map (uh_engine h)) hist live" "dom (engine_map (uh_engine h)) \<subseteq> range (scope_key 0)"
    by (auto simp: tracked_def mirrors_def)
  from bm25_search_spec [OF this(1) assms(3,2,4)] have s: "search_spec fl hist live (tokenize query) n ?bm" .
  note m = tracked_matching [OF d, of query]
  from s have "\<forall>r \<in> set ?bm. matching hist live (tokenize query) (br_key r)" by (simp add: search_spec_def Let_def)
  then show "br_key ` set ?bm \<subseteq> scope_key 0 ` {k. record_matches (srv_map h) query k}" using m by auto
  assume "record_matches (srv_map h) query k"
  then have "matching hist live (tokenize query) (scope_key 0 k)" using m by blast
  with s show "scope_key 0 k \<in> br_key ` set ?bm \<or> length ?bm = n" by (auto simp: search_spec_def Let_def)
qed

text \<open>The hits of a query that only asks the keyword index.\<close>

lemma keyword_hits:
  assumes "tracked (uh_engine h)" "plan spec = [Step_Bm25]" "\<And>xs. mset (qe_heap qe xs) = mset xs"
    "\<And>xs. mset (qe_rrf qe xs) = mset xs" "\<And>xs. mset (qe_arrange qe xs) = mset xs"
    "weak_order (fl_less (qe_fl qe))" "fl_eq (qe_fl qe) (fl_of_nat (qe_fl qe) 0) (fl_of_nat (qe_fl qe) 0)"
  obtains hits im where "index_query qe spec (en_indices (uh_engine h)) = Some (hits, im)"
    "length hits \<le> qs_top_k spec" "distinct (map rh_key hits)" "map rh_rank hits = [0..<length hits]"
    "sorted_wrt (\<lambda>a b. \<not> fl_less (qe_fl qe) (rh_score a) (rh_score b)) hits"
    "rh_key ` set hits \<subseteq> scope_key 0 ` {k. record_matches (srv_map h) (qs_text spec) k}"
    "\<And>k. record_matches (srv_map h) (qs_text spec) k \<Longrightarrow> scope_key 0 k \<in> rh_key ` set hits \<or> length hits = qs_top_k spec \<or>
       length (bm25_search (qe_fl qe) (qe_arrange qe) (im_bm25 (en_indices (uh_engine h))) (qs_text spec) (qs_top_k spec * 2)) = qs_top_k spec * 2"
proof -
  let ?im = "en_indices (uh_engine h)"
  let ?bm = "bm25_search (qe_fl qe) (qe_arrange qe) (im_bm25 ?im) (qs_text spec) (qs_top_k spec * 2)"
  note k = keyword_index [where fl = "qe_fl qe" and arrange = "qe_arrange qe" and query = "qs_text spec" and n = "qs_top_k spec * 2",
      OF assms(1,6,7,5)]
  have keys: "found_keys qe spec ?im = filter (\<lambda>l. l \<noteq> []) [map br_key ?bm]"
    by (simp add: found_keys_def answers_def assms(2) comp_def)
  have "vectors_ok ?im" using assms(1) by (simp add: tracked_def mirrors_def)
  from index_query_spec [where env = qe, OF this assms(3,4,6), of spec] obtain hits im where
    h: "index_query qe spec ?im = Some (hits, im)" "length hits \<le> qs_top_k spec" "distinct (map rh_key hits)"
      "map rh_rank hits = [0..<length hits]" "sorted_wrt (\<lambda>a b. \<not> fl_less (qe_fl qe) (rh_score a) (rh_score b)) hits"
      "\<forall>hit \<in> set hits. \<exists>l \<in> set (found_keys qe spec ?im). rh_key hit \<in> set l"
      "\<forall>l \<in> set (found_keys qe spec ?im). \<forall>key \<in> set l. key \<in> rh_key ` set hits \<or> length hits = qs_top_k spec"
    by blast
  from h(6) have "rh_key ` set hits \<subseteq> br_key ` set ?bm" unfolding keys by (auto split: if_splits)
  with k(1) have sub: "rh_key ` set hits \<subseteq> scope_key 0 ` {k. record_matches (srv_map h) (qs_text spec) k}" by blast
  have "key \<in> rh_key ` set hits \<or> length hits = qs_top_k spec" if "key \<in> br_key ` set ?bm" for key
    using h(7) that unfolding keys by (auto split: if_splits)
  with k(2) have "scope_key 0 k \<in> rh_key ` set hits \<or> length hits = qs_top_k spec \<or> length ?bm = qs_top_k spec * 2"
    if "record_matches (srv_map h) (qs_text spec) k" for k using that by blast
  with h(1-5) sub show thesis by (intro that [of hits im]) blast+
qed


text \<open>Unsigned words as scores, and one record.\<close>

definition bits_env :: "u64 query_env" where
  "bits_env = \<lparr>qe_fl = \<lparr>fl_of_nat = of_nat, fl_lit = (\<lambda>m e. of_nat m), fl_add = (+), fl_sub = (-), fl_mul = (*), fl_div = (div),
       fl_ln = (\<lambda>x. x), fl_eq = (=), fl_less = (<)\<rparr>,
     qe_hf = word_floats, qe_widen = ucast, qe_hits = rev, qe_arrange = rev, qe_heap = rev, qe_rrf = rev\<rparr>"

lemma one_record_returns:
  "\<exists>resps h. srv_run plain_env ops [RPut [0x61] [7]] (handler_new (fresh_engine 10)) = Some (resps, h) \<and>
     en_flush_count (uh_engine h) < 4 \<and> srv_map h = [[0x61] \<mapsto> [7]]"
proof -
  obtain e1 where e1: "engine_put plain_env (scope_key 0 [0x61]) [7] (fresh_engine 10) = Some e1"
    using fresh_put_returns by blast
  then have "en_flush_count e1 \<le> 1"
    using flush_count_step [of plain_env "EPut (scope_key 0 [0x61]) [7]" "fresh_engine 10" ODone e1]
    by (simp add: fresh_engine_def)
  with e1 obtain resps h where run: "srv_run plain_env ops [RPut [0x61] [7]] (handler_new (fresh_engine 10)) = Some (resps, h)"
    "en_flush_count (uh_engine h) < 4" by (simp add: handle_put_def handler_new_def settle_def)
  have "srv_map (handler_new (fresh_engine 10)) = Map.empty"
    using engine_abs_fresh [of 10] by (simp add: srv_map_def handler_new_def fun_eq_iff engine_abs_def empty_store_def)
  with srv_run_simulates [OF _ run(1)] run(2) engine_ok_fresh [of 10] have "srv_map h = [[0x61] \<mapsto> [7]]"
    by (simp add: handler_new_def)
  with run show ?thesis by blast
qed


section \<open>Backup\<close>

fun file_count :: "dir \<Rightarrow> nat" where
  "file_count [] = 0"
| "file_count ((name, Plain_File content) # src) = Suc (file_count src)"
| "file_count ((name, Sub_Dir d) # src) = file_count d + file_count src"
| "file_count ((name, Other_Entry) # src) = file_count src"

text \<open>No directory lists a name twice.\<close>

fun dir_ok :: "dir \<Rightarrow> bool" where
  "dir_ok [] = True"
| "dir_ok ((name, Plain_File content) # src) = (name \<notin> fst ` set src \<and> dir_ok src)"
| "dir_ok ((name, Sub_Dir d) # src) = (name \<notin> fst ` set src \<and> dir_ok d \<and> dir_ok src)"
| "dir_ok ((name, Other_Entry) # src) = (name \<notin> fst ` set src \<and> dir_ok src)"

text \<open>The content of the file at a path.\<close>

fun file_at :: "dir \<Rightarrow> str list \<Rightarrow> bytes option" where
  "file_at d [] = None"
| "file_at d (name # path) =
     (case map_of d name of
        Some (Plain_File content) \<Rightarrow> if path = [] then Some content else None
      | Some (Sub_Dir sub) \<Rightarrow> file_at sub path
      | _ \<Rightarrow> None)"

definition file_overlay :: "dir \<Rightarrow> dir \<Rightarrow> str list \<Rightarrow> bytes option" where
  "file_overlay src dst path = (case file_at src path of Some content \<Rightarrow> Some content | None \<Rightarrow> file_at dst path)"

lemma file_at_empty [simp]: "file_at [] path = None"
  by (cases path) simp_all

text \<open>One entry \<open>y\<close> of the destination that holds what entry \<open>x\<close> of the source laid over it.\<close>

lemma file_overlay_Cons:
  assumes "name \<notin> fst ` set src" "\<And>path. file_at [(name, y)] (name # path) = file_overlay [(name, x)] dst (name # path)"
  shows "file_overlay src (hm_insert name y dst) path = file_overlay ((name, x) # src) dst path"
proof (cases path)
  case (Cons n q)
  show ?thesis
  proof (cases "n = name")
    case True
    have "map_of src name = None" using assms(1) by (simp add: map_of_eq_None_iff)
    with True Cons assms(2) [of q] show ?thesis by (simp add: file_overlay_def map_of_hm_insert)
  next
    case False
    then have "file_at (hm_insert name y dst) (n # q) = file_at dst (n # q)" "file_at ((name, x) # src) (n # q) = file_at src (n # q)"
      by (simp_all add: map_of_hm_insert)
    then show ?thesis unfolding Cons file_overlay_def by (simp only:)
  qed
qed (simp add: file_overlay_def)

text \<open>
  Copying a directory that succeeds returns the number of its files, and lays them over the files of
  the destination: what the source has at a path is there, every other file of the destination stays.
\<close>

lemma copy_dir_overlays:
  assumes "dir_ok src" "copy_dir_contents src dst = (Some n, dst')"
  shows "n = file_count src \<and> (\<forall>path. file_at dst' path = file_overlay src dst path)"
  using assms
proof (induction src dst arbitrary: n dst' rule: copy_dir_contents.induct)
  case (1 dst)
  then show ?case by (simp add: file_overlay_def)
next
  case (2 name content src dst)
  then obtain dst1 m where c: "copy_file name content dst = Some dst1" "copy_dir_contents src dst1 = (Some m, dst')" "n = Suc m"
    by (auto split: option.splits prod.splits)
  from c(1) have dst1: "dst1 = hm_insert name (Plain_File content) dst" "\<nexists>d. map_of dst name = Some (Sub_Dir d)"
    by (auto simp: copy_file_def split: option.splits dir_entry.splits)
  have "file_overlay src dst1 path = file_overlay ((name, Plain_File content) # src) dst path" for path
    unfolding dst1 using "2.prems"(1) dst1(2)
    by (intro file_overlay_Cons) (auto simp: file_overlay_def split: option.splits dir_entry.splits)
  with "2.IH" [OF c(1) _ c(2)] "2.prems"(1) c(3) show ?case by simp
next
  case (3 name d src dst)
  then obtain sub i sub1 m where c: "open_dir name dst = Some sub" "copy_dir_contents d sub = (Some i, sub1)"
    "copy_dir_contents src (hm_insert name (Sub_Dir sub1) dst) = (Some m, dst')" "n = i + m"
    by (auto split: option.splits prod.splits)
  have sub: "i = file_count d" "\<And>path. file_at sub1 path = file_overlay d sub path"
    using "3.IH"(1) [OF c(1) _ c(2)] "3.prems"(1) by simp_all
  have "file_at dst (name # path) = file_at sub path" for path
    using c(1) by (auto simp: open_dir_def split: option.splits dir_entry.splits)
  then have "file_overlay [(name, Sub_Dir d)] dst (name # path) = file_at [(name, Sub_Dir sub1)] (name # path)" for path
    by (cases "file_at d path") (simp_all add: file_overlay_def sub(2))
  then have "file_overlay src (hm_insert name (Sub_Dir sub1) dst) path = file_overlay ((name, Sub_Dir d) # src) dst path" for path
    using "3.prems"(1) by (intro file_overlay_Cons) simp_all
  with "3.IH"(2) [OF c(1) c(2) [symmetric] refl _ c(3)] "3.prems"(1) sub(1) c(4) show ?case by simp
next
  case (4 name src dst)
  have "map_of src name = None" using "4.prems"(1) by (simp add: map_of_eq_None_iff)
  then have "file_at ((name, Other_Entry) # src) path = file_at src path" for path by (cases path) auto
  with 4 show ?case by (simp add: file_overlay_def)
qed

end
