(* ===== verification/Agent_Store.thy ===== *)
theory Agent_Store
  imports Server_Queries
begin

text \<open>
  \<^verbatim>\<open>src/agent_store.rs\<close>: payloads of agent sessions kept in the engine. Payloads, records and
  their text format come from the package \<^verbatim>\<open>ulmen_core\<close> and are the parameter
  \<open>agent_codec\<close>; a payload is its header with its records. The lemmas show what a load returns after a store or an append, and exactly
  which keys deleting a session removes.
\<close>

section \<open>Definitions\<close>

record ('h, 'r, 'e) agent_codec =
  ac_validate :: "'h \<times> 'r list \<Rightarrow> 'e option"
  ac_encode :: "'h \<times> 'r list \<Rightarrow> str"
  ac_decode :: "str \<Rightarrow> 'e + 'h \<times> 'r list"
  ac_encode_record :: "'r \<Rightarrow> str"
  ac_decode_record :: "str \<Rightarrow> 'r option"
  ac_step :: "'r \<Rightarrow> int"
  ac_type :: "'r \<Rightarrow> str"
  ac_id :: "'r \<Rightarrow> str"
  ac_default_header :: 'h
  ac_set_count :: "nat \<Rightarrow> 'h \<Rightarrow> 'h"

datatype 'e agent_error = Validation_Failed 'e | No_Payload str | Invalid_Text | Decode_Failed 'e

definition AGENT_PREFIX :: str where
  "AGENT_PREFIX = ascii ''agent:''"

definition RECORD_PREFIX :: str where
  "RECORD_PREFIX = ascii ''arec:''"

definition rec_entry :: "('h, 'r, 'e) agent_codec \<Rightarrow> str \<Rightarrow> 'r \<Rightarrow> bytes \<times> bytes" where
  "rec_entry ac session_key r =
     (RECORD_PREFIX @ session_key @ ascii '':'' @ decimal_int (ac_step ac r) @ ascii '':'' @ ac_type ac r @
        ascii '':'' @ ac_id ac r,
      ac_encode_record ac r)"

definition store_payload ::
  "platform \<Rightarrow> ('h, 'r, 'e) agent_codec \<Rightarrow> str \<Rightarrow> 'h \<times> 'r list \<Rightarrow> engine \<Rightarrow> ('e agent_error + engine) option" where
  "store_payload env ac session_key payload e =
     (case ac_validate ac payload of
        Some err \<Rightarrow> Some (Inl (Validation_Failed err))
      | None \<Rightarrow>
          Option.bind (engine_put env (AGENT_PREFIX @ session_key) (ac_encode ac payload) e) (\<lambda>e1.
            map_option Inr (put_all (engine_put env) (map (rec_entry ac session_key) (snd payload)) e1)))"

definition load_payload ::
  "('h, 'r, 'e) agent_codec \<Rightarrow> str \<Rightarrow> engine \<Rightarrow> ('e agent_error + 'h \<times> 'r list) \<times> engine" where
  "load_payload ac session_key e =
     (let (found, e1) = engine_get (AGENT_PREFIX @ session_key) e
      in (case found of
            None \<Rightarrow> Inl (No_Payload session_key)
          | Some bs \<Rightarrow>
              (if \<not> utf8_valid bs then Inl Invalid_Text
               else (case ac_decode ac bs of Inl err \<Rightarrow> Inl (Decode_Failed err) | Inr p \<Rightarrow> Inr p)), e1))"

definition delete_payload :: "platform \<Rightarrow> str \<Rightarrow> engine \<Rightarrow> engine option" where
  "delete_payload env session_key e =
     (let e1 = engine_delete env (AGENT_PREFIX @ session_key) e;
          start = RECORD_PREFIX @ session_key
      in map_option (\<lambda>records. fold (engine_delete env) (map fst records) e1)
           (engine_scan start (start @ [0xFF]) e1))"

text \<open>The hits that are agent records, still in the engine and readable, with their scores.\<close>

fun search_hits ::
  "('h, 'r, 'e) agent_codec \<Rightarrow> 'f ranked_hit list \<Rightarrow> engine \<Rightarrow> ('r \<times> 'f) list \<times> engine" where
  "search_hits ac [] e = ([], e)"
| "search_hits ac (hit # hits) e =
     (if take (length RECORD_PREFIX) (utf8_lossy (rh_key hit)) \<noteq> RECORD_PREFIX then search_hits ac hits e
      else (let (found, e1) = engine_get (rh_key hit) e;
                (results, e2) = search_hits ac hits e1
            in (case found of
                  None \<Rightarrow> results
                | Some val \<Rightarrow>
                    (case ac_decode_record ac (utf8_lossy val) of
                       Some r \<Rightarrow> (r, rh_score hit) # results
                     | None \<Rightarrow> results), e2)))"

definition search_records ::
  "'f query_env \<Rightarrow> ('h, 'r, 'e) agent_codec \<Rightarrow> str \<Rightarrow> nat \<Rightarrow> engine \<Rightarrow> (('r \<times> 'f) list \<times> engine) option" where
  "search_records qe ac query limit e =
     map_option (\<lambda>(hits, e1). search_hits ac hits e1)
       (engine_query qe (query_spec_default\<lparr>qs_text := query, qs_top_k := limit\<rparr>) e)"

definition strip_prefix :: "str \<Rightarrow> str \<Rightarrow> str" where
  "strip_prefix p s = (if take (length p) s = p then drop (length p) s else s)"

definition list_sessions :: "engine \<Rightarrow> str list option" where
  "list_sessions e =
     map_option (map (\<lambda>(k, v). strip_prefix AGENT_PREFIX (utf8_lossy k)))
       (engine_scan AGENT_PREFIX (AGENT_PREFIX @ [0xFF]) e)"

text \<open>\<^verbatim>\<open>splitn(n, ':')\<close>: at most \<open>n\<close> parts, the last one with the remaining colons.\<close>

fun splitn :: "nat \<Rightarrow> str \<Rightarrow> str list" where
  "splitn 0 s = []"
| "splitn (Suc 0) s = [s]"
| "splitn (Suc (Suc n)) s =
     (if 0x3A \<in> set s
      then takeWhile (\<lambda>c. c \<noteq> 0x3A) s # splitn (Suc n) (tl (dropWhile (\<lambda>c. c \<noteq> 0x3A) s))
      else [s])"

definition get_records_by_type ::
  "('h, 'r, 'e) agent_codec \<Rightarrow> str \<Rightarrow> str \<Rightarrow> engine \<Rightarrow> 'r list option" where
  "get_records_by_type ac session_key record_type e =
     (let start = RECORD_PREFIX @ session_key @ ascii '':''
      in map_option (List.map_filter (\<lambda>(k, v).
             let parts = splitn 5 (utf8_lossy k)
             in if length parts \<ge> 4 \<and> parts ! 3 = record_type then ac_decode_record ac (utf8_lossy v) else None))
           (engine_scan start (start @ [0xFF]) e))"

definition get_recent_records ::
  "('h, 'r, 'e) agent_codec \<Rightarrow> str \<Rightarrow> nat \<Rightarrow> engine \<Rightarrow> 'r list \<times> engine" where
  "get_recent_records ac session_key limit e =
     (case load_payload ac session_key e of
        (Inr (hdr, records), e1) \<Rightarrow>
          (let n = length records in (if n \<le> limit then records else drop (n - limit) records, e1))
      | (Inl err, e1) \<Rightarrow> ([], e1))"

definition append_records ::
  "platform \<Rightarrow> ('h, 'r, 'e) agent_codec \<Rightarrow> str \<Rightarrow> 'r list \<Rightarrow> engine \<Rightarrow> ('e agent_error + engine) option" where
  "append_records env ac session_key new_records e =
     (let (loaded, e1) = load_payload ac session_key e;
          (hdr, records) = (case loaded of Inr p \<Rightarrow> p | Inl err \<Rightarrow> (ac_default_header ac, []));
          records1 = records @ new_records
      in store_payload env ac session_key (ac_set_count ac (length records1) hdr, records1) e1)"

section \<open>Lemmas\<close>

lemma put_all_apply: "put_all (engine_put env) kvs e = apply_ops env (map (\<lambda>(k, v). TPut k v) kvs) e"
  by (induction kvs arbitrary: e) (auto simp: apply_ops_def split: option.split)

lemma puts_effect: "fold op_effect (map (\<lambda>(k, v). TPut k v) kvs) m = m ++ map_of (rev kvs)"
  by (induction kvs arbitrary: m) (auto simp: map_add_upd_left)

lemma prefixes_differ [simp]: "AGENT_PREFIX @ a \<noteq> RECORD_PREFIX @ b"
  by (simp add: AGENT_PREFIX_def RECORD_PREFIX_def ascii_def)

text \<open>What a store writes, seen with the worker idle.\<close>

lemma store_payload_effect:
  assumes "engine_ok (catch_up env e)" "store_payload env ac k p e = Some (Inr e')" "en_flush_count e' \<le> 3"
  shows "engine_ok (catch_up env e')" "ac_validate ac p = None"
    "engine_map (catch_up env e') =
      (engine_map (catch_up env e))(AGENT_PREFIX @ k \<mapsto> ac_encode ac p) ++ map_of (rev (map (rec_entry ac k) (snd p)))"
proof -
  from assms(2) show "ac_validate ac p = None" by (auto simp: store_payload_def split: option.splits)
  with assms(2) obtain e1 where "engine_put env (AGENT_PREFIX @ k) (ac_encode ac p) e = Some e1"
    "put_all (engine_put env) (map (rec_entry ac k) (snd p)) e1 = Some e'"
    by (auto simp: store_payload_def bind_eq_Some_conv)
  then have "apply_ops env (TPut (AGENT_PREFIX @ k) (ac_encode ac p) #
      map (\<lambda>(k, v). TPut k v) (map (rec_entry ac k) (snd p))) e = Some e'"
    by (simp add: apply_ops_def put_all_apply)
  from apply_ops_live [OF assms(1) this assms(3)] puts_effect
  show "engine_ok (catch_up env e')"
    "engine_map (catch_up env e') =
      (engine_map (catch_up env e))(AGENT_PREFIX @ k \<mapsto> ac_encode ac p) ++ map_of (rev (map (rec_entry ac k) (snd p)))"
    by (simp_all del: map_map)
qed

lemma load_payload_reads:
  assumes "engine_ok e"
  shows "fst (load_payload ac k e) =
    (case engine_map e (AGENT_PREFIX @ k) of
       None \<Rightarrow> Inl (No_Payload k)
     | Some bs \<Rightarrow>
         if \<not> utf8_valid bs then Inl Invalid_Text
         else (case ac_decode ac bs of Inl err \<Rightarrow> Inl (Decode_Failed err) | Inr p \<Rightarrow> Inr p))"
  using engine_get_reads [of e "AGENT_PREFIX @ k"] assms
  by (auto simp: load_payload_def engine_ok_def split: prod.splits)

lemma rec_entries_agent: "map_of (rev (map (rec_entry ac k) rs)) (AGENT_PREFIX @ j) = None"
  by (auto simp: map_of_eq_None_iff rec_entry_def)

lemma engine_ok_idle: "engine_ok e \<Longrightarrow> catch_up env e = e"
  by (simp add: engine_ok_def catch_up_idle)

text \<open>The keys of the range that deleting a session scans.\<close>

lemma prefix_range:
  fixes p k :: bytes
  shows "p \<le> k \<and> k < p @ [0xFF] \<longleftrightarrow> (\<exists>x. k = p @ x \<and> x < [0xFF])"
proof
  assume a: "p \<le> k \<and> k < p @ [0xFF]"
  then obtain x where "k = p @ x" using between_extensions [of p "[]" k "[0xFF]"] by auto
  with a show "\<exists>x. k = p @ x \<and> x < [0xFF]" by auto
next
  assume "\<exists>x. k = p @ x \<and> x < [0xFF]"
  then obtain x where "k = p @ x" "x < [0xFF]" by blast
  moreover have "p \<le> p @ x" using append_le_append [of p "[]" x] by simp
  ultimately show "p \<le> k \<and> k < p @ [0xFF]" by simp
qed

lemma delete_quiet:
  assumes "engine_ok e" "en_flush_count (engine_delete env k e) = en_flush_count e"
  shows "engine_ok (engine_delete env k e)" "engine_map (engine_delete env k e) = (engine_map e)(k := None)"
proof -
  obtain e1 where w: "wrote k None e e1"
    "engine_delete env k e = (if memtable_should_flush (en_memtable e1) then flush_memtable env e1 else e1)"
    using engine_delete_wrote by blast
  with assms(2) have "engine_delete env k e = e1"
    by (auto simp: wrote_def flush_memtable_fields split: if_splits)
  with wrote_ok [OF assms(1) w(1)] wrote_layers(2) [OF _ w(1)] assms(1)
  show "engine_ok (engine_delete env k e)" "engine_map (engine_delete env k e) = (engine_map e)(k := None)"
    by (simp_all add: engine_ok_def)
qed

lemma delete_payload_effect:
  assumes ok: "engine_ok e" and del: "delete_payload env k e = Some e'" and few: "en_flush_count e' \<le> 3"
    and quiet: "en_flush_count (engine_delete env (AGENT_PREFIX @ k) e) = en_flush_count e"
  shows "engine_map (catch_up env e') key =
    (if key = AGENT_PREFIX @ k \<or> (\<exists>x. key = RECORD_PREFIX @ k @ x \<and> x < [0xFF]) then None else engine_map e key)"
proof -
  let ?e1 = "engine_delete env (AGENT_PREFIX @ k) e" and ?start = "RECORD_PREFIX @ k"
  note e1 = delete_quiet [OF ok quiet]
  from del obtain xs where xs: "engine_scan ?start (?start @ [0xFF]) ?e1 = Some xs"
    and e': "e' = fold (engine_delete env) (map fst xs) ?e1"
    by (auto simp: delete_payload_def Let_def)
  have le: "?start \<le> ?start @ [0xFF]" using append_le_append [of ?start "[]" "[0xFF]"] by simp
  have l: "layers_ok ?e1" using e1(1) by (simp add: engine_ok_def)
  have "bt_get xs key = (if ?start \<le> key \<and> key < ?start @ [0xFF] then engine_map ?e1 key else None)"
    using engine_scan_reads [OF l le] xs by auto
  then have keys: "key \<in> set (map fst xs) \<longleftrightarrow> (\<exists>x. key = ?start @ x \<and> x < [0xFF]) \<and> engine_map ?e1 key \<noteq> None"
    using bt_get_None_iff [of xs key] prefix_range [of ?start key] by (auto split: if_splits)
  have "engine_map (catch_up env e') = (\<lambda>key. if key \<in> set (map fst xs) then None else engine_map ?e1 key)"
    using apply_ops_live [of env ?e1 "map TDelete (map fst xs)" e'] engine_ok_idle [OF e1(1)] e1(1) few
      deletes_apply [of env "map fst xs" ?e1] deletes_effect [of "map fst xs"] e' by simp
  with keys e1(2) show ?thesis by auto
qed

section \<open>Properties\<close>

text \<open>
  (C36) Storing and loading: a payload that was stored is loaded again, provided its text format
  can be read back, and storing it leaves the payloads of all other sessions as they were.
\<close>

theorem agent_store_load:
  assumes "engine_ok e" "store_payload env ac k p e = Some (Inr e')" "en_flush_count e' \<le> 3"
    "utf8_valid (ac_encode ac p)" "ac_decode ac (ac_encode ac p) = Inr p"
  shows "fst (load_payload ac k (catch_up env e')) = Inr p \<and>
    (\<forall>j. j \<noteq> k \<longrightarrow> fst (load_payload ac j (catch_up env e')) = fst (load_payload ac j e))"
proof -
  have "engine_ok (catch_up env e)" using assms(1) by (simp add: engine_ok_idle)
  note st = store_payload_effect [OF this assms(2,3)]
  show ?thesis
    using assms(4,5) load_payload_reads [OF st(1), of ac] load_payload_reads [OF assms(1), of ac]
    by (simp add: st(3) engine_ok_idle [OF assms(1)] map_add_def rec_entries_agent)
qed

text \<open>A codec that writes one letter per record, and a session with one record.\<close>

definition letter_codec :: "(unit, unit, unit) agent_codec" where
  "letter_codec =
     \<lparr>ac_validate = (\<lambda>p. None), ac_encode = (\<lambda>p. replicate (length (snd p)) 0x61),
      ac_decode = (\<lambda>s. Inr ((), replicate (length s) ())), ac_encode_record = (\<lambda>r. ascii ''r''),
      ac_decode_record = (\<lambda>s. Some ()), ac_step = (\<lambda>r. 1), ac_type = (\<lambda>r. ascii ''msg''),
      ac_id = (\<lambda>r. ascii ''m''), ac_default_header = (), ac_set_count = (\<lambda>n h. h)\<rparr>"

lemma letter_codec_ok:
  "utf8_valid (ac_encode letter_codec p)" "ac_decode letter_codec (ac_encode letter_codec p) = Inr p"
proof -
  have "utf8_valid (replicate n 0x61)" for n by (induction n) simp_all
  then show "utf8_valid (ac_encode letter_codec p)" by (simp add: letter_codec_def)
  have "replicate (length rs) () = rs" for rs :: "unit list" by (induction rs) simp_all
  then show "ac_decode letter_codec (ac_encode letter_codec p) = Inr p"
    by (cases p) (simp add: letter_codec_def)
qed

definition letter_payload :: "unit \<times> unit list" where
  "letter_payload = ((), [()])"

lemma letter_hashes: "fnv1a (AGENT_PREFIX @ ascii ''s'') \<noteq> fnv1a (fst (rec_entry letter_codec (ascii ''s'') ()))"
  by code_simp

lemma two_puts_return:
  assumes "en_state e = hamt_new" "en_flush_count e = 0" "fnv1a k1 \<noteq> fnv1a k2"
  shows "\<exists>e1 e2. engine_put env k1 v1 e = Some e1 \<and> engine_put env k2 v2 e1 = Some e2 \<and> en_flush_count e2 \<le> 3"
proof -
  obtain e1 where e1: "engine_put env k1 v1 e = Some e1"
    using empty_put_returns [OF assms(1)] by blast
  then have st: "hamt_ok (en_state e1)" "hamt_get (en_state e1) = [k1 \<mapsto> v1]"
    using apply_ops_state [of e env "[TPut k1 v1]" e1] assms(1) by (simp_all add: apply_ops_def fun_eq_iff)
  have "k' = k1" if "(k', v') \<in> set (hamt_iter (en_state e1))" for k' v'
    using that st hamt_get_iter [OF st(1)] hamt_iter_distinct [OF st(1)]
    by (metis fun_upd_apply map_of_eq_Some_iff option.distinct(1))
  then have "\<exists>st. hamt_put k2 v2 (en_state e1) = Some st"
    using hamt_put_returns [OF st(1), of k2 v2] assms(3) by blast
  then obtain e2 where e2: "engine_put env k2 v2 e1 = Some e2"
    using engine_put_None [of env k2 v2 e1] by auto
  have "en_flush_count e2 \<le> 3"
    using flush_count_step [of env "EPut k1 v1" e ODone e1] e1
      flush_count_step [of env "EPut k2 v2" e1 ODone e2] e2 assms(2) by simp
  with e1 e2 show ?thesis by blast
qed

lemma letter_store:
  assumes "en_state e = hamt_new" "en_flush_count e = 0"
  shows "\<exists>e'. store_payload plain_env letter_codec (ascii ''s'') letter_payload e = Some (Inr e') \<and> en_flush_count e' \<le> 3"
  using two_puts_return [OF assms letter_hashes, of plain_env "ac_encode letter_codec letter_payload"
      "snd (rec_entry letter_codec (ascii ''s'') ())"]
  by (auto simp: store_payload_def letter_payload_def letter_codec_def split: option.split)

theorem agent_store_load_witness:
  "\<exists>e'. store_payload plain_env letter_codec (ascii ''s'') letter_payload (fresh_engine 1000) = Some (Inr e') \<and>
     fst (load_payload letter_codec (ascii ''s'') (catch_up plain_env e')) = Inr letter_payload"
proof -
  obtain e' where e': "store_payload plain_env letter_codec (ascii ''s'') letter_payload (fresh_engine 1000) = Some (Inr e')"
    "en_flush_count e' \<le> 3" using letter_store [of "fresh_engine 1000"] by (auto simp: fresh_engine_def)
  from agent_store_load [OF engine_ok_fresh e' letter_codec_ok] e'(1) show ?thesis by blast
qed

text \<open>
  Appending: the new records follow those of the stored payload under its header with the
  count updated. A session that cannot be loaded, because it is missing but also because its
  stored text is damaged, is replaced by the new records alone.
\<close>

theorem append_records_extends:
  fixes ac :: "('h, 'r, 'e) agent_codec"
  assumes "engine_ok e" "append_records env ac k new e = Some (Inr e')" "en_flush_count e' \<le> 3"
  defines "old \<equiv> (case fst (load_payload ac k e) of Inr p \<Rightarrow> p | Inl err \<Rightarrow> (ac_default_header ac, []))"
  defines "q \<equiv> (ac_set_count ac (length (snd old) + length new) (fst old), snd old @ new)"
  assumes "utf8_valid (ac_encode ac q)" "ac_decode ac (ac_encode ac q) = Inr q"
  shows "fst (load_payload ac k (catch_up env e')) = Inr q"
proof -
  obtain loaded e1 where load: "load_payload ac k e = (loaded, e1)" by fastforce
  have "e1 = snd (engine_get (AGENT_PREFIX @ k) e)" using load by (auto simp: load_payload_def split: prod.splits)
  with engine_get_keeps(1) [OF assms(1)] have "engine_ok (catch_up env e1)" by (simp add: engine_ok_idle)
  moreover have "store_payload env ac k q e1 = Some (Inr e')"
    using assms(2) load by (simp add: append_records_def old_def q_def case_prod_unfold Let_def)
  ultimately have st: "engine_ok (catch_up env e')" "engine_map (catch_up env e') (AGENT_PREFIX @ k) = Some (ac_encode ac q)"
    using store_payload_effect [of env e1 ac k q e'] assms(3) by (auto simp: map_add_def rec_entries_agent)
  show ?thesis using load_payload_reads [OF st(1), of ac] st(2) assms(6,7) by simp
qed

theorem append_records_extends_witness:
  "\<exists>e'. append_records plain_env letter_codec (ascii ''s'') [()] (fresh_engine 1000) = Some (Inr e') \<and>
     fst (load_payload letter_codec (ascii ''s'') (catch_up plain_env e')) = Inr letter_payload"
proof -
  let ?e1 = "snd (engine_get (AGENT_PREFIX @ ascii ''s'') (fresh_engine 1000))"
  have miss: "fst (load_payload letter_codec (ascii ''s'') (fresh_engine 1000)) = Inl (No_Payload (ascii ''s''))"
    using load_payload_reads [OF engine_ok_fresh, of letter_codec "ascii ''s''"] engine_abs_fresh [of 1000]
    by (simp add: engine_abs_def empty_store_def)
  moreover have "snd (load_payload letter_codec (ascii ''s'') (fresh_engine 1000)) = ?e1"
    by (simp add: load_payload_def split: prod.split)
  ultimately have "append_records plain_env letter_codec (ascii ''s'') [()] (fresh_engine 1000) =
      store_payload plain_env letter_codec (ascii ''s'') letter_payload ?e1"
    by (simp add: append_records_def case_prod_unfold letter_payload_def)
  with letter_store [of ?e1] obtain e' where
    e': "append_records plain_env letter_codec (ascii ''s'') [()] (fresh_engine 1000) = Some (Inr e')"
      "en_flush_count e' \<le> 3" by (auto simp: engine_get_fields fresh_engine_def)
  from append_records_extends [OF engine_ok_fresh e'] letter_codec_ok miss e'(1) show ?thesis
    by (simp add: letter_payload_def)
qed

text \<open>
  Deleting a session reaches into others: besides its payload, every record is deleted whose
  session name merely starts with the deleted name, while the payload of such a session stays.
\<close>

theorem delete_payload_overreaches:
  assumes "engine_ok e" "delete_payload env k e = Some e'" "en_flush_count e' \<le> 3"
    "en_flush_count (engine_delete env (AGENT_PREFIX @ k) e) = en_flush_count e" "suffix \<noteq> []" "suffix < [0xFF]"
  shows "engine_map (catch_up env e') (AGENT_PREFIX @ k) = None \<and>
    engine_map (catch_up env e') (fst (rec_entry ac (k @ suffix) r)) = None \<and>
    engine_map (catch_up env e') (AGENT_PREFIX @ k @ suffix) = engine_map e (AGENT_PREFIX @ k @ suffix)"
proof -
  note eff = delete_payload_effect [OF assms(1-4)]
  have "\<exists>x. fst (rec_entry ac (k @ suffix) r) = RECORD_PREFIX @ k @ x \<and> x < [0xFF]"
    using assms(5,6) by (cases suffix) (auto simp: rec_entry_def)
  with assms(5) show ?thesis by (simp add: eff)
qed

theorem delete_payload_overreaches_witness:
  "\<exists>e'. delete_payload plain_env (ascii ''s1'') (fresh_engine 1000) = Some e' \<and>
     engine_map (catch_up plain_env e') (fst (rec_entry letter_codec (ascii ''s10'') ())) = None"
proof -
  let ?e = "fresh_engine 1000" and ?k = "AGENT_PREFIX @ ascii ''s1''"
  let ?e1 = "engine_delete plain_env ?k ?e" and ?start = "RECORD_PREFIX @ ascii ''s1''"
  have quiet: "en_flush_count ?e1 = en_flush_count ?e"
    by (simp add: engine_delete_def memtable_delete_def fresh_engine_def memtable_new_def cache_empty_def cache_new_def
        memtable_should_flush_def AGENT_PREFIX_def ascii_def Let_def)
  note e1 = delete_quiet [OF engine_ok_fresh quiet]
  have "engine_map ?e1 x = None" for x
    using e1(2) engine_abs_fresh [of 1000] by (simp add: engine_abs_def empty_store_def)
  moreover have "layers_ok ?e1" using e1(1) by (simp add: engine_ok_def)
  moreover have "?start \<le> ?start @ [0xFF]" using append_le_append [of ?start "[]" "[0xFF]"] by simp
  ultimately obtain xs where xs: "engine_scan ?start (?start @ [0xFF]) ?e1 = Some xs" "\<forall>x. bt_get xs x = None"
    using engine_scan_reads [of ?e1 ?start "?start @ [0xFF]"] by auto
  then have "xs = []" using bt_get_None_iff [of xs] by auto
  with xs(1) have del: "delete_payload plain_env (ascii ''s1'') ?e = Some ?e1"
    by (simp add: delete_payload_def)
  have "en_flush_count ?e1 \<le> 3" using quiet by (simp add: fresh_engine_def)
  from delete_payload_overreaches [OF engine_ok_fresh del this quiet, of "ascii ''0''" letter_codec "()"] del
  show ?thesis by (simp add: ascii_def)
qed

end
