(* ===== verification/Python_Bindings.thy ===== *)
theory Python_Bindings
  imports Server_Queries Engine_Branches
begin

text \<open>
  The classes of \<^verbatim>\<open>src/python.rs\<close>: documents, the context engine, workspaces, agents, the client and the
  database. All handles share one engine, which the methods take and return; an error is an \<open>Inl\<close>, and a
  call that does not return is \<open>None\<close>. The conversions of \<^verbatim>\<open>pyo3\<close>, printing and the lock, which only a
  panic can poison, are left out. The lemmas show how far the work of an agent is isolated.
\<close>

section \<open>Documents\<close>

record 'f document =
  doc_id :: str
  doc_content_bytes :: bytes
  doc_meta :: "(str \<times> str) list"
  doc_score :: 'f

definition doc_content :: "'f document \<Rightarrow> str" where
  "doc_content d = utf8_or_empty (doc_content_bytes d)"

definition doc_raw :: "'f document \<Rightarrow> bytes" where
  "doc_raw d = doc_content_bytes d"

definition doc_metadata :: "'f document \<Rightarrow> (str \<times> str) list" where
  "doc_metadata d = doc_meta d"

definition doc_vector :: "'f document \<Rightarrow> u32 list option" where
  "doc_vector d = None"

definition doc_len :: "'f document \<Rightarrow> nat" where
  "doc_len d = length (doc_content_bytes d)"

definition doc_bool :: "'f document \<Rightarrow> bool" where
  "doc_bool d = (doc_content_bytes d \<noteq> [])"

definition plain_doc :: "'f float_ops \<Rightarrow> str \<Rightarrow> bytes \<Rightarrow> 'f document" where
  "plain_doc fl path val = \<lparr>doc_id = path, doc_content_bytes = val, doc_meta = [], doc_score = fl_of_nat fl 0\<rparr>"

text \<open>A document for each identifier, key and score, with the value the engine reads.\<close>

fun read_docs :: "(str \<times> bytes \<times> 'f) list \<Rightarrow> engine \<Rightarrow> 'f document list \<times> engine" where
  "read_docs [] e = ([], e)"
| "read_docs ((i, key, score) # hits) e =
     (let (found, e1) = engine_get key e;
          val = (case found of Some v \<Rightarrow> v | None \<Rightarrow> []);
          (ds, e2) = read_docs hits e1
      in (\<lparr>doc_id = i, doc_content_bytes = val, doc_meta = [], doc_score = score\<rparr> # ds, e2))"

definition query_docs :: "'f query_env \<Rightarrow> u32 query_spec \<Rightarrow> engine \<Rightarrow> ('f document list \<times> engine) option" where
  "query_docs qe spec e =
     map_option (\<lambda>(hits, e1). read_docs (map (\<lambda>h. (utf8_lossy (rh_key h), rh_key h, rh_score h)) hits) e1)
       (engine_query qe spec e)"

definition text_spec :: "str \<Rightarrow> nat \<Rightarrow> u32 query_spec" where
  "text_spec txt limit = query_spec_default\<lparr>qs_text := txt, qs_top_k := limit\<rparr>"

definition graph_spec :: "str \<Rightarrow> str \<Rightarrow> nat \<Rightarrow> nat \<Rightarrow> u32 query_spec" where
  "graph_spec start relation depth limit =
     query_spec_default\<lparr>qs_text := start, qs_relations := [relation], qs_top_k := limit, qs_max_depth := depth\<rparr>"

definition fuzzy_docs :: "'f query_env \<Rightarrow> str \<Rightarrow> nat \<Rightarrow> engine \<Rightarrow> 'f document list \<times> engine" where
  "fuzzy_docs qe symbol limit e =
     read_docs (map (\<lambda>m. (fm_symbol m, fm_symbol m, fm_jaccard m))
       (fuzzy_query (qe_fl qe) (qe_hits qe) (im_fuzzy (en_indices e)) symbol limit)) e"

definition vector_docs :: "'f query_env \<Rightarrow> u32 list \<Rightarrow> nat \<Rightarrow> engine \<Rightarrow> ('f document list \<times> engine) option" where
  "vector_docs qe embedding limit e =
     (case im_hnsw (en_indices e) of
        None \<Rightarrow> Some ([], e)
      | Some h \<Rightarrow>
          map_option (\<lambda>rs. read_docs (map (\<lambda>r. (utf8_lossy (hr_key r), hr_key r,
                fl_sub (qe_fl qe) (fl_of_nat (qe_fl qe) 1) (qe_widen qe (hr_distance r)))) rs) e)
            (hnsw_search (qe_hf qe) (qe_heap qe) h embedding limit))"

definition scan_docs :: "'f float_ops \<Rightarrow> str \<Rightarrow> nat \<Rightarrow> engine \<Rightarrow> 'f document list option" where
  "scan_docs fl prefix limit e =
     map_option (\<lambda>results. map (\<lambda>(k, v). plain_doc fl (utf8_lossy k) v) (take limit results))
       (engine_scan prefix (prefix @ [0xFF]) e)"

definition index_doc ::
  "platform \<Rightarrow> 'f query_env \<Rightarrow> str \<Rightarrow> bytes \<Rightarrow> u32 list option \<Rightarrow> (str \<times> str) list \<Rightarrow> engine \<Rightarrow> engine option" where
  "index_doc env qe key content vector edges e =
     Option.bind (engine_put env key content e) (\<lambda>e1.
       map_option (\<lambda>im. e1\<lparr>en_indices := fold (\<lambda>(dst, rel). on_add_edge key dst rel) edges im\<rparr>)
         (case vector of
            None \<Rightarrow> Some (en_indices e1)
          | Some v \<Rightarrow> on_put_vector (qe_hf qe) (qe_heap qe) key v (en_indices e1)))"

definition add_edge_to :: "str \<Rightarrow> str \<Rightarrow> str \<Rightarrow> engine \<Rightarrow> engine" where
  "add_edge_to src dst relation e = e\<lparr>en_indices := on_add_edge src dst relation (en_indices e)\<rparr>"

definition engine_stats :: "engine \<Rightarrow> (str \<times> nat) list" where
  "engine_stats e =
     (let idx = index_manager_stats (en_indices e)
      in [(ascii ''records'', memtable_len (en_memtable e)), (ascii ''flush_count'', en_flush_count e),
          (ascii ''index_docs'', is_bm25_docs idx), (ascii ''index_symbols'', is_fuzzy_symbols idx),
          (ascii ''index_vectors'', is_hnsw_vectors idx), (ascii ''graph_nodes'', is_graph_nodes idx),
          (ascii ''graph_edges'', is_graph_edges idx)])"

section \<open>Context engine\<close>

definition ctx_query :: "'f query_env \<Rightarrow> str \<Rightarrow> nat \<Rightarrow> engine \<Rightarrow> ('f document list \<times> engine) option" where
  "ctx_query qe txt limit e = query_docs qe (text_spec txt limit) e"

definition ctx_search_text :: "'f query_env \<Rightarrow> str \<Rightarrow> nat \<Rightarrow> engine \<Rightarrow> ('f document list \<times> engine) option" where
  "ctx_search_text qe txt limit e = ctx_query qe txt limit e"

definition ctx_search_fuzzy :: "'f query_env \<Rightarrow> str \<Rightarrow> nat \<Rightarrow> engine \<Rightarrow> 'f document list \<times> engine" where
  "ctx_search_fuzzy qe symbol limit e = fuzzy_docs qe symbol limit e"

definition ctx_ingest :: "platform \<Rightarrow> (str \<times> bytes) list \<Rightarrow> engine \<Rightarrow> (nat \<times> engine) option" where
  "ctx_ingest env records e = engine_bulk_ingest env records e"

definition ctx_search_vector :: "'f query_env \<Rightarrow> u32 list \<Rightarrow> nat \<Rightarrow> engine \<Rightarrow> ('f document list \<times> engine) option" where
  "ctx_search_vector qe embedding limit e = vector_docs qe embedding limit e"

definition ctx_add_edge :: "str \<Rightarrow> str \<Rightarrow> str \<Rightarrow> engine \<Rightarrow> engine" where
  "ctx_add_edge src dst relation e = add_edge_to src dst relation e"

definition ctx_search_graph :: "'f query_env \<Rightarrow> str \<Rightarrow> str \<Rightarrow> nat \<Rightarrow> nat \<Rightarrow> engine \<Rightarrow> ('f document list \<times> engine) option" where
  "ctx_search_graph qe start relation depth limit e = query_docs qe (graph_spec start relation depth limit) e"

definition ctx_index ::
  "platform \<Rightarrow> 'f query_env \<Rightarrow> str \<Rightarrow> bytes \<Rightarrow> u32 list option \<Rightarrow> (str \<times> str) list option \<Rightarrow> engine \<Rightarrow> engine option" where
  "ctx_index env qe key content vector edges e =
     index_doc env qe key content vector (case edges of None \<Rightarrow> [] | Some es \<Rightarrow> es) e"

section \<open>Workspaces\<close>

datatype py_error =
    Database_Closed
  | Not_A_Branch
  | Agent_Finished
  | Agent_Branch_Not_Found
  | From_Engine engine_error

record workspace =
  ws_branch_name :: str
  ws_is_branch :: bool

definition ws_get :: "'f float_ops \<Rightarrow> str \<Rightarrow> engine \<Rightarrow> 'f document option \<times> engine" where
  "ws_get fl path e = (let (found, e1) = engine_get path e in (map_option (plain_doc fl path) found, e1))"

definition ws_put :: "platform \<Rightarrow> str \<Rightarrow> bytes \<Rightarrow> engine \<Rightarrow> engine option" where
  "ws_put env path content e = engine_put env path content e"

definition ws_delete :: "platform \<Rightarrow> str \<Rightarrow> engine \<Rightarrow> engine" where
  "ws_delete env path e = engine_delete env path e"

definition ws_scan :: "'f float_ops \<Rightarrow> str \<Rightarrow> nat \<Rightarrow> engine \<Rightarrow> 'f document list option" where
  "ws_scan fl prefix limit e = scan_docs fl prefix limit e"

definition ws_put_batch :: "platform \<Rightarrow> (str \<times> bytes) list \<Rightarrow> engine \<Rightarrow> engine option" where
  "ws_put_batch env records e = engine_put_batch env records e"

definition ws_snapshot :: "str option \<Rightarrow> engine \<Rightarrow> str \<times> engine" where
  "ws_snapshot name e = snapshot_create (case name of Some n \<Rightarrow> n | None \<Rightarrow> []) e"

definition ws_rollback_to :: "str \<Rightarrow> engine \<Rightarrow> (py_error + unit) \<times> engine" where
  "ws_rollback_to checkpoint_id e =
     (case snapshot_restore checkpoint_id e of Inl err \<Rightarrow> (Inl (From_Engine err), e) | Inr e1 \<Rightarrow> (Inr (), e1))"

definition ws_commit :: "platform \<Rightarrow> engine \<Rightarrow> engine" where
  "ws_commit env e = engine_flush env e"

definition merge_branch :: "platform \<Rightarrow> str \<Rightarrow> engine \<Rightarrow> ((py_error + nat) \<times> engine) option" where
  "merge_branch env name e =
     map_option (\<lambda>r. case r of Inl err \<Rightarrow> (Inl (From_Engine err), e) | Inr (n, e1) \<Rightarrow> (Inr n, e1)) (branch_merge env name e)"

definition ws_merge_to_main :: "platform \<Rightarrow> workspace \<Rightarrow> engine \<Rightarrow> ((py_error + nat) \<times> engine) option" where
  "ws_merge_to_main env ws e =
     (if \<not> ws_is_branch ws then Some (Inl Not_A_Branch, e) else merge_branch env (ws_branch_name ws) e)"

definition ws_contains :: "str \<Rightarrow> engine \<Rightarrow> bool \<times> engine" where
  "ws_contains path e = (let (found, e1) = engine_get path e in (found \<noteq> None, e1))"

section \<open>Agents\<close>

record agent =
  ag_name :: str
  ag_finished :: bool

definition create_agent :: "str \<Rightarrow> engine \<Rightarrow> (py_error + agent) \<times> engine" where
  "create_agent name e =
     (case branch_create name [] e of
        Inl err \<Rightarrow> (Inl (From_Engine err), e)
      | Inr (_, e1) \<Rightarrow> (Inr \<lparr>ag_name = name, ag_finished = False\<rparr>, e1))"

definition agent_search :: "'f query_env \<Rightarrow> agent \<Rightarrow> str \<Rightarrow> nat \<Rightarrow> engine \<Rightarrow> ('f document list \<times> engine) option" where
  "agent_search qe ag query limit e = query_docs qe (text_spec query limit) e"

definition agent_search_fuzzy :: "'f query_env \<Rightarrow> agent \<Rightarrow> str \<Rightarrow> nat \<Rightarrow> engine \<Rightarrow> 'f document list \<times> engine" where
  "agent_search_fuzzy qe ag symbol limit e = fuzzy_docs qe symbol limit e"

definition agent_get :: "'f float_ops \<Rightarrow> agent \<Rightarrow> str \<Rightarrow> engine \<Rightarrow> 'f document option \<times> engine" where
  "agent_get fl ag path e =
     (case snapshot_get (ag_name ag) path e of
        Some val \<Rightarrow> (Some (plain_doc fl path val), e)
      | None \<Rightarrow> (let (found, e1) = engine_get path e in (map_option (plain_doc fl path) found, e1)))"

definition agent_put :: "agent \<Rightarrow> str \<Rightarrow> bytes \<Rightarrow> engine \<Rightarrow> ((py_error + unit) \<times> engine) option" where
  "agent_put ag path content e =
     (if ag_finished ag then Some (Inl Agent_Finished, e)
      else (case map_of (en_snapshots e) (ag_name ag) of
              None \<Rightarrow> Some (Inl Agent_Branch_Not_Found, e)
            | Some branch \<Rightarrow>
                map_option (\<lambda>updated. (Inr (), e\<lparr>en_snapshots := hm_insert (ag_name ag) updated (en_snapshots e)\<rparr>))
                  (hamt_put path content branch)))"

text \<open>Deleting does not look at the finished flag.\<close>

definition agent_delete :: "agent \<Rightarrow> str \<Rightarrow> engine \<Rightarrow> (py_error + unit) \<times> engine" where
  "agent_delete ag path e =
     (case map_of (en_snapshots e) (ag_name ag) of
        None \<Rightarrow> (Inl Agent_Branch_Not_Found, e)
      | Some branch \<Rightarrow>
          (Inr (), e\<lparr>en_snapshots := hm_insert (ag_name ag) (hamt_delete path branch) (en_snapshots e)\<rparr>))"

definition agent_scan :: "'f float_ops \<Rightarrow> agent \<Rightarrow> str \<Rightarrow> nat \<Rightarrow> engine \<Rightarrow> 'f document list option" where
  "agent_scan fl ag prefix limit e = scan_docs fl prefix limit e"

definition agent_load :: "agent \<Rightarrow> (str \<times> bytes) list \<Rightarrow> engine \<Rightarrow> ((py_error + nat) \<times> engine) option" where
  "agent_load ag records e =
     (if ag_finished ag then Some (Inl Agent_Finished, e)
      else (case map_of (en_snapshots e) (ag_name ag) of
              None \<Rightarrow> Some (Inl Agent_Branch_Not_Found, e)
            | Some branch \<Rightarrow>
                map_option (\<lambda>updated. (Inr (length records), e\<lparr>en_snapshots := hm_insert (ag_name ag) updated (en_snapshots e)\<rparr>))
                  (put_all hamt_put records branch)))"

definition agent_commit :: "platform \<Rightarrow> agent \<Rightarrow> engine \<Rightarrow> ((py_error + nat) \<times> agent \<times> engine) option" where
  "agent_commit env ag e =
     (if ag_finished ag then Some (Inl Agent_Finished, ag, e)
      else map_option (\<lambda>(r, e1). case r of Inl err \<Rightarrow> (Inl err, ag, e1) | Inr n \<Rightarrow> (Inr n, ag\<lparr>ag_finished := True\<rparr>, e1))
             (merge_branch env (ag_name ag) e))"

definition agent_discard :: "agent \<Rightarrow> engine \<Rightarrow> agent \<times> engine" where
  "agent_discard ag e =
     (if ag_finished ag then (ag, e)
      else (ag\<lparr>ag_finished := True\<rparr>, snd (branch_rollback (ag_name ag) e)))"

text \<open>Leaving the context: an exception rolls back; otherwise the merge runs and its error is ignored.\<close>

definition agent_exit :: "platform \<Rightarrow> bool \<Rightarrow> agent \<Rightarrow> engine \<Rightarrow> (agent \<times> engine) option" where
  "agent_exit env exc ag e =
     (if ag_finished ag then Some (ag, e)
      else if exc then Some (ag\<lparr>ag_finished := True\<rparr>, snd (branch_rollback (ag_name ag) e))
      else map_option (\<lambda>(r, e1). (ag\<lparr>ag_finished := True\<rparr>, e1)) (merge_branch env (ag_name ag) e))"

definition agent_search_vector :: "'f query_env \<Rightarrow> agent \<Rightarrow> u32 list \<Rightarrow> nat \<Rightarrow> engine \<Rightarrow> ('f document list \<times> engine) option" where
  "agent_search_vector qe ag embedding limit e = vector_docs qe embedding limit e"

definition agent_search_graph ::
  "'f query_env \<Rightarrow> agent \<Rightarrow> str \<Rightarrow> str \<Rightarrow> nat \<Rightarrow> nat \<Rightarrow> engine \<Rightarrow> ('f document list \<times> engine) option" where
  "agent_search_graph qe ag start relation depth limit e = query_docs qe (graph_spec start relation depth limit) e"

definition agent_checkpoint :: "agent \<Rightarrow> str option \<Rightarrow> engine \<Rightarrow> str \<times> engine" where
  "agent_checkpoint ag name e =
     snapshot_create (case name of Some n \<Rightarrow> n | None \<Rightarrow> ag_name ag @ ascii ''-checkpoint'') e"

section \<open>Client and database\<close>

text \<open>A closed handle has no engine; every method but closing fails on it.\<close>

type_synonym 'a py_call = "engine option \<Rightarrow> ((py_error + 'a) \<times> engine option) option"

definition on_engine :: "(engine \<Rightarrow> ((py_error + 'a) \<times> engine) option) \<Rightarrow> 'a py_call" where
  "on_engine f db =
     (case db of
        None \<Rightarrow> Some (Inl Database_Closed, None)
      | Some e \<Rightarrow> map_option (\<lambda>(r, e1). (r, Some e1)) (f e))"

definition strip_scheme :: "str \<Rightarrow> str" where
  "strip_scheme url =
     (let p = ascii ''uldb://'' in if take (length p) url = p then drop (length p) url else url)"

definition client_connect :: "platform \<Rightarrow> (str \<Rightarrow> disk) \<Rightarrow> str \<Rightarrow> (engine \<times> str) option" where
  "client_connect env disks url =
     (let path = strip_scheme url
      in map_option (\<lambda>e. (e, path)) (engine_open env DEFAULT_FLUSH_THRESHOLD (disks path)))"

definition client_workspace :: "workspace py_call" where
  "client_workspace = on_engine (\<lambda>e. Some (Inr \<lparr>ws_branch_name = ascii ''main'', ws_is_branch = False\<rparr>, e))"

definition client_context :: "unit py_call" where
  "client_context = on_engine (\<lambda>e. Some (Inr (), e))"

definition client_branch :: "str \<Rightarrow> str \<Rightarrow> workspace py_call" where
  "client_branch name base =
     on_engine (\<lambda>e. Some
       (case branch_create name (if base = ascii ''main'' then [] else base) e of
          Inl err \<Rightarrow> (Inl (From_Engine err), e)
        | Inr (_, e1) \<Rightarrow> (Inr \<lparr>ws_branch_name = name, ws_is_branch = True\<rparr>, e1)))"

definition client_agent :: "str \<Rightarrow> agent py_call" where
  "client_agent name = on_engine (\<lambda>e. Some (create_agent name e))"

definition client_branches :: "str list py_call" where
  "client_branches = on_engine (\<lambda>e. Some (Inr (snapshot_list e), e))"

text \<open>The engine is closed unless another handle still refers to it; then the client only flushes and stays open.\<close>

definition client_close :: "platform \<Rightarrow> bool \<Rightarrow> disk \<Rightarrow> engine option \<Rightarrow> disk \<times> engine option" where
  "client_close env shared d db =
     (case db of
        None \<Rightarrow> (d, None)
      | Some e \<Rightarrow> if shared then (d, Some (engine_flush env e)) else (engine_close env d e, None))"

definition client_stats :: "(str \<times> nat) list py_call" where
  "client_stats = on_engine (\<lambda>e. Some (Inr (engine_stats e), e))"

definition db_new :: "platform \<Rightarrow> disk \<Rightarrow> engine option" where
  "db_new env d = engine_open env DEFAULT_FLUSH_THRESHOLD d"

definition db_put :: "platform \<Rightarrow> str \<Rightarrow> bytes \<Rightarrow> unit py_call" where
  "db_put env key val = on_engine (\<lambda>e. map_option (Pair (Inr ())) (engine_put env key val e))"

definition db_get :: "str \<Rightarrow> bytes option py_call" where
  "db_get key = on_engine (\<lambda>e. let (found, e1) = engine_get key e in Some (Inr found, e1))"

definition db_delete :: "platform \<Rightarrow> str \<Rightarrow> unit py_call" where
  "db_delete env key = on_engine (\<lambda>e. Some (Inr (), engine_delete env key e))"

definition db_search :: "'f query_env \<Rightarrow> str \<Rightarrow> nat \<Rightarrow> 'f document list py_call" where
  "db_search qe query limit =
     on_engine (\<lambda>e. map_option (\<lambda>(ds, e1). (Inr ds, e1)) (query_docs qe (text_spec query limit) e))"

definition db_scan :: "'f float_ops \<Rightarrow> str \<Rightarrow> nat \<Rightarrow> 'f document list py_call" where
  "db_scan fl prefix limit = on_engine (\<lambda>e. map_option (\<lambda>ds. (Inr ds, e)) (scan_docs fl prefix limit e))"

definition db_load :: "platform \<Rightarrow> (str \<times> bytes) list \<Rightarrow> nat py_call" where
  "db_load env records = on_engine (\<lambda>e. map_option (\<lambda>(n, e1). (Inr n, e1)) (engine_bulk_ingest env records e))"

definition db_snapshot :: "str option \<Rightarrow> str py_call" where
  "db_snapshot name =
     on_engine (\<lambda>e. let (i, e1) = snapshot_create (case name of Some n \<Rightarrow> n | None \<Rightarrow> []) e in Some (Inr i, e1))"

definition db_restore :: "str \<Rightarrow> unit py_call" where
  "db_restore name =
     on_engine (\<lambda>e. Some (case snapshot_restore name e of Inl err \<Rightarrow> (Inl (From_Engine err), e) | Inr e1 \<Rightarrow> (Inr (), e1)))"

definition db_snapshots :: "str list py_call" where
  "db_snapshots = on_engine (\<lambda>e. Some (Inr (snapshot_list e), e))"

definition db_search_fuzzy :: "'f query_env \<Rightarrow> str \<Rightarrow> nat \<Rightarrow> 'f document list py_call" where
  "db_search_fuzzy qe symbol limit = on_engine (\<lambda>e. let (ds, e1) = fuzzy_docs qe symbol limit e in Some (Inr ds, e1))"

definition db_search_vector :: "'f query_env \<Rightarrow> u32 list \<Rightarrow> nat \<Rightarrow> 'f document list py_call" where
  "db_search_vector qe embedding limit =
     on_engine (\<lambda>e. map_option (\<lambda>(ds, e1). (Inr ds, e1)) (vector_docs qe embedding limit e))"

definition db_add_edge :: "str \<Rightarrow> str \<Rightarrow> str \<Rightarrow> unit py_call" where
  "db_add_edge src dst relation = on_engine (\<lambda>e. Some (Inr (), add_edge_to src dst relation e))"

definition db_search_graph :: "'f query_env \<Rightarrow> str \<Rightarrow> str \<Rightarrow> nat \<Rightarrow> nat \<Rightarrow> 'f document list py_call" where
  "db_search_graph qe start relation depth limit =
     on_engine (\<lambda>e. map_option (\<lambda>(ds, e1). (Inr ds, e1)) (query_docs qe (graph_spec start relation depth limit) e))"

definition db_index ::
  "platform \<Rightarrow> 'f query_env \<Rightarrow> str \<Rightarrow> bytes \<Rightarrow> u32 list option \<Rightarrow> (str \<times> str) list option \<Rightarrow> unit py_call" where
  "db_index env qe key content vector edges =
     on_engine (\<lambda>e. map_option (Pair (Inr ()))
       (index_doc env qe key content vector (case edges of None \<Rightarrow> [] | Some es \<Rightarrow> es) e))"

definition db_delete_range :: "platform \<Rightarrow> str \<Rightarrow> str \<Rightarrow> nat py_call" where
  "db_delete_range env start endk =
     on_engine (\<lambda>e. map_option (\<lambda>results.
         let keys = map fst results in (Inr (length keys), fold (engine_delete env) keys e))
       (engine_scan start endk e))"

definition db_keys :: "str \<Rightarrow> nat \<Rightarrow> str list py_call" where
  "db_keys prefix limit =
     on_engine (\<lambda>e. map_option (\<lambda>results. (Inr (map (\<lambda>(k, v). utf8_lossy k) (take limit results)), e))
       (engine_scan prefix (prefix @ [0xFF]) e))"

definition db_stats :: "(str \<times> nat) list py_call" where
  "db_stats = on_engine (\<lambda>e. Some (Inr (engine_stats e), e))"

definition db_agent :: "str \<Rightarrow> agent py_call" where
  "db_agent name = on_engine (\<lambda>e. Some (create_agent name e))"

text \<open>The engine is closed unless another handle still refers to it; the database forgets it in any case.\<close>

definition db_close :: "platform \<Rightarrow> bool \<Rightarrow> disk \<Rightarrow> engine option \<Rightarrow> disk \<times> engine option" where
  "db_close env shared d db =
     (case db of
        None \<Rightarrow> (d, None)
      | Some e \<Rightarrow> (if shared then d else engine_close env d e, None))"

definition db_contains :: "str \<Rightarrow> bool py_call" where
  "db_contains key = on_engine (\<lambda>e. let (found, e1) = engine_get key e in Some (Inr (found \<noteq> None), e1))"

definition db_len :: "nat py_call" where
  "db_len = on_engine (\<lambda>e. Some (Inr (memtable_len (en_memtable e)), e))"

section \<open>An agent beside other clients\<close>

text \<open>The writes of an agent, interleaved with data calls of others, the worker idle after each call.\<close>

datatype agent_write =
    Agent_Put str bytes
  | Agent_Delete str
  | Agent_Load "(str \<times> bytes) list"

datatype py_step = Main engine_op | Work agent_write

definition ok_engine :: "((py_error + 'a) \<times> engine) option \<Rightarrow> engine option" where
  "ok_engine r = (case r of Some (Inr _, e) \<Rightarrow> Some e | _ \<Rightarrow> None)"

fun agent_do :: "agent \<Rightarrow> agent_write \<Rightarrow> engine \<Rightarrow> engine option" where
  "agent_do ag (Agent_Put path content) e = ok_engine (agent_put ag path content e)"
| "agent_do ag (Agent_Delete path) e = ok_engine (Some (agent_delete ag path e))"
| "agent_do ag (Agent_Load records) e = ok_engine (agent_load ag records e)"

fun py_do :: "platform \<Rightarrow> agent \<Rightarrow> py_step \<Rightarrow> engine \<Rightarrow> engine option" where
  "py_do env ag (Main op) e = map_option (\<lambda>(out, e1). catch_up env e1) (engine_do env op e)"
| "py_do env ag (Work w) e = agent_do ag w e"

primrec py_run :: "platform \<Rightarrow> agent \<Rightarrow> py_step list \<Rightarrow> engine \<Rightarrow> engine option" where
  "py_run env ag [] e = Some e"
| "py_run env ag (s # ss) e = Option.bind (py_do env ag s e) (py_run env ag ss)"

fun data_op :: "engine_op \<Rightarrow> bool" where
  "data_op (EPut k v) = True"
| "data_op (EPutBatch kvs) = True"
| "data_op (EBulkIngest kvs) = True"
| "data_op (EDelete k) = True"
| "data_op (EGet k) = True"
| "data_op (EScan a b) = True"
| "data_op EFlush = True"
| "data_op ESync = True"
| "data_op _ = False"

definition data_step :: "py_step \<Rightarrow> bool" where
  "data_step s = (case s of Main op \<Rightarrow> data_op op | Work w \<Rightarrow> True)"

definition main_ops :: "py_step list \<Rightarrow> engine_op list" where
  "main_ops ss = concat (map (\<lambda>s. case s of Main op \<Rightarrow> [op] | Work w \<Rightarrow> []) ss)"

definition agent_writes :: "py_step list \<Rightarrow> agent_write list" where
  "agent_writes ss = concat (map (\<lambda>s. case s of Main op \<Rightarrow> [] | Work w \<Rightarrow> [w]) ss)"

fun branch_effect :: "agent_write \<Rightarrow> (bytes \<rightharpoonup> bytes) \<Rightarrow> (bytes \<rightharpoonup> bytes)" where
  "branch_effect (Agent_Put path content) m = m(path \<mapsto> content)"
| "branch_effect (Agent_Delete path) m = m(path := None)"
| "branch_effect (Agent_Load records) m = m ++ map_of (rev records)"

lemma data_op_frame:
  assumes "data_op op"
  shows "spec_next op (s\<lparr>sp_snapshots := S\<rparr>) = (spec_next op s)\<lparr>sp_snapshots := S\<rparr>" "sp_snapshots (spec_next op s) = sp_snapshots s"
  using assms by (cases op; simp add: spec_update_def)+

lemma data_ops_frame:
  "list_all data_op ops \<Longrightarrow> sp_snapshots (fold spec_next ops s) = sp_snapshots s \<and>
     fold spec_next ops (s\<lparr>sp_snapshots := S\<rparr>) = (fold spec_next ops s)\<lparr>sp_snapshots := S\<rparr>"
  by (induction ops arbitrary: s) (simp_all add: data_op_frame)

lemma set_branch:
  assumes "engine_ok e" "hamt_ok h"
  shows "engine_ok (e\<lparr>en_snapshots := hm_insert name h (en_snapshots e)\<rparr>)"
    "engine_abs (e\<lparr>en_snapshots := hm_insert name h (en_snapshots e)\<rparr>) =
      (engine_abs e)\<lparr>sp_snapshots := (sp_snapshots (engine_abs e))(name \<mapsto> hamt_get h)\<rparr>"
proof -
  let ?e = "e\<lparr>en_snapshots := hm_insert name h (en_snapshots e)\<rparr>"
  have "states_ok ?e" using assms by (simp add: engine_ok_def states_ok_def)
  from state_change [OF assms(1) this] show "engine_ok ?e"
    "engine_abs ?e = (engine_abs e)\<lparr>sp_snapshots := (sp_snapshots (engine_abs e))(name \<mapsto> hamt_get h)\<rparr>"
    by (simp_all add: engine_abs_def fun_eq_iff map_of_hm_insert)
qed

lemma agent_do_effect:
  assumes "engine_ok e" "sp_snapshots (engine_abs e) (ag_name ag) = Some m" "agent_do ag w e = Some e1"
  shows "engine_ok e1 \<and> en_flush_count e1 = en_flush_count e \<and>
    engine_abs e1 = (engine_abs e)\<lparr>sp_snapshots := (sp_snapshots (engine_abs e))(ag_name ag \<mapsto> branch_effect w m)\<rparr>"
proof -
  from assms(2) obtain h where h: "map_of (en_snapshots e) (ag_name ag) = Some h" "hamt_get h = m" by auto
  have ok: "hamt_ok h" by (rule snapshot_ok [OF assms(1) h(1)])
  have "\<exists>h1. hamt_ok h1 \<and> hamt_get h1 = branch_effect w m \<and>
      e1 = e\<lparr>en_snapshots := hm_insert (ag_name ag) h1 (en_snapshots e)\<rparr>"
  proof (cases w)
    case (Agent_Put path content)
    with assms(3) h(1) obtain h1 where "hamt_put path content h = Some h1"
      "e1 = e\<lparr>en_snapshots := hm_insert (ag_name ag) h1 (en_snapshots e)\<rparr>"
      by (auto simp: agent_put_def ok_engine_def split: if_splits option.splits)
    with hamt_kv.put_ok [OF ok] hamt_kv.put_get [OF ok] h(2) Agent_Put show ?thesis
      by (intro exI [of _ h1]) auto
  next
    case (Agent_Delete path)
    with assms(3) h hamt_kv.delete_ok [OF ok] hamt_kv.delete_get [OF ok] show ?thesis
      by (intro exI [of _ "hamt_delete path h"]) (auto simp: agent_delete_def ok_engine_def)
  next
    case (Agent_Load records)
    with assms(3) h(1) obtain h1 where "put_all hamt_put records h = Some h1"
      "e1 = e\<lparr>en_snapshots := hm_insert (ag_name ag) h1 (en_snapshots e)\<rparr>"
      by (auto simp: agent_load_def ok_engine_def split: if_splits option.splits)
    with hamt_kv.put_all_ok [OF ok] hamt_kv.put_all_get [OF ok] h(2) Agent_Load show ?thesis
      by (intro exI [of _ h1]) auto
  qed
  with set_branch [OF assms(1)] show ?thesis by auto
qed

lemma py_run_count:
  assumes "py_run env ag ss e = Some e1"
  shows "en_flush_count e \<le> en_flush_count e1"
proof -
  have "en_flush_count e' = en_flush_count e" if "agent_do ag w e = Some e'" for w e e'
    using that by (cases w) (auto simp: ok_engine_def agent_put_def agent_delete_def agent_load_def split: if_splits option.splits)
  then have "en_flush_count e \<le> en_flush_count e'" if "py_do env ag s e = Some e'" for s e e'
    using that flush_count_mono by (cases s) (fastforce simp: Server_Transactions.catch_up_sel)+
  then show ?thesis using assms
    by (induction ss arbitrary: e) (fastforce simp: bind_eq_Some_conv intro: le_trans)+
qed

text \<open>The calls of others act on the store as if the agent were absent, and the agent's writes on its branch alone.\<close>

lemma py_run_spec:
  assumes "engine_ok e" "sp_snapshots (engine_abs e) (ag_name ag) = Some m" "list_all data_step ss"
    "py_run env ag ss e = Some e1" "en_flush_count e1 < 4"
  shows "engine_ok e1 \<and> engine_abs e1 = (fold spec_next (main_ops ss) (engine_abs e))
    \<lparr>sp_snapshots := (sp_snapshots (engine_abs e))(ag_name ag \<mapsto> fold branch_effect (agent_writes ss) m)\<rparr>"
  using assms
proof (induction ss arbitrary: e m)
  case Nil
  then show ?case by (simp add: main_ops_def agent_writes_def fun_upd_idem del: engine_abs_sel)
next
  case (Cons s ss)
  then obtain e' where e': "py_do env ag s e = Some e'" "py_run env ag ss e' = Some e1" by (auto simp: bind_eq_Some_conv)
  have few: "en_flush_count e' < 4" using py_run_count [OF e'(2)] Cons.prems(5) by simp
  have data: "list_all data_step ss" "list_all data_op (main_ops ss)"
    using Cons.prems(3) by (auto simp: main_ops_def data_step_def list_all_iff split: py_step.splits)
  show ?case
  proof (cases s)
    case (Main op)
    with e'(1) obtain out e2 where "engine_do env op e = Some (out, e2)" "e' = catch_up env e2" by auto
    with engine_do_simulates [OF Cons.prems(1)] few have s: "engine_ok e'" "engine_abs e' = spec_next op (engine_abs e)"
      by (auto simp: simulates_def)
    have op: "data_op op" using Cons.prems(3) Main by (simp add: data_step_def)
    with s(2) have same: "sp_snapshots (engine_abs e') = sp_snapshots (engine_abs e)" by (simp only: data_op_frame)
    have "engine_ok e1 \<and> engine_abs e1 = (fold spec_next (main_ops ss) (engine_abs e'))
        \<lparr>sp_snapshots := (sp_snapshots (engine_abs e'))(ag_name ag \<mapsto> fold branch_effect (agent_writes ss) m)\<rparr>"
      using Cons.prems(2) by (intro Cons.IH s(1) data(1) e'(2) Cons.prems(5)) (simp only: same)
    moreover have "main_ops (s # ss) = op # main_ops ss" "agent_writes (s # ss) = agent_writes ss"
      by (simp_all add: main_ops_def agent_writes_def Main)
    ultimately show ?thesis unfolding s(2) by (simp only: fold_Cons comp_apply data_op_frame(2) [OF op] simp_thms)
  next
    case (Work w)
    with e'(1) have "agent_do ag w e = Some e'" by simp
    note w = agent_do_effect [OF Cons.prems(1,2) this]
    let ?S = "(sp_snapshots (engine_abs e))(ag_name ag \<mapsto> branch_effect w m)"
    from w have S: "sp_snapshots (engine_abs e') = ?S" by (metis store_spec.select_convs(3) store_spec.surjective store_spec.update_convs(3))
    have "engine_ok e1 \<and> engine_abs e1 = (fold spec_next (main_ops ss) (engine_abs e'))
        \<lparr>sp_snapshots := (sp_snapshots (engine_abs e'))(ag_name ag \<mapsto> fold branch_effect (agent_writes ss) (branch_effect w m))\<rparr>"
      by (intro Cons.IH conjunct1 [OF w] data(1) e'(2) Cons.prems(5)) (simp only: S fun_upd_same)
    moreover have "fold spec_next (main_ops ss) (engine_abs e') = (fold spec_next (main_ops ss) (engine_abs e))\<lparr>sp_snapshots := ?S\<rparr>"
      using w data_ops_frame [OF data(2)] by simp
    moreover have "main_ops (s # ss) = main_ops ss" "agent_writes (s # ss) = w # agent_writes ss"
      by (simp_all add: main_ops_def agent_writes_def Work)
    moreover have "(st\<lparr>sp_snapshots := A\<rparr>)\<lparr>sp_snapshots := B\<rparr> = st\<lparr>sp_snapshots := B\<rparr>" for st :: store_spec and A B by simp
    ultimately show ?thesis by (simp only: S fun_upd_upd fold_Cons comp_apply simp_thms)
  qed
qed

lemma create_agent_branch:
  assumes "engine_ok e" "create_agent name e = (Inr ag, e0)"
  shows "ag = \<lparr>ag_name = name, ag_finished = False\<rparr>" "engine_ok e0" "en_flush_count e0 = en_flush_count e"
    "engine_abs e0 = (engine_abs e)\<lparr>sp_snapshots := (sp_snapshots (engine_abs e))(name \<mapsto> hamt_get (en_state e))\<rparr>"
proof -
  from assms(2) have e0: "e0 = e\<lparr>en_snapshots := hm_insert name (en_state e) (en_snapshots e)\<rparr>"
    and "ag = \<lparr>ag_name = name, ag_finished = False\<rparr>"
    by (auto simp: create_agent_def branch_create_def hamt_snapshot_def split: option.splits)
  moreover have "hamt_ok (en_state e)" using assms(1) by (simp add: engine_ok_def states_ok_def)
  ultimately show "ag = \<lparr>ag_name = name, ag_finished = False\<rparr>" "engine_ok e0" "en_flush_count e0 = en_flush_count e"
    "engine_abs e0 = (engine_abs e)\<lparr>sp_snapshots := (sp_snapshots (engine_abs e))(name \<mapsto> hamt_get (en_state e))\<rparr>"
    using set_branch [OF assms(1)] by simp_all
qed

text \<open>Reading after a merge: the branch over the data.\<close>

lemma merged_reads:
  assumes "engine_ok e" "map_of (en_snapshots e) name = Some h" "merge_branch env name e = Some (Inr n, e1)"
  shows "fst (engine_get k e1) = (case hamt_get h k of Some v \<Rightarrow> Some v | None \<Rightarrow> engine_map e k)"
proof -
  from assms(3) have "branch_merge env name e = Some (Inr (n, e1))"
    by (cases "branch_merge env name e") (auto simp: merge_branch_def split: sum.splits prod.splits)
  from branch_merge_cases [OF this] assms(2) obtain e2 where "put_all (merge_write env) (hamt_iter h) e = Some e2"
    "e1 = e2\<lparr>en_snapshots := bt_remove name (en_snapshots e2)\<rparr>" by auto
  from get_after_merge(2,3) [OF assms(1) snapshot_ok [OF assms(1,2)] this] show ?thesis
    by (simp add: map_add_def)
qed

section \<open>Properties\<close>

text \<open>
  (C21) The isolation of an agent, exactly. While an agent writes and other clients read, write and flush,
  in any order, the others see their own writes alone. The agent sees its own writes over the persistent
  state at its creation, and where it has no value, also where it deleted the key, the current data of
  the others. Discarding leaves the data as the others wrote it. Committing returns when no two keys of the
  branch and the persistent state share a hash, and lays everything the agent's branch holds over the data, values from the agent's creation included, so it reverts what the others wrote to those
  keys meanwhile; it deletes nothing.
\<close>

theorem agent_isolation:
  assumes "engine_ok e" "create_agent name e = (Inr ag, e0)" "list_all data_step ss" "py_run env ag ss e0 = Some e1"
    "en_flush_count e1 < 4"
  shows "let branch = fold branch_effect (agent_writes ss) (hamt_get (en_state e));
      main = sp_live (fold spec_next (main_ops ss) (engine_abs e));
      merged = (\<lambda>k. case branch k of Some v \<Rightarrow> Some v | None \<Rightarrow> main k)
    in (\<forall>k. fst (engine_get k e1) = main k) \<and>
       (\<forall>k. fst (agent_get fl ag k e1) = map_option (plain_doc fl k) (merged k)) \<and>
       (\<forall>k. fst (engine_get k (snd (agent_discard ag e1))) = main k) \<and>
       (inj_on fnv1a (dom branch \<union> dom (hamt_get (en_state e1))) \<longrightarrow>
          (\<exists>n ag' e2. agent_commit env ag e1 = Some (Inr n, ag', e2))) \<and>
       (\<forall>n ag' e2. agent_commit env ag e1 = Some (Inr n, ag', e2) \<longrightarrow>
          ag_finished ag' \<and> (\<forall>k. fst (engine_get k e2) = merged k))"
proof -
  let ?branch = "fold branch_effect (agent_writes ss) (hamt_get (en_state e))"
  let ?main = "sp_live (fold spec_next (main_ops ss) (engine_abs e))"
  note c = create_agent_branch [OF assms(1,2)]
  have data: "list_all data_op (main_ops ss)"
    using assms(3) by (auto simp: main_ops_def data_step_def list_all_iff split: py_step.splits)
  have "sp_snapshots (engine_abs e0) (ag_name ag) = Some (hamt_get (en_state e))"
    unfolding c(4) by (simp add: c(1))
  note r = py_run_spec [OF c(2) this assms(3-5)]
  then have ok: "engine_ok e1" by simp
  from r have "sp_live (engine_abs e1) = ?main" "sp_snapshots (engine_abs e1) name = Some ?branch"
    using data_ops_frame [OF data] by (simp_all add: c(1,4) del: engine_abs_sel)
  then have main: "engine_map e1 = ?main" and branch: "\<exists>h. map_of (en_snapshots e1) name = Some h \<and> hamt_get h = ?branch"
    by auto
  then obtain h where h: "map_of (en_snapshots e1) name = Some h" "hamt_get h = ?branch" by blast
  have reads: "fst (engine_get k e1) = ?main k" for k
    using engine_get_reads ok by (simp add: engine_ok_def main)
  moreover have "fst (agent_get fl ag k e1) = map_option (plain_doc fl k) (case ?branch k of Some v \<Rightarrow> Some v | None \<Rightarrow> ?main k)" for k
    using reads [of k] h by (auto simp: agent_get_def snapshot_get_def c(1) split: option.splits prod.splits)
  moreover have "fst (engine_get k (snd (agent_discard ag e1))) = ?main k" for k
  proof -
    have d: "snd (agent_discard ag e1) = e1\<lparr>en_snapshots := bt_remove name (en_snapshots e1)\<rparr>"
      by (simp add: agent_discard_def branch_rollback_def c(1))
    have "states_ok (e1\<lparr>en_snapshots := bt_remove name (en_snapshots e1)\<rparr>)"
      using ok by (simp add: engine_ok_def states_ok_def)
    from state_change(1,2) [OF ok this] engine_get_reads show ?thesis by (simp add: d engine_ok_def main)
  qed
  moreover have "\<exists>n ag' e2. agent_commit env ag e1 = Some (Inr n, ag', e2)"
    if "inj_on fnv1a (dom ?branch \<union> dom (hamt_get (en_state e1)))"
    using branch_merge_returns [OF ok h(1), of env] that by (auto simp: h(2) agent_commit_def merge_branch_def c(1))
  moreover have "ag_finished ag' \<and> (\<forall>k. fst (engine_get k e2) = (case ?branch k of Some v \<Rightarrow> Some v | None \<Rightarrow> ?main k))"
    if "agent_commit env ag e1 = Some (Inr n, ag', e2)" for n ag' e2
  proof -
    from that have m: "merge_branch env name e1 = Some (Inr n, e2)" "ag' = ag\<lparr>ag_finished := True\<rparr>"
      by (cases "merge_branch env name e1"; auto simp: agent_commit_def c(1) split: sum.splits prod.splits)+
    with merged_reads [OF ok h(1) m(1)] show ?thesis unfolding h(2) main by simp
  qed
  ultimately show ?thesis unfolding Let_def by blast
qed

theorem agent_isolation_witness:
  "\<exists>ag e0 e1. create_agent [98] (fresh_engine 1000) = (Inr ag, e0) \<and> py_run plain_env ag [Work (Agent_Put [1] [7])] e0 = Some e1 \<and>
     fst (engine_get [1] e1) = None \<and> fst (agent_get nat_floats ag [1] e1) = Some (plain_doc nat_floats [1] [7])"
proof -
  let ?e = "fresh_engine 1000" and ?ag = "\<lparr>ag_name = [98], ag_finished = False\<rparr>"
  have st: "en_state ?e = hamt_new" "en_snapshots ?e = []" by (simp_all add: fresh_engine_def)
  obtain e0 where e0: "create_agent [98] ?e = (Inr ?ag, e0)" "e0 = ?e\<lparr>en_snapshots := [([98], hamt_new)]\<rparr>"
    by (simp add: create_agent_def branch_create_def hamt_snapshot_def st hm_insert_def bt_remove_def)
  obtain e1 where e1: "py_run plain_env ?ag [Work (Agent_Put [1] [7])] e0 = Some e1"
    by (simp add: e0(2) agent_put_def ok_engine_def one_key_put)
  have "en_flush_count e1 < 4"
    using e1 by (simp add: e0(2) agent_put_def ok_engine_def one_key_put fresh_engine_def, auto)
  moreover have "list_all data_step [Work (Agent_Put [1] [7])]" by (simp add: data_step_def)
  ultimately show ?thesis
    using agent_isolation [OF engine_ok_fresh e0(1) _ e1, of nat_floats] e0(1) e1 engine_abs_fresh [of 1000]
    by (auto simp: Let_def agent_writes_def main_ops_def st empty_store_def simp flip: engine_abs_sel(1))
qed

text \<open>
  (C33) A branch workspace undoes its own work: its writes go to the live data, not to the branch, so
  merging it lays the data from its creation over them. A key that existed when the branch was
  created reads as it did then, whatever the workspace wrote to it.
\<close>

theorem branch_workspace_merge_reverts:
  assumes "engine_ok e" "client_branch name (ascii ''main'') (Some e) = Some (Inr ws, Some e0)"
    "hamt_get (en_state e) path = Some old" "ws_put env path content e0 = Some e1" "en_flush_count e1 < 4"
    "ws_merge_to_main env ws (catch_up env e1) = Some (Inr n, e2)"
  shows "fst (engine_get path (catch_up env e1)) = Some content \<and> fst (engine_get path e2) = Some old"
proof -
  from assms(2) have e0: "e0 = e\<lparr>en_snapshots := hm_insert name (en_state e) (en_snapshots e)\<rparr>"
    and ws: "ws = \<lparr>ws_branch_name = name, ws_is_branch = True\<rparr>"
    by (auto simp: client_branch_def on_engine_def branch_create_def hamt_snapshot_def split: sum.splits option.splits)
  have "hamt_ok (en_state e)" using assms(1) by (simp add: engine_ok_def states_ok_def)
  note s = set_branch [OF assms(1) this, of name, folded e0]
  have go: "engine_do env (EPut path content) e0 = Some (ODone, e1)" using assms(4) by (simp add: ws_put_def)
  from engine_do_simulates [OF s(1) go] assms(5) have sim: "engine_ok (catch_up env e1)"
    "engine_abs (catch_up env e1) = spec_next (EPut path content) (engine_abs e0)" by (simp_all add: simulates_def)
  have "sp_live (engine_abs (catch_up env e1)) path = Some content" unfolding sim(2) by (simp add: spec_update_def)
  then have live: "engine_map (catch_up env e1) path = Some content" by simp
  have "sp_snapshots (engine_abs (catch_up env e1)) name = Some (hamt_get (en_state e))"
    unfolding sim(2) by (simp add: spec_update_def s(2) del: engine_abs_sel)
  then obtain h where h: "map_of (en_snapshots (catch_up env e1)) name = Some h" "hamt_get h = hamt_get (en_state e)" by auto
  have "merge_branch env name (catch_up env e1) = Some (Inr n, e2)" using assms(6) by (simp add: ws_merge_to_main_def ws)
  from merged_reads [OF sim(1) h(1) this] h(2) assms(3) live engine_get_reads sim(1) show ?thesis
    by (simp add: engine_ok_def)
qed

lemma reverting_branch:
  obtains e e0 ws e1 n e2 where "engine_ok e" "client_branch [99] (ascii ''main'') (Some e) = Some (Inr ws, Some e0)"
    "hamt_get (en_state e) [1] = Some [7]" "ws_put plain_env [1] [9] e0 = Some e1" "en_flush_count e1 < 4"
    "ws_merge_to_main plain_env ws (catch_up plain_env e1) = Some (Inr n, e2)"
proof -
  let ?e = "branch_engine\<lparr>en_state := one_key\<rparr>" and ?ws = "\<lparr>ws_branch_name = [99], ws_is_branch = True\<rparr>"
  have "states_ok ?e" using branch_engine_ok by (simp add: engine_ok_def states_ok_def)
  from state_change(1) [OF branch_engine_ok this] have ok: "engine_ok ?e" by simp
  obtain e0 where e0: "client_branch [99] (ascii ''main'') (Some ?e) = Some (Inr ?ws, Some e0)"
    "e0 = ?e\<lparr>en_snapshots := hm_insert [99] one_key (en_snapshots ?e)\<rparr>"
    by (simp add: client_branch_def on_engine_def branch_create_def hamt_snapshot_def)
  note s = set_branch [OF ok one_key_ok(1), of "[99]", folded e0(2)]
  have dom: "dom (hamt_get one_key) = {[1]}" by (auto split: if_splits)
  have "en_state e0 = one_key" by (simp add: e0(2))
  with hamt_hashed.put_returns [OF one_key_ok(1), of "[1]" "[9]"] dom
  obtain e1 where e1: "engine_put plain_env [1] [9] e0 = Some e1"
    by (cases "engine_put plain_env [1] [9] e0") (auto simp: engine_put_None)
  have few: "en_flush_count e1 < 4"
    using flush_count_step [of plain_env "EPut [1] [9]" e0 ODone e1] e1 by (simp add: e0(2) branch_engine_def)
  have go: "engine_do plain_env (EPut [1] [9]) e0 = Some (ODone, e1)" using e1 by simp
  from engine_do_simulates [OF s(1) go] few have sim: "engine_ok (catch_up plain_env e1)"
    "engine_abs (catch_up plain_env e1) = spec_next (EPut [1] [9]) (engine_abs e0)" by (simp_all add: simulates_def)
  have "sp_snapshots (engine_abs (catch_up plain_env e1)) [99] = Some (hamt_get one_key)"
    unfolding sim(2) by (simp add: spec_update_def s(2) del: engine_abs_sel)
  moreover have "sp_state (engine_abs (catch_up plain_env e1)) = (hamt_get one_key)([1] \<mapsto> [9])"
    unfolding sim(2) using \<open>en_state e0 = one_key\<close> by (simp add: spec_update_def)
  ultimately obtain h where h: "map_of (en_snapshots (catch_up plain_env e1)) [99] = Some h" "hamt_get h = hamt_get one_key"
    "hamt_get (en_state (catch_up plain_env e1)) = (hamt_get one_key)([1] \<mapsto> [9])" by auto
  have "dom (hamt_get h) \<union> dom (hamt_get (en_state (catch_up plain_env e1))) = {[1]}" unfolding h dom_fun_upd dom by simp
  with branch_merge_returns [OF sim(1) h(1), of plain_env] obtain n e2 where
    "branch_merge plain_env [99] (catch_up plain_env e1) = Some (Inr (n, e2))" by auto
  then have "ws_merge_to_main plain_env ?ws (catch_up plain_env e1) = Some (Inr n, e2)"
    by (simp add: ws_merge_to_main_def merge_branch_def)
  with ok e0(1) e1 few show thesis by (intro that [of ?e ?ws e0 e1 n e2]) (simp_all add: ws_put_def)
qed

theorem branch_workspace_merge_reverts_witness:
  "\<exists>e e0 ws e1 n e2. client_branch [99] (ascii ''main'') (Some e) = Some (Inr ws, Some e0) \<and>
     ws_put plain_env [1] [9] e0 = Some e1 \<and> ws_merge_to_main plain_env ws (catch_up plain_env e1) = Some (Inr n, e2) \<and>
     fst (engine_get [1] (catch_up plain_env e1)) = Some [9] \<and> fst (engine_get [1] e2) = Some [7]"
proof -
  obtain e e0 ws e1 n e2 where r: "engine_ok e" "client_branch [99] (ascii ''main'') (Some e) = Some (Inr ws, Some e0)"
    "hamt_get (en_state e) [1] = Some [7]" "ws_put plain_env [1] [9] e0 = Some e1" "en_flush_count e1 < 4"
    "ws_merge_to_main plain_env ws (catch_up plain_env e1) = Some (Inr n, e2)" by (rule reverting_branch)
  from branch_workspace_merge_reverts [OF r] r(2,4,6) show ?thesis by blast
qed

end
