(* ===== verification/Connection.thy ===== *)
theory Connection
  imports Server
begin

text \<open>
  The server binary \<^verbatim>\<open>src/bin/uldb.rs\<close>: command line, authentication of a connection and its request loop.
  The protocol package \<^verbatim>\<open>ulmp\<close> is the parameter \<open>wire\<close>: opcodes, decoders, the keyed hash, the store of
  nonces and the dispatch to a handler. A connection reads a list of events and sends a list of frames;
  sockets, TLS, threads and the accept loop are left out. The lemmas show that the handler is reached
  after a correct proof of the token only, and that frames are numbered in a row.
\<close>

section \<open>Definitions\<close>

definition conn_enc_field :: "u8 \<times> bytes \<Rightarrow> bytes" where
  "conn_enc_field fd =
     (case fd of (tag, data) \<Rightarrow>
        tag #
        (if tag = TAG_U8 then (if data \<noteq> [] then [hd data] else [])
         else if tag = TAG_U32 \<or> tag = TAG_U64 then data
         else if tag = TAG_BYTES \<or> tag = TAG_STRING then to_be 4 (of_nat (length data) :: u32) @ data
         else []))"

definition conn_enc :: "(u8 \<times> bytes) list \<Rightarrow> bytes" where
  "conn_enc fs = concat (map conn_enc_field fs) @ [TAG_END]"

record 'op frame =
  fr_opcode :: 'op
  fr_stream_id :: u16
  fr_seq :: u32
  fr_payload :: bytes

datatype 'op reply = Reply "'op response" | Disconnect 'op bytes

record ('op, 'ns, 'h) wire =
  OP_CHALLENGE :: 'op
  OP_HELLO :: 'op
  OP_WELCOME :: 'op
  OP_PING :: 'op
  OP_PONG :: 'op
  OP_GOODBYE :: 'op
  OP_FAIL :: 'op \<comment> \<open>\<open>OP_ERROR\<close>\<close>
  wi_hmac :: "bytes \<Rightarrow> bytes \<Rightarrow> bytes"
  wi_hello :: "bytes \<Rightarrow> bytes option" \<comment> \<open>the token hash of a HELLO payload\<close>
  wi_pong :: "bytes \<Rightarrow> bytes option" \<comment> \<open>the reply to a PING payload\<close>
  wi_consume :: "bytes \<Rightarrow> 'ns \<Rightarrow> bool \<times> 'ns"
  wi_dispatch :: "'op \<Rightarrow> bytes \<Rightarrow> 'h \<Rightarrow> ((str + 'op reply) \<times> 'h) option"

definition send_frame :: "'op \<Rightarrow> u16 \<Rightarrow> u32 \<Rightarrow> bytes \<Rightarrow> 'op frame" where
  "send_frame opcode stream_id seq payload =
     \<lparr>fr_opcode = opcode, fr_stream_id = stream_id, fr_seq = seq, fr_payload = payload\<rparr>"

text \<open>What the connection meets next: a frame from the client, or the shutdown flag. No more events: the client is gone.\<close>

datatype 'op event = Shutdown | Incoming "'op frame"

text \<open>The comparison that looks at all bytes, and the check of the length.\<close>

definition token_diff :: "bytes \<Rightarrow> bytes \<Rightarrow> u8" where
  "token_diff expected token_hash = fold (\<lambda>(a, b) diff. diff OR (a XOR b)) (zip expected token_hash) 0"

definition token_accepted :: "bytes \<Rightarrow> bytes \<Rightarrow> bool" where
  "token_accepted expected token_hash = (\<not> (token_diff expected token_hash \<noteq> 0 \<or> length token_hash \<noteq> 32))"

definition decode_error_payload :: "str \<Rightarrow> bytes" where
  "decode_error_payload err =
     conn_enc [(TAG_U8, [0x21]), (TAG_U32, to_be 4 (0 :: u32)), (TAG_STRING, ascii ''decode error: '' @ err)]"

fun number_frames :: "u16 \<Rightarrow> u32 \<Rightarrow> ('op \<times> bytes) list \<Rightarrow> 'op frame list" where
  "number_frames sid seq [] = []"
| "number_frames sid seq ((op, p) # frames) = send_frame op sid seq p # number_frames sid (seq + 1) frames"

text \<open>One reply: the frames sent, the next number, and whether the loop goes on.\<close>

fun send_reply :: "u16 \<Rightarrow> u32 \<Rightarrow> 'op reply \<Rightarrow> 'op frame list \<times> u32 \<times> bool" where
  "send_reply sid seq (Reply (Single op p)) = ([send_frame op sid seq p], seq + 1, True)"
| "send_reply sid seq (Reply (Stream frames)) = (number_frames sid seq frames, seq + of_nat (length frames), True)"
| "send_reply sid seq (Reply No_Response) = ([], seq, True)"
| "send_reply sid seq (Disconnect op p) = ([send_frame op sid seq p], seq, False)"

fun serve :: "('op, 'ns, 'h) wire \<Rightarrow> u32 \<Rightarrow> 'op event list \<Rightarrow> 'h \<Rightarrow> ('op frame list \<times> 'h) option" where
  "serve w seq [] h = Some ([], h)"
| "serve w seq (Shutdown # evs) h = Some ([], h)"
| "serve w seq (Incoming f # evs) h =
     (if fr_opcode f = OP_PING w
      then map_option (\<lambda>(out, h1). (send_frame (OP_PONG w) (fr_stream_id f) seq
               (case wi_pong w (fr_payload f) of Some p \<Rightarrow> p | None \<Rightarrow> fr_payload f) # out, h1))
             (serve w (seq + 1) evs h)
      else if fr_opcode f = OP_GOODBYE w then Some ([], h)
      else (case wi_dispatch w (fr_opcode f) (fr_payload f) h of
              None \<Rightarrow> None
            | Some (r, h1) \<Rightarrow>
                (let reply = (case r of Inr resp \<Rightarrow> resp | Inl err \<Rightarrow> Reply (Single (OP_FAIL w) (decode_error_payload err)));
                     (sent, seq1, go) = send_reply (fr_stream_id f) seq reply
                 in if go then map_option (\<lambda>(out, h2). (sent @ out, h2)) (serve w seq1 evs h1) else Some (sent, h1))))"

definition welcome_payload :: "u64 \<Rightarrow> str \<Rightarrow> bytes" where
  "welcome_payload session_id server_name =
     conn_enc [(TAG_U64, to_be 8 session_id), (TAG_STRING, server_name), (TAG_U32, to_be 4 (64 * 1024 * 1024 :: u32)),
       (TAG_U32, to_be 4 (128 :: u32))]"

text \<open>The first frame of the client: a HELLO that proves the token.\<close>

definition hello_ok :: "('op, 'ns, 'h) wire \<Rightarrow> bytes \<Rightarrow> bytes \<Rightarrow> 'op frame \<Rightarrow> bool" where
  "hello_ok w token nonce f =
     (fr_opcode f = OP_HELLO w \<and>
      (case wi_hello w (fr_payload f) of
         None \<Rightarrow> False
       | Some token_hash \<Rightarrow> token_accepted (wi_hmac w token nonce) token_hash))"

text \<open>The nonce is \<open>None\<close> when the system has no entropy; a flag set before the first frame is only seen after it.\<close>

definition handle_connection ::
  "('op, 'ns, 'h) wire \<Rightarrow> bytes \<Rightarrow> bytes option \<Rightarrow> u64 \<Rightarrow> str \<Rightarrow> 'op frame option \<Rightarrow> 'op event list \<Rightarrow> 'ns \<Rightarrow> 'h \<Rightarrow>
   ('op frame list \<times> 'ns \<times> 'h) option" where
  "handle_connection w token nonce session_id server_name first evs store h =
     (case nonce of
        None \<Rightarrow> Some ([], store, h)
      | Some n \<Rightarrow>
          (let challenge = send_frame (OP_CHALLENGE w) 0 0 (conn_enc [(TAG_BYTES, n)])
           in case first of
                None \<Rightarrow> Some ([challenge], store, h)
              | Some f \<Rightarrow>
                  if \<not> hello_ok w token n f then Some ([challenge], store, h)
                  else (let (fresh, store1) = wi_consume w n store
                        in if \<not> fresh then Some ([challenge], store1, h)
                           else map_option (\<lambda>(out, h1).
                                    (challenge # send_frame (OP_WELCOME w) 0 0 (welcome_payload session_id server_name) # out, store1, h1))
                                  (serve w 1 evs h))))"

subsection \<open>Command line\<close>

datatype exit_or = Exit_With nat | Serve u16 str str

definition parse_u16 :: "str \<Rightarrow> u16 option" where
  "parse_u16 s = (case parse_usize s of None \<Rightarrow> None | Some n \<Rightarrow> if n < 2 ^ 16 then Some (of_nat n) else None)"

fun parse_opts :: "str list \<Rightarrow> u16 \<Rightarrow> str \<Rightarrow> str \<Rightarrow> exit_or" where
  "parse_opts [] port data_dir token = (if token = [] then Exit_With 1 else Serve port data_dir token)"
| "parse_opts (arg # args) port data_dir token =
     (if arg = ascii ''--port''
      then parse_opts (tl args) (case args of [] \<Rightarrow> 7771 | s # _ \<Rightarrow> (case parse_u16 s of Some p \<Rightarrow> p | None \<Rightarrow> 7771)) data_dir token
      else if arg = ascii ''--data''
      then parse_opts (tl args) port (case args of [] \<Rightarrow> data_dir | d # _ \<Rightarrow> d) token
      else if arg = ascii ''--token''
      then parse_opts (tl args) port data_dir (case args of [] \<Rightarrow> token | t # _ \<Rightarrow> t)
      else Exit_With 1)"

definition parse_args :: "str list \<Rightarrow> exit_or" where
  "parse_args args =
     (if length args < 2 \<or> args ! 1 = ascii ''--help'' \<or> args ! 1 = ascii ''-h'' then Exit_With 0
      else if args ! 1 \<noteq> ascii ''serve'' then Exit_With 1
      else parse_opts (drop 2 args) 7771 (ascii ''./data'') [])"

section \<open>Lemmas\<close>

text \<open>On the fields it knows the encoder agrees with the one of the handlers.\<close>

lemma conn_enc_agrees: "TAG_F64 \<notin> fst ` set fs \<Longrightarrow> conn_enc fs = enc fs"
proof -
  assume no_float: "TAG_F64 \<notin> fst ` set fs"
  have "conn_enc_field fd = enc_field fd" if "fst fd \<noteq> TAG_F64" for fd
    using that by (cases fd) (simp add: conn_enc_field_def enc_field_def)
  with no_float have "map conn_enc_field fs = map enc_field fs" by (intro map_cong refl) (metis image_eqI)
  then show "conn_enc fs = enc fs" by (simp only: conn_enc_def enc_def)
qed

lemma or_xor_zero: "d OR (a XOR b) = 0 \<longleftrightarrow> d = 0 \<and> a = (b :: u8)"
proof -
  have "a XOR b = 0 \<longleftrightarrow> a = b" by (metis xor.assoc xor.left_neutral xor_self_eq xor.right_neutral)
  then show ?thesis by (simp add: or_eq_0_iff)
qed

lemma token_diff_zero: "token_diff expected token_hash = 0 \<longleftrightarrow> (\<forall>(a, b) \<in> set (zip expected token_hash). a = b)"
proof -
  have "fold (\<lambda>(a, b) diff. diff OR (a XOR b)) xs d = (0 :: u8) \<longleftrightarrow> d = 0 \<and> (\<forall>(a, b) \<in> set xs. a = b)" for xs d
    by (induction xs arbitrary: d) (auto simp: or_xor_zero)
  then show ?thesis by (simp add: token_diff_def)
qed

lemma token_accepted_iff:
  assumes "length expected = 32"
  shows "token_accepted expected token_hash \<longleftrightarrow> token_hash = expected"
proof
  assume "token_accepted expected token_hash"
  then have "length token_hash = 32" "\<forall>(a, b) \<in> set (zip expected token_hash). a = b"
    by (auto simp: token_accepted_def token_diff_zero)
  with assms show "token_hash = expected"
    by (intro nth_equalityI) (force simp: in_set_zip)+
next
  assume "token_hash = expected"
  with assms show "token_accepted expected token_hash" by (auto simp: token_accepted_def token_diff_zero in_set_zip)
qed

lemma numbered: "map fr_seq (number_frames sid seq frames) = map (\<lambda>i. seq + of_nat i) [0..<length frames]"
proof (induction frames arbitrary: seq)
  case (Cons f frames)
  obtain op p where "f = (op, p)" by fastforce
  with Cons [of "seq + 1"] show ?case
    by (simp add: send_frame_def upt_conv_Cons map_Suc_upt [symmetric] comp_def add.assoc del: upt_Suc)
qed simp

lemma length_number_frames [simp]: "length (number_frames sid seq frames) = length frames"
  by (induction sid seq frames rule: number_frames.induct) simp_all

lemma send_reply_seq:
  assumes "send_reply sid seq r = (sent, seq1, go)"
  shows "map fr_seq sent = map (\<lambda>i. seq + of_nat i) [0..<length sent]" "go \<Longrightarrow> seq1 = seq + of_nat (length sent)"
  using assms by (cases "(sid, seq, r)" rule: send_reply.cases; auto simp: send_frame_def numbered)+

lemma upt_shift: "map (\<lambda>i. seq + of_nat i) [0..<m + n] =
    map (\<lambda>i. seq + of_nat i) [0..<m] @ map (\<lambda>i. seq + of_nat m + of_nat i) [0..<n]" for seq :: u32
proof (rule nth_equalityI)
  fix i assume "i < length (map (\<lambda>i. seq + of_nat i) [0..<m + n])"
  then show "map (\<lambda>i. seq + of_nat i) [0..<m + n] ! i =
      (map (\<lambda>i. seq + of_nat i) [0..<m] @ map (\<lambda>i. seq + of_nat m + of_nat i) [0..<n]) ! i"
    using less_diff_conv2 [of m i n] by (cases "i < m") (simp_all add: nth_append add.assoc add.commute [of n] flip: of_nat_add)
qed simp

lemma serve_seq:
  "serve w seq evs h = Some (out, h') \<Longrightarrow> map fr_seq out = map (\<lambda>i. seq + of_nat i) [0..<length out]"
proof (induction w seq evs h arbitrary: out rule: serve.induct)
  case (3 w seq f evs h)
  show ?case
  proof (cases "fr_opcode f = OP_PING w")
    case True
    with "3.prems" obtain rest where r: "serve w (seq + 1) evs h = Some (rest, h')"
      "out = send_frame (OP_PONG w) (fr_stream_id f) seq (case wi_pong w (fr_payload f) of Some p \<Rightarrow> p | None \<Rightarrow> fr_payload f) # rest"
      by auto
    from "3.IH"(1) [OF True r(1)] upt_shift [of seq 1 "length rest"] show ?thesis by (simp add: r(2) send_frame_def)
  next
    case ping: False
    show ?thesis
    proof (cases "fr_opcode f = OP_GOODBYE w")
      case False
      with ping "3.prems" obtain r h1 where d: "wi_dispatch w (fr_opcode f) (fr_payload f) h = Some (r, h1)"
        by (auto split: option.splits)
      let ?reply = "case r of Inr resp \<Rightarrow> resp | Inl err \<Rightarrow> Reply (Single (OP_FAIL w) (decode_error_payload err))"
      obtain sent seq1 go where s: "send_reply (fr_stream_id f) seq ?reply = (sent, seq1, go)" by (metis prod_cases3)
      note q = send_reply_seq [OF s]
      show ?thesis
      proof (cases go)
        case True
        with ping False d s "3.prems" obtain rest where rest: "serve w seq1 evs h1 = Some (rest, h')" "out = sent @ rest"
          by (auto simp: Let_def)
        from "3.IH"(2) [OF ping False d _ refl s [symmetric] refl refl True rest(1)] q True upt_shift [of seq "length sent" "length rest"]
        show ?thesis by (simp add: rest(2))
      qed (use ping False d s "3.prems" q in \<open>auto simp: Let_def\<close>)
    qed (use ping "3.prems" in simp)
  qed
qed simp_all

text \<open>The server never starts without a token.\<close>

lemma parse_opts_token: "parse_opts args port data_dir token = Serve p d t \<Longrightarrow> t \<noteq> []"
  by (induction args port data_dir token rule: parse_opts.induct) (auto split: if_splits)

lemma parse_args_token: "parse_args args = Serve p d t \<Longrightarrow> t \<noteq> []"
  by (auto simp: parse_args_def split: if_splits dest: parse_opts_token)

section \<open>Properties\<close>

text \<open>
  (C22) Authentication: with a keyed hash of 32 bytes, a connection is served exactly when its first frame
  is a HELLO that carries the keyed hash of the nonce under the token, and the nonce is consumed for the first
  time. Then the client gets the challenge, the welcome and the frames of the request loop, numbered in a row from one and
  wrapping at 32 bits. In every other case the client gets at most the challenge and the handler is not reached.
\<close>

theorem connection_authenticated:
  assumes "\<And>t n. length (wi_hmac w t n) = 32"
    "handle_connection w token (Some nonce) session_id server_name first evs store h = Some (out, store', h')"
  shows "if (\<exists>f. first = Some f \<and> fr_opcode f = OP_HELLO w \<and> wi_hello w (fr_payload f) = Some (wi_hmac w token nonce)) \<and>
        fst (wi_consume w nonce store)
    then (\<exists>served. serve w 1 evs h = Some (served, h') \<and>
        out = [send_frame (OP_CHALLENGE w) 0 0 (conn_enc [(TAG_BYTES, nonce)]),
               send_frame (OP_WELCOME w) 0 0 (welcome_payload session_id server_name)] @ served \<and>
        map fr_seq served = map (\<lambda>i. 1 + of_nat i) [0..<length served])
    else out = [send_frame (OP_CHALLENGE w) 0 0 (conn_enc [(TAG_BYTES, nonce)])] \<and> h' = h"
proof -
  have hello: "hello_ok w token nonce f \<longleftrightarrow> fr_opcode f = OP_HELLO w \<and> wi_hello w (fr_payload f) = Some (wi_hmac w token nonce)" for f
    using token_accepted_iff [OF assms(1)] by (auto simp: hello_ok_def split: option.splits)
  show ?thesis
  proof (cases first)
    case (Some f)
    show ?thesis
    proof (cases "hello_ok w token nonce f \<and> fst (wi_consume w nonce store)")
      case True
      with assms(2) Some obtain served where "serve w 1 evs h = Some (served, h')"
        "out = send_frame (OP_CHALLENGE w) 0 0 (conn_enc [(TAG_BYTES, nonce)]) #
           send_frame (OP_WELCOME w) 0 0 (welcome_payload session_id server_name) # served"
        by (auto simp: handle_connection_def Let_def split: prod.splits)
      with True Some hello [of f] serve_seq [of w 1 evs h served h'] show ?thesis by simp
    next
      case False
      with assms(2) Some hello [of f] show ?thesis
        by (auto simp: handle_connection_def Let_def split: prod.splits if_splits)
    qed
  qed (use assms(2) in \<open>simp add: handle_connection_def Let_def\<close>)
qed

text \<open>A handler that counts its requests, behind the token \<open>[1]\<close>.\<close>

definition counting_wire :: "(nat, bytes list, nat) wire" where
  "counting_wire =
     \<lparr>OP_CHALLENGE = 0, OP_HELLO = 1, OP_WELCOME = 2, OP_PING = 3, OP_PONG = 4, OP_GOODBYE = 5, OP_FAIL = 6,
      wi_hmac = (\<lambda>t n. take 32 (t @ n @ replicate 32 0)), wi_hello = Some, wi_pong = Some,
      wi_consume = (\<lambda>n used. (n \<notin> set used, n # used)),
      wi_dispatch = (\<lambda>op p c. Some (Inr (Reply (Single 7 p)), c + 1))\<rparr>"

theorem connection_authenticated_witness:
  "\<exists>out. handle_connection counting_wire [1] (Some [9]) 5 [] (Some (send_frame 1 0 0 (take 32 ([1, 9] @ replicate 32 0))))
        [Incoming (send_frame 8 3 0 [4])] [] 0 = Some (out, [[9]], 1) \<and> map fr_seq (drop 2 out) = [1] \<and>
     handle_connection counting_wire [1] (Some [9]) 5 [] (Some (send_frame 1 0 0 [2])) [Incoming (send_frame 8 3 0 [4])] [] 0 =
       Some ([send_frame 0 0 0 (conn_enc [(TAG_BYTES, [9])])], [], 0)"
proof -
  have len: "length (wi_hmac counting_wire t n) = 32" for t n by (simp add: counting_wire_def)
  have r: "\<exists>out. handle_connection counting_wire [1] (Some [9]) 5 [] (Some (send_frame 1 0 0 (take 32 ([1, 9] @ replicate 32 0))))
        [Incoming (send_frame 8 3 0 [4])] [] 0 = Some (out, [[9]], 1)"
    "\<exists>out. handle_connection counting_wire [1] (Some [9]) 5 [] (Some (send_frame 1 0 0 [2])) [Incoming (send_frame 8 3 0 [4])] [] 0 = Some (out, [], 0)"
    by (simp_all add: handle_connection_def hello_ok_def Let_def counting_wire_def send_frame_def token_accepted_iff numeral_eq_Suc)
  then obtain out out' where out: "handle_connection counting_wire [1] (Some [9]) 5 [] (Some (send_frame 1 0 0 (take 32 ([1, 9] @ replicate 32 0))))
        [Incoming (send_frame 8 3 0 [4])] [] 0 = Some (out, [[9]], 1)"
    "handle_connection counting_wire [1] (Some [9]) 5 [] (Some (send_frame 1 0 0 [2])) [Incoming (send_frame 8 3 0 [4])] [] 0 = Some (out', [], 0)"
    by blast
  have "map fr_seq (drop 2 out) = [1]"
    using connection_authenticated [OF len out(1)]
    by (auto simp: counting_wire_def send_frame_def numeral_eq_Suc)
  moreover have "out' = [send_frame 0 0 0 (conn_enc [(TAG_BYTES, [9])])]"
    using connection_authenticated [OF len out(2)] by (simp add: counting_wire_def send_frame_def)
  ultimately show ?thesis using out by auto
qed

end
