(* ===== verification/Spec2Isabelle.thy ===== *)
theory Spec2Isabelle
  imports Fnv Namespace_Keys Bloom Wal Memtable Cache Page Compaction Page_Store Bg_Compaction
    Hamt Mvcc Session Bm25 Bm25_Search Levenshtein Fuzzy Graph Graph_Search Hnsw Hnsw_Search Hnsw_File
    Index_Manager Index_Query Engine Engine_Refinement Engine_Run Engine_Recovery Engine_Branches
    Index_Recovery Utf8 Schema Planner Server Server_Transactions Server_Records
    Server_Queries Agent_Store Python_Bindings Connection
begin

text \<open>
  A verification development for uldb, an embedded record store with snapshots, transactions and
  query indices, written in Rust. Paths below are relative to the crate's \<^verbatim>\<open>src/\<close>.

  \<^bold>\<open>The program.\<close> \<^verbatim>\<open>engine.rs\<close> ties the parts together. A write goes to the write-ahead log
  (\<^verbatim>\<open>storage/wal.rs\<close>), the memtable (\<^verbatim>\<open>storage/memtable.rs\<close>), the query indices
  (\<^verbatim>\<open>index/manager.rs\<close>) and a persistent map (\<^verbatim>\<open>tx/hamt.rs\<close>) that snapshots and branches
  share. A full memtable becomes a sorted page (\<^verbatim>\<open>storage/page.rs\<close>) that a worker thread
  (\<^verbatim>\<open>storage/bg_compaction.rs\<close>) adds to the levels of \<^verbatim>\<open>storage/compaction.rs\<close> and saves
  through \<^verbatim>\<open>storage/page_store.rs\<close>. Reads consult memtable, frozen memtables, the cache
  (\<^verbatim>\<open>storage/cache.rs\<close>) and the levels. \<^verbatim>\<open>server.rs\<close> turns protocol messages into engine
  calls and keeps transaction sessions (\<^verbatim>\<open>tx/session.rs\<close>); \<^verbatim>\<open>agent_store.rs\<close> stores agent
  payloads in the engine; \<^verbatim>\<open>tx/mvcc.rs\<close> is a multi-version store of its own. The binary
  \<^verbatim>\<open>bin/uldb.rs\<close> authenticates connections and feeds the handlers, and \<^verbatim>\<open>python.rs\<close> offers
  databases, branch workspaces and agents to Python programs, on one engine they share.

  \<^bold>\<open>Theories.\<close>
  \<^item> \<open>Uldb_Prelude\<close>: words, byte strings, ordered and hash maps as association lists, bisection,
    and the locales through which components rely on each other: \<open>kv_writer\<close>, \<open>hashed_writer\<close>,
    \<open>kv_store\<close> (maps with put, hash-dependent termination, delete), \<open>sorted_run\<close> (sources a scan
    layers), \<open>step_invariant\<close>. \<open>Utf8\<close>: lossy conversion and characters.
  \<^item> \<open>Fnv\<close>, \<open>Namespace_Keys\<close>, \<open>Bloom\<close>, \<open>Wal\<close>, \<open>Memtable\<close>, \<open>Cache\<close>, \<open>Page\<close>, \<open>Compaction\<close>,
    \<open>Page_Store\<close>, \<open>Bg_Compaction\<close>, \<open>Hamt\<close>, \<open>Mvcc\<close>, \<open>Session\<close>: one per source file of the same
    name, with their round trips, refinements and invariants.
  \<^item> \<open>Bm25\<close>, \<open>Fuzzy\<close>, \<open>Graph\<close>, \<open>Hnsw\<close>, \<open>Index_Manager\<close>: the query indices (\<^verbatim>\<open>index/\<close>), with
    \<open>Bm25_Search\<close> (what a keyword search returns, from the history of documents), \<open>Levenshtein\<close> (the
    bounded edit distance is the edit distance), \<open>Graph_Search\<close> (traversals), \<open>Hnsw_Search\<close> (the vector
    graph stays well-formed, searches answer with true distances), \<open>Hnsw_File\<close> (its file format, read
    through the locale \<open>codec\<close>), \<open>Index_Query\<close> (queries over all indices after any updates) and
    \<open>Index_Recovery\<close> (the keyword index after a replay); \<open>Planner\<close>, \<open>Schema\<close>: \<^verbatim>\<open>query/\<close>;
    \<open>Float_Ops\<close>: floating point and sorting with a comparison.
  \<^item> \<open>Engine\<close>: all operations of \<^verbatim>\<open>engine.rs\<close>; \<open>Engine_Refinement\<close>: the invariant
    \<open>engine_ok\<close>, the abstraction \<open>engine_map\<close> and the step lemmas; \<open>Engine_Run\<close>: runs refine an
    abstract store and return; \<open>Engine_Recovery\<close>: crashes and reopening; \<open>Engine_Branches\<close>:
    branches and the windows in which reads are stale.
  \<^item> \<open>Server\<close>: the handlers; \<open>Server_Transactions\<close>: the locale \<open>effect_writer\<close>, serializable and
    snapshot transactions, and the commit race; \<open>Server_Records\<close>: the record handlers refine a map
    of the client; \<open>Server_Queries\<close>: the query handlers and the backup, with the keyword index
    as a mirror of the client's records and the files a backup copies; \<open>Agent_Store\<close>.
  \<^item> \<open>Connection\<close>: authentication and request loop of the binary, and its command line;
    \<open>Python_Bindings\<close>: the classes of the bindings, and what an agent and others see of each other.

  \<^bold>\<open>Correspondence.\<close> A struct is a record whose fields carry a prefix, an enum a datatype, a
  method a definition of the same name with the component's prefix, \<^verbatim>\<open>&mut self\<close> an argument
  returned updated. Integers that reach a file, a hash, a counter or a message are words of their
  width; sizes of things in memory are natural numbers. An operation that panics or does not
  return is \<open>None\<close>; an \<^verbatim>\<open>Err\<close> is a left value. A hash map is an association list in some
  iteration order.

  \<^bold>\<open>Parameters.\<close> Code outside the repository enters as arguments: the record \<open>platform\<close> (the
  checksum of \<^verbatim>\<open>crc32fast\<close>, the codec of \<^verbatim>\<open>flate2\<close>, and the two Bloom filter sizes computed in
  floating point), \<open>opcodes\<close> and \<open>wire\<close> (values, decoders, keyed hash and dispatch of
  \<^verbatim>\<open>ulmp\<close>), \<open>agent_codec\<close> (\<^verbatim>\<open>ulmen_core\<close>),
  \<open>float_ops\<close> and \<open>hnsw_floats\<close> (the floating-point instructions). What the standard library leaves
  open is an argument as well: the iteration order of a hash map, the order in which an unstable sort
  leaves equal elements and a heap yields its elements; \<open>query_env\<close> collects these for a query.
  Theorems that need a law of a parameter state it as a hypothesis.

  \<^bold>\<open>Bounds.\<close> There is no fuel: every loop is a terminating function, and the one recursion of the
  code that need not end, the insertion of two keys with equal 64-bit hashes into the persistent
  map, is \<open>None\<close>. The engine refinement holds up to three flushes, because the fourth triggers a
  compaction in which the oldest value of a key wins (theorem \<open>l0_compaction_oldest_wins\<close>), and
  with the worker idle between calls, because a flush hides its values until the worker has taken
  the page (theorem \<open>flush_window_hides_writes\<close>).

  \<^bold>\<open>Not modelled.\<close> File errors, sockets, TLS and threads beyond the interleavings named
  above, and with them \<^verbatim>\<open>main\<close> and the accept loop of the binary; a backup into the data
  directory itself, which lists files while it creates them; the conversions of \<^verbatim>\<open>pyo3\<close>, the
  printed forms of its classes and poisoned locks; the module declarations, which hold no logic
  of their own.
\<close>

end
